(* ===== verification/Sez_Prelude.thy ===== *)
theory Sez_Prelude
  imports Main "HOL-Library.Word" "HOL-Library.Monad_Syntax"
begin

text \<open>
  The vocabulary shared by every theory of the development: the machine integers of
  \<^verbatim>\<open>iface.h\<close>, checked access to a C buffer, and the lemmas on words, options and
  lists that several components use.
\<close>

unbundle bit_operations_syntax

subsection \<open>Machine integers (iface.h)\<close>

type_synonym u8 = "8 word"
type_synonym u16 = "16 word"
type_synonym u32 = "32 word"

named_theorems rd_simps \<open>evaluation of checked buffer reads\<close>
named_theorems io_simps \<open>one-step equations of commands\<close>

subsection \<open>Checked buffer access\<close>

text \<open>
  A C buffer is the list of its bytes. Reading index \<open>i\<close> is defined only inside the
  buffer; \<open>None\<close> stands for the undefined behaviour of an access outside it. An index is a
  natural number: it is checked at every access, long before a 32-bit one could wrap.
\<close>

definition rd :: "u8 list \<Rightarrow> nat \<Rightarrow> u8 option" where
  "rd buf i = (if i < length buf then Some (buf ! i) else None)"

text \<open>The big endian 16-bit value at \<open>i\<close>: \<^verbatim>\<open>((u32) p[i] << 8) + p[i + 1]\<close>.\<close>

definition rd16 :: "u8 list \<Rightarrow> nat \<Rightarrow> u32 option" where
  "rd16 buf i = do { a \<leftarrow> rd buf i; b \<leftarrow> rd buf (i + 1);
     Some (push_bit 8 (ucast a) + ucast b) }"

text \<open>The bytes of a 32-bit value, high byte first and low byte first.\<close>

definition be32 :: "u32 \<Rightarrow> u8 list" where
  "be32 v = [ucast (drop_bit 24 v), ucast (drop_bit 16 v), ucast (drop_bit 8 v), ucast v]"

definition le32 :: "u32 \<Rightarrow> u8 list" where
  "le32 v = [ucast v, ucast (drop_bit 8 v), ucast (drop_bit 16 v), ucast (drop_bit 24 v)]"

lemma length_be32 [simp]: "length (be32 v) = 4"
  by (simp add: be32_def)

lemma length_le32 [simp]: "length (le32 v) = 4"
  by (simp add: le32_def)

lemma le32_not_Nil [simp]: "le32 v \<noteq> []"
  by (simp add: le32_def)

lemma rd_Some_iff: "rd buf i = Some b \<longleftrightarrow> i < length buf \<and> b = buf ! i"
  by (auto simp: rd_def)

lemma rd_inside [rd_simps]: "i < length buf \<Longrightarrow> rd buf i = Some (buf ! i)"
  by (simp add: rd_def)

lemma rd_outside: "length buf \<le> i \<Longrightarrow> rd buf i = None"
  by (simp add: rd_def)

lemma rd16_inside [rd_simps]:
  "i + 1 < length buf \<Longrightarrow> rd16 buf i = Some (push_bit 8 (ucast (buf ! i)) + ucast (buf ! (i + 1)))"
  by (simp add: rd16_def rd_def)

lemma rd16_outside: "length buf \<le> i + 1 \<Longrightarrow> rd16 buf i = None"
  by (simp add: rd16_def rd_def)

subsection \<open>Words\<close>

lemma push_bit_xor: "push_bit n (a XOR b) = push_bit n a XOR push_bit n (b :: 'a::len word)"
  by (rule bit_word_eqI) (auto simp: bit_simps)

lemma drop_bit_xor: "drop_bit n (a XOR b) = drop_bit n a XOR drop_bit n (b :: 'a::len word)"
  by (rule bit_word_eqI) (auto simp: bit_simps)

lemma xor_eq_zero_iff: "a XOR b = 0 \<longleftrightarrow> a = (b :: 'a::len word)"
  by (metis xor.assoc xor.left_neutral xor.right_neutral xor_self_eq)

lemma xor_cancel_left [simp]: "a XOR b = a XOR c \<longleftrightarrow> b = (c :: 'a::len word)"
proof
  assume "a XOR b = a XOR c"
  then have "a XOR (a XOR b) = a XOR (a XOR c)" by simp
  then show "b = c" by (simp add: xor.assoc [symmetric])
qed simp

lemma xor_cancel_right [simp]: "b XOR a = c XOR a \<longleftrightarrow> b = (c :: 'a::len word)"
  using xor_cancel_left [of a b c] by (simp add: xor.commute)

lemma and_one_bit_iff:
  "(x AND push_bit n 1 \<noteq> 0) = bit x n" for x :: "'a::len word"
  by (metis and_exp_eq_0_iff_not_bit push_bit_of_1)

lemma no_high_bit:
  fixes v :: "'a::len word"
  assumes "uint v < 2 ^ k" and "k \<le> n"
  shows "\<not> bit v n"
proof
  assume "bit v n"
  then have "bit (uint v) n" by (simp add: bit_uint_iff) (auto dest: bit_imp_le_length)
  moreover have "take_bit k (uint v) = uint v" using assms by (simp add: take_bit_int_eq_self)
  ultimately have "bit (take_bit k (uint v)) n" by simp
  with assms(2) show False by (simp add: bit_take_bit_iff)
qed

lemma low_bits_less:
  fixes v :: u32
  assumes "\<And>n. k \<le> n \<Longrightarrow> \<not> bit v n"
  shows "uint v < 2 ^ k"
proof -
  have "take_bit k v = v" by (rule bit_word_eqI) (use assms not_le in \<open>auto simp: bit_take_bit_iff\<close>)
  then have "uint v = take_bit k (uint v)" by (metis unsigned_take_bit_eq)
  then show ?thesis by (metis take_bit_int_less_exp)
qed

lemma be32_value:
  fixes v :: u32
  shows "push_bit 24 (ucast (ucast (drop_bit 24 v) :: u8)) OR
    push_bit 16 (ucast (ucast (drop_bit 16 v) :: u8)) OR
    push_bit 8 (ucast (ucast (drop_bit 8 v) :: u8)) OR ucast (ucast v :: u8) = v" (is "?j = v")
proof (rule bit_word_eqI)
  fix n assume "n < LENGTH(32)"
  then have n: "n < 32" and less: "n - k < 32" for k by simp_all
  have eq: "bit ?j n =
    ((24 \<le> n \<and> n - 24 < 8 \<and> bit v (24 + (n - 24))) \<or>
    ((16 \<le> n \<and> n - 16 < 8 \<and> bit v (16 + (n - 16))) \<or>
    ((8 \<le> n \<and> n - 8 < 8 \<and> bit v (8 + (n - 8))) \<or> (n < 8 \<and> bit v n))))"
    using n
    by (simp only: bit_or_iff bit_push_bit_iff bit_ucast_iff bit_drop_bit_eq comp_def)
      (simp add: less)
  consider "n < 8" | "8 \<le> n" "n < 16" | "16 \<le> n" "n < 24" | "24 \<le> n" by linarith
  then show "bit ?j n = bit v n"
    unfolding eq using n by cases auto
qed

end
