(* ===== verification/Sez_Crc.thy ===== *)
theory Sez_Crc
  imports Sez_Prelude
begin

text \<open>
  The two checksums of the program: \<^verbatim>\<open>mpeg2_crc\<close> of \<^verbatim>\<open>mpgatsc.cpp\<close> (most significant bit
  first) guards every PSI section, and \<^verbatim>\<open>tuner_calc_crc\<close> of \<^verbatim>\<open>socket.cpp\<close> (least
  significant bit first) guards every frame exchanged with a tuner. Both are proved equal
  to the bit-by-bit division they unroll, and one locale gives both their error-detection
  theory.
\<close>

subsection \<open>The code\<close>

definition mpeg2_crc_byte :: "u32 \<Rightarrow> u8 \<Rightarrow> u32" where
  "mpeg2_crc_byte crc0 b =
    (let x = (ucast (drop_bit 24 crc0) :: u8) XOR b;
         crc = push_bit 8 crc0;
         crc = (if x AND 0x01 \<noteq> 0 then crc XOR 0x04c11db7 else crc);
         crc = (if x AND 0x02 \<noteq> 0 then crc XOR 0x09823b6e else crc);
         crc = (if x AND 0x04 \<noteq> 0 then crc XOR 0x130476dc else crc);
         crc = (if x AND 0x08 \<noteq> 0 then crc XOR 0x2608edb8 else crc);
         crc = (if x AND 0x10 \<noteq> 0 then crc XOR 0x4c11db70 else crc);
         crc = (if x AND 0x20 \<noteq> 0 then crc XOR 0x9823b6e0 else crc);
         crc = (if x AND 0x40 \<noteq> 0 then crc XOR 0x34867077 else crc);
         crc = (if x AND 0x80 \<noteq> 0 then crc XOR 0x690ce0ee else crc)
     in crc)"

definition mpeg2_crc :: "u8 list \<Rightarrow> u32" where
  "mpeg2_crc pkt = foldl mpeg2_crc_byte (-1) pkt"

definition tuner_crc_byte :: "u32 \<Rightarrow> u8 \<Rightarrow> u32" where
  "tuner_crc_byte crc0 b =
    (let x = (ucast crc0 :: u8) XOR b;
         crc = drop_bit 8 crc0;
         crc = (if x AND 0x01 \<noteq> 0 then crc XOR 0x77073096 else crc);
         crc = (if x AND 0x02 \<noteq> 0 then crc XOR 0xee0e612c else crc);
         crc = (if x AND 0x04 \<noteq> 0 then crc XOR 0x076dc419 else crc);
         crc = (if x AND 0x08 \<noteq> 0 then crc XOR 0x0edb8832 else crc);
         crc = (if x AND 0x10 \<noteq> 0 then crc XOR 0x1db71064 else crc);
         crc = (if x AND 0x20 \<noteq> 0 then crc XOR 0x3b6e20c8 else crc);
         crc = (if x AND 0x40 \<noteq> 0 then crc XOR 0x76dc4190 else crc);
         crc = (if x AND 0x80 \<noteq> 0 then crc XOR 0xedb88320 else crc)
     in crc)"

definition tuner_calc_crc :: "u8 list \<Rightarrow> u32" where
  "tuner_calc_crc pkt = NOT (foldl tuner_crc_byte (-1) pkt)"

subsection \<open>Reference: division of the message polynomial, one bit at a time\<close>

definition msb_step :: "u32 \<Rightarrow> u32" where
  "msb_step c = push_bit 1 c XOR (if bit c 31 then 0x04c11db7 else 0)"

definition lsb_step :: "u32 \<Rightarrow> u32" where
  "lsb_step c = drop_bit 1 c XOR (if bit c 0 then 0xedb88320 else 0)"

definition msb_adv :: "u32 \<Rightarrow> u32" where "msb_adv = msb_step ^^ 8"
definition lsb_adv :: "u32 \<Rightarrow> u32" where "lsb_adv = lsb_step ^^ 8"

lemma bit_sel_xor:
  "(if bit (a XOR b) n then k else 0) =
   (if bit a n then k else 0) XOR (if bit b n then k else (0 :: 'b::len word))"
  for a b :: "'a::len word"
  by (auto simp: bit_xor_iff)

lemma msb_step_xor: "msb_step (a XOR b) = msb_step a XOR msb_step b"
  by (simp add: msb_step_def push_bit_xor bit_sel_xor xor.assoc xor.left_commute)

lemma lsb_step_xor: "lsb_step (a XOR b) = lsb_step a XOR lsb_step b"
  by (simp add: lsb_step_def drop_bit_xor bit_sel_xor xor.assoc xor.left_commute)

lemma funpow_xor:
  fixes f :: "u32 \<Rightarrow> u32"
  assumes "\<And>a b. f (a XOR b) = f a XOR f b"
  shows "(f ^^ n) (a XOR b) = (f ^^ n) a XOR (f ^^ n) b"
  by (induction n) (simp_all add: assms)

lemma msb_step_zero: "msb_step c = 0 \<Longrightarrow> c = 0"
proof -
  assume z: "msb_step c = 0"
  have b0: "bit (msb_step c) 0 = bit c 31"
    unfolding msb_step_def by (simp only: bit_xor_iff bit_push_bit_iff) simp
  with z have top: "\<not> bit c 31" by simp
  with z have "push_bit 1 c = 0" by (simp add: msb_step_def)
  have "bit c n = bit (0::u32) n" if "n < 32" for n
  proof (cases "n = 31")
    case False
    with that have "bit (push_bit 1 c) (Suc n) = bit c n"
      by (simp only: bit_push_bit_iff) simp
    with \<open>push_bit 1 c = 0\<close> show ?thesis by simp
  qed (use top in simp)
  then show "c = 0" by (intro bit_word_eqI) simp
qed

lemma lsb_step_zero: "lsb_step c = 0 \<Longrightarrow> c = 0"
proof -
  assume z: "lsb_step c = 0"
  have "bit (drop_bit 1 c) 31 = False"
    by (simp only: bit_drop_bit_eq) (auto dest: bit_imp_le_length)
  then have "bit (lsb_step c) 31 = bit c 0"
    unfolding lsb_step_def by (simp only: bit_xor_iff) simp
  with z have low: "\<not> bit c 0" by simp
  with z have "drop_bit 1 c = 0" by (simp add: lsb_step_def)
  have "bit c n = bit (0::u32) n" if "n < 32" for n
  proof (cases n)
    case (Suc m)
    then have "bit (drop_bit 1 c) m = bit c n" by (simp add: bit_drop_bit_eq)
    with \<open>drop_bit 1 c = 0\<close> show ?thesis by simp
  qed (use low in simp)
  then show "c = 0" by (intro bit_word_eqI) simp
qed

lemma funpow_zero:
  fixes f :: "u32 \<Rightarrow> u32"
  assumes "\<And>c. f c = 0 \<Longrightarrow> c = 0"
  shows "(f ^^ n) c = 0 \<Longrightarrow> c = 0"
  by (induction n) (auto dest: assms)


subsection \<open>The unrolled steps are eight single steps\<close>

text \<open>What the eight conditional XORs of \<^verbatim>\<open>mpeg2_crc\<close> add for the byte \<open>x\<close>.\<close>

definition mpeg2_row :: "u8 \<Rightarrow> u32" where
  "mpeg2_row x =
    (if bit x 0 then 0x04c11db7 else 0) XOR (if bit x 1 then 0x09823b6e else 0) XOR
    (if bit x 2 then 0x130476dc else 0) XOR (if bit x 3 then 0x2608edb8 else 0) XOR
    (if bit x 4 then 0x4c11db70 else 0) XOR (if bit x 5 then 0x9823b6e0 else 0) XOR
    (if bit x 6 then 0x34867077 else 0) XOR (if bit x 7 then 0x690ce0ee else 0)"

definition tuner_row :: "u8 \<Rightarrow> u32" where
  "tuner_row x =
    (if bit x 0 then 0x77073096 else 0) XOR (if bit x 1 then 0xee0e612c else 0) XOR
    (if bit x 2 then 0x076dc419 else 0) XOR (if bit x 3 then 0x0edb8832 else 0) XOR
    (if bit x 4 then 0x1db71064 else 0) XOR (if bit x 5 then 0x3b6e20c8 else 0) XOR
    (if bit x 6 then 0x76dc4190 else 0) XOR (if bit x 7 then 0xedb88320 else 0)"

lemma u8_mask_bits:
  fixes x :: u8
  shows "(x AND 0x01 \<noteq> 0) = bit x 0" "(x AND 0x02 \<noteq> 0) = bit x 1"
    "(x AND 0x04 \<noteq> 0) = bit x 2" "(x AND 0x08 \<noteq> 0) = bit x 3"
    "(x AND 0x10 \<noteq> 0) = bit x 4" "(x AND 0x20 \<noteq> 0) = bit x 5"
    "(x AND 0x40 \<noteq> 0) = bit x 6" "(x AND 0x80 \<noteq> 0) = bit x 7"
  using and_one_bit_iff [of x 0] and_one_bit_iff [of x 1] and_one_bit_iff [of x 2]
    and_one_bit_iff [of x 3] and_one_bit_iff [of x 4] and_one_bit_iff [of x 5]
    and_one_bit_iff [of x 6] and_one_bit_iff [of x 7]
  by simp_all

lemma if_xor: "(if p then c XOR k else c) = c XOR (if p then k else (0::u32))"
  by simp

lemma mpeg2_crc_byte_row:
  "mpeg2_crc_byte c b = push_bit 8 c XOR mpeg2_row (ucast (drop_bit 24 c) XOR b)"
  unfolding mpeg2_crc_byte_def Let_def u8_mask_bits mpeg2_row_def
  by (simp only: if_xor) (simp only: xor.assoc)

lemma tuner_crc_byte_row:
  "tuner_crc_byte c b = drop_bit 8 c XOR tuner_row (ucast c XOR b)"
  unfolding tuner_crc_byte_def Let_def u8_mask_bits tuner_row_def
  by (simp only: if_xor) (simp only: xor.assoc)


text \<open>A byte is the XOR of its single bits, so a linear function on it is determined by
  the images of the eight single bits.\<close>

lemma nat_less_8:
  "(n::nat) < 8 \<longleftrightarrow> n = 0 \<or> n = 1 \<or> n = 2 \<or> n = 3 \<or> n = 4 \<or> n = 5 \<or> n = 6 \<or> n = 7"
  by auto

lemma bit_if_zero: "bit (if p then k else (0::u32)) n = (p \<and> bit k n)"
  by simp

lemma u8_as_bits:
  "ucast x =
    (if bit x 0 then push_bit 0 1 else 0) XOR (if bit x 1 then push_bit 1 1 else 0) XOR
    (if bit x 2 then push_bit 2 1 else 0) XOR (if bit x 3 then push_bit 3 1 else 0) XOR
    (if bit x 4 then push_bit 4 1 else 0) XOR (if bit x 5 then push_bit 5 1 else 0) XOR
    (if bit x 6 then push_bit 6 1 else 0) XOR (if bit x 7 then push_bit 7 1 else (0::u32))"
  (is "_ = ?r") for x :: u8
proof (rule bit_word_eqI)
  fix n assume "n < LENGTH(32)"
  then have n32: "n < 32" by simp
  show "bit (ucast x :: u32) n = bit ?r n"
  proof (cases "n < 8")
    case True
    then show ?thesis
      using n32 unfolding nat_less_8
      by (simp only: bit_xor_iff bit_if_zero bit_push_bit_iff bit_ucast_iff bit_1_iff)
        (elim disjE; simp)
  next
    case False
    then have "\<not> bit x n" by (auto dest: bit_imp_le_length)
    with False n32 show ?thesis
      by (simp only: bit_xor_iff bit_if_zero bit_push_bit_iff bit_ucast_iff bit_1_iff) auto
  qed
qed

lemma linear_on_byte:
  fixes f :: "u32 \<Rightarrow> u32" and x :: u8
  assumes lin: "\<And>a b. f (a XOR b) = f a XOR f b"
  shows "f (ucast x) =
    (if bit x 0 then f (push_bit 0 1) else 0) XOR (if bit x 1 then f (push_bit 1 1) else 0) XOR
    (if bit x 2 then f (push_bit 2 1) else 0) XOR (if bit x 3 then f (push_bit 3 1) else 0) XOR
    (if bit x 4 then f (push_bit 4 1) else 0) XOR (if bit x 5 then f (push_bit 5 1) else 0) XOR
    (if bit x 6 then f (push_bit 6 1) else 0) XOR (if bit x 7 then f (push_bit 7 1) else 0)"
proof -
  from lin [of 0 0] have z: "f 0 = 0" by simp
  have sel: "f (if p then k else 0) = (if p then f k else 0)" for p k
    by (simp add: z)
  show ?thesis
    by (subst u8_as_bits) (simp only: lin sel)
qed

lemma msb_adv_xor: "msb_adv (a XOR b) = msb_adv a XOR msb_adv b"
  unfolding msb_adv_def by (rule funpow_xor [OF msb_step_xor])

lemma lsb_adv_xor: "lsb_adv (a XOR b) = lsb_adv a XOR lsb_adv b"
  unfolding lsb_adv_def by (rule funpow_xor [OF lsb_step_xor])

lemma msb_adv_zero: "msb_adv c = 0 \<Longrightarrow> c = 0"
  unfolding msb_adv_def by (rule funpow_zero [OF msb_step_zero])

lemma lsb_adv_zero: "lsb_adv c = 0 \<Longrightarrow> c = 0"
  unfolding lsb_adv_def by (rule funpow_zero [OF lsb_step_zero])

lemma msb_basis:
  "msb_adv (push_bit 24 (push_bit 0 1)) = 0x04c11db7"
  "msb_adv (push_bit 24 (push_bit 1 1)) = 0x09823b6e"
  "msb_adv (push_bit 24 (push_bit 2 1)) = 0x130476dc"
  "msb_adv (push_bit 24 (push_bit 3 1)) = 0x2608edb8"
  "msb_adv (push_bit 24 (push_bit 4 1)) = 0x4c11db70"
  "msb_adv (push_bit 24 (push_bit 5 1)) = 0x9823b6e0"
  "msb_adv (push_bit 24 (push_bit 6 1)) = 0x34867077"
  "msb_adv (push_bit 24 (push_bit 7 1)) = 0x690ce0ee"
  by code_simp+

lemma lsb_basis:
  "lsb_adv (push_bit 0 1) = 0x77073096" "lsb_adv (push_bit 1 1) = 0xee0e612c"
  "lsb_adv (push_bit 2 1) = 0x076dc419" "lsb_adv (push_bit 3 1) = 0x0edb8832"
  "lsb_adv (push_bit 4 1) = 0x1db71064" "lsb_adv (push_bit 5 1) = 0x3b6e20c8"
  "lsb_adv (push_bit 6 1) = 0x76dc4190" "lsb_adv (push_bit 7 1) = 0xedb88320"
  by code_simp+

lemma msb_adv_byte: "msb_adv (push_bit 24 (ucast x)) = mpeg2_row x"
proof -
  have lin: "msb_adv (push_bit 24 (a XOR b)) =
      msb_adv (push_bit 24 a) XOR msb_adv (push_bit 24 b)" for a b
    by (simp only: push_bit_xor msb_adv_xor)
  show ?thesis
    unfolding linear_on_byte [of "\<lambda>v. msb_adv (push_bit 24 v)" x, OF lin]
      mpeg2_row_def msb_basis ..
qed

lemma lsb_adv_byte: "lsb_adv (ucast x) = tuner_row x"
  unfolding linear_on_byte [of lsb_adv x, OF lsb_adv_xor] tuner_row_def lsb_basis ..

text \<open>Where no set bit is shifted out, eight steps are a shift by one byte.\<close>

lemma msb_shift:
  "(\<And>k. 32 - n \<le> k \<Longrightarrow> \<not> bit c k) \<Longrightarrow> n \<le> 32 \<Longrightarrow> (msb_step ^^ n) c = push_bit n c"
proof (induction n)
  case (Suc n)
  then have IH: "(msb_step ^^ n) c = push_bit n c" by auto
  have "bit (push_bit n c) 31 = bit c (31 - n)"
    using Suc.prems(2) by (simp only: bit_push_bit_iff) auto
  also have "\<dots> = False" using Suc.prems by auto
  finally show ?case
    unfolding funpow.simps comp_def IH by (simp add: msb_step_def)
qed simp

lemma lsb_shift:
  "(\<And>k. k < n \<Longrightarrow> \<not> bit c k) \<Longrightarrow> (lsb_step ^^ n) c = drop_bit n c"
proof (induction n)
  case (Suc n)
  then have IH: "(lsb_step ^^ n) c = drop_bit n c" by auto
  have "bit (drop_bit n c) 0 = bit c n"
    by (simp only: bit_drop_bit_eq) simp
  also have "\<dots> = False" using Suc.prems by auto
  finally show ?case
    unfolding funpow.simps comp_def IH by (simp add: lsb_step_def)
qed simp

subsection \<open>What the two checksums share\<close>

text \<open>
  A byte-wise engine: \<open>step\<close> feeds one byte, which is the eightfold single step \<open>adv\<close> of
  the register with the byte XORed into its slot. The laws are linearity, injectivity of
  \<open>adv\<close>, and that the four byte slots of the register are consumed one after the other.
  Every error-detection fact below is proved once from them.
\<close>

locale crc_engine =
  fixes step :: "u32 \<Rightarrow> u8 \<Rightarrow> u32"
    and adv :: "u32 \<Rightarrow> u32"
    and slot :: "nat \<Rightarrow> u8 \<Rightarrow> u32"
  assumes step_adv: "step c b = adv (c XOR slot 0 b)"
    and adv_xor: "adv (x XOR y) = adv x XOR adv y"
    and adv_zero: "adv x = 0 \<Longrightarrow> x = 0"
    and slot_xor: "slot k (a XOR b) = slot k a XOR slot k b"
    and slot_next: "k < 3 \<Longrightarrow> adv (slot (Suc k) b) = slot k b"
    and slots_zero: "slot 0 a XOR slot 1 b XOR slot 2 d XOR slot 3 e = 0 \<Longrightarrow>
      a = 0 \<and> b = 0 \<and> d = 0 \<and> e = 0"
begin

fun pack :: "nat \<Rightarrow> u8 list \<Rightarrow> u32" where
  "pack k [] = 0"
| "pack k (b # bs) = slot k b XOR pack (Suc k) bs"

lemma adv_0 [simp]: "adv 0 = 0"
  using adv_xor [of 0 0] by simp

lemma adv_inj: "adv x = adv y \<longleftrightarrow> x = y"
proof
  assume "adv x = adv y"
  then have "adv (x XOR y) = 0" by (simp add: adv_xor)
  then show "x = y" using adv_zero xor_eq_zero_iff by blast
qed simp

lemma funpow_adv_inj: "(adv ^^ n) x = (adv ^^ n) y \<longleftrightarrow> x = y"
  by (induction n) (simp_all add: adv_inj)

lemma pack_next: "Suc k + length bs \<le> 4 \<Longrightarrow> adv (pack (Suc k) bs) = pack k bs"
  by (induction bs arbitrary: k) (simp_all add: adv_xor slot_next)

lemma feed_few: "length bs \<le> 4 \<Longrightarrow> foldl step c bs = (adv ^^ length bs) (c XOR pack 0 bs)"
proof (induction bs arbitrary: c)
  case (Cons b bs)
  then have "foldl step c (b # bs) = (adv ^^ length bs) (step c b XOR pack 0 bs)"
    by simp
  also have "step c b = adv (c XOR slot 0 b)" by (rule step_adv)
  also have "pack 0 bs = adv (pack (Suc 0) bs)"
    using Cons.prems by (intro pack_next [symmetric]) simp
  finally show ?case
    by (simp add: adv_xor [symmetric] xor.assoc funpow_swap1)
qed simp

lemma slot_0 [simp]: "slot k 0 = 0"
  using slot_xor [of k 0 0] by simp

lemma pack_xor:
  "length bs = length bs' \<Longrightarrow> pack k bs XOR pack k bs' = pack k (map2 (XOR) bs bs')"
  by (induction bs bs' arbitrary: k rule: list_induct2)
    (simp_all add: slot_xor xor.assoc xor.left_commute)

lemma length_le4_cases:
  assumes "length bs \<le> 4"
  obtains "bs = []" | a where "bs = [a]" | a b where "bs = [a, b]"
  | a b d where "bs = [a, b, d]" | a b d e where "bs = [a, b, d, e]"
proof (cases bs)
  case (Cons a as)
  note 1 = this
  show ?thesis
  proof (cases as)
    case (Cons b cs)
    note 2 = this
    show ?thesis
    proof (cases cs)
      case (Cons d ds)
      with 1 2 assms that show ?thesis by (cases ds) auto
    qed (use 1 2 that in auto)
  qed (use 1 that in auto)
qed (use that in auto)

lemma pack_zero: "length bs \<le> 4 \<Longrightarrow> pack 0 bs = 0 \<Longrightarrow> set bs \<subseteq> {0}"
proof (erule length_le4_cases)
  fix a assume "bs = [a]" and "pack 0 bs = 0"
  then show ?thesis using slots_zero [of a 0 0 0] by simp
next
  fix a b assume "bs = [a, b]" and "pack 0 bs = 0"
  then show ?thesis using slots_zero [of a b 0 0] by simp
next
  fix a b d assume "bs = [a, b, d]" and "pack 0 bs = 0"
  then show ?thesis using slots_zero [of a b d 0] by (simp add: numeral_2_eq_2 xor.assoc)
next
  fix a b d e assume "bs = [a, b, d, e]" and "pack 0 bs = 0"
  then show ?thesis
    using slots_zero [of a b d e] by (simp add: numeral_2_eq_2 numeral_3_eq_3 xor.assoc)
qed simp

lemma map2_xor_zero:
  "length bs = length bs' \<Longrightarrow> set (map2 (XOR) bs bs') \<subseteq> {0} \<Longrightarrow> bs = (bs' :: u8 list)"
  by (induction bs bs' rule: list_induct2) (auto simp: xor_eq_zero_iff)

lemma pack_inj:
  assumes "length bs = length bs'" "length bs \<le> 4" "pack 0 bs = pack 0 bs'"
  shows "bs = bs'"
proof -
  from assms have "pack 0 (map2 (XOR) bs bs') = 0"
    by (simp add: pack_xor [symmetric])
  then have "set (map2 (XOR) bs bs') \<subseteq> {0}"
    using assms(1,2) by (intro pack_zero) simp_all
  with assms(1) show ?thesis by (rule map2_xor_zero)
qed

lemma step_inj_state: "step c b = step c' b \<longleftrightarrow> c = c'"
  by (simp add: step_adv [of _ b] adv_inj)

lemma feed_inj_state: "foldl step c bs = foldl step c' bs \<longleftrightarrow> c = c'"
  by (induction bs arbitrary: c c') (simp_all add: step_inj_state)

text \<open>A change confined to four neighbouring bytes always changes the register.\<close>

lemma burst_detected:
  assumes "length e = length e'" "length e \<le> 4" "e \<noteq> e'"
  shows "foldl step c (p @ e @ s) \<noteq> foldl step c (p @ e' @ s)"
proof
  assume "foldl step c (p @ e @ s) = foldl step c (p @ e' @ s)"
  then have "foldl step (foldl step c p) e = foldl step (foldl step c p) e'"
    by (simp add: feed_inj_state)
  with assms(1,2) have "foldl step c p XOR pack 0 e = foldl step c p XOR pack 0 e'"
    by (simp add: feed_few funpow_adv_inj)
  then have "pack 0 e = pack 0 e'" by simp
  with assms show False using pack_inj by blast
qed

text \<open>Feeding the register its own content clears it.\<close>

lemma residue:
  assumes "length t = 4" "pack 0 t = foldl step c bs"
  shows "foldl step c (bs @ t) = 0"
proof -
  have "foldl step c (bs @ t) = (adv ^^ 4) (pack 0 t XOR pack 0 t)"
    using assms by (simp add: feed_few)
  then show ?thesis by (simp add: numeral_eq_Suc)
qed

lemma residue_iff:
  assumes "length t = 4"
  shows "foldl step c (bs @ t) = 0 \<longleftrightarrow> pack 0 t = foldl step c bs"
proof
  assume "foldl step c (bs @ t) = 0"
  then have "(adv ^^ 4) (foldl step c bs XOR pack 0 t) = (adv ^^ 4) 0"
    using assms by (simp add: feed_few numeral_eq_Suc)
  then show "pack 0 t = foldl step c bs"
    by (simp add: funpow_adv_inj xor_eq_zero_iff)
qed (rule residue [OF assms])

end

subsection \<open>Both checksums are such engines\<close>

lemma drop_all_u8: "drop_bit 8 (b :: u8) = 0"
  by (rule bit_word_eqI) (simp add: bit_drop_bit_eq bit_imp_le_length not_le)

lemma bit_u8_less: "bit (b :: u8) n \<Longrightarrow> n < 8"
  by (auto dest: bit_imp_le_length)

text \<open>Splitting a register into the byte that meets the message and the rest.\<close>

lemma top_rest_bit: "24 \<le> k \<Longrightarrow> \<not> bit (c XOR push_bit 24 (ucast (ucast (drop_bit 24 c) :: u8))) k"
  for c :: u32
  by (auto simp only: bit_xor_iff bit_push_bit_iff bit_ucast_iff bit_drop_bit_eq comp_def
      dest: bit_imp_le_length) (auto dest: bit_imp_le_length)

lemma low_rest_bit: "k < 8 \<Longrightarrow> \<not> bit (c XOR ucast (ucast c :: u8)) k" for c :: u32
  by (auto simp only: bit_xor_iff bit_ucast_iff) auto

lemma push8_top_rest:
  "push_bit 8 (c XOR push_bit 24 (ucast (x :: u8))) = push_bit 8 (c :: u32)"
  by (rule bit_word_eqI)
    (auto simp only: bit_xor_iff bit_push_bit_iff bit_ucast_iff dest: bit_u8_less; auto)

lemma drop8_low_rest: "drop_bit 8 (c XOR ucast (x :: u8)) = drop_bit 8 (c :: u32)"
  by (rule bit_word_eqI)
    (auto simp only: bit_xor_iff bit_drop_bit_eq comp_def bit_ucast_iff dest: bit_u8_less; auto)

lemma mpeg2_crc_byte_adv: "mpeg2_crc_byte c b = msb_adv (c XOR push_bit 24 (ucast b))"
proof -
  define t where "t = (ucast (drop_bit 24 c) :: u8)"
  define r where "r = c XOR push_bit 24 (ucast t)"
  have c: "c = r XOR push_bit 24 (ucast t)"
    by (simp add: r_def xor.assoc)
  have "msb_adv r = push_bit 8 r"
    unfolding msb_adv_def r_def t_def by (rule msb_shift) (use top_rest_bit in auto)
  then have r: "msb_adv r = push_bit 8 c"
    by (simp only: r_def push8_top_rest)
  have "c XOR push_bit 24 (ucast b) = r XOR push_bit 24 (ucast (t XOR b))"
    by (subst c) (simp add: push_bit_xor xor.assoc unsigned_xor_eq)
  then have "msb_adv (c XOR push_bit 24 (ucast b)) = push_bit 8 c XOR mpeg2_row (t XOR b)"
    by (simp only: msb_adv_xor msb_adv_byte r)
  then show ?thesis by (simp only: mpeg2_crc_byte_row t_def)
qed

lemma tuner_crc_byte_adv: "tuner_crc_byte c b = lsb_adv (c XOR ucast b)"
proof -
  define t where "t = (ucast c :: u8)"
  define r where "r = c XOR ucast t"
  have c: "c = r XOR ucast t"
    by (simp add: r_def xor.assoc)
  have "lsb_adv r = drop_bit 8 r"
    unfolding lsb_adv_def r_def t_def by (rule lsb_shift) (use low_rest_bit in auto)
  then have r: "lsb_adv r = drop_bit 8 c"
    by (simp only: r_def drop8_low_rest)
  have "c XOR ucast b = r XOR ucast (t XOR b)"
    by (subst c) (simp add: xor.assoc unsigned_xor_eq)
  then have "lsb_adv (c XOR ucast b) = drop_bit 8 c XOR tuner_row (t XOR b)"
    by (simp only: lsb_adv_xor lsb_adv_byte r)
  then show ?thesis by (simp only: tuner_crc_byte_row t_def)
qed

definition mpeg2_slot :: "nat \<Rightarrow> u8 \<Rightarrow> u32" where
  "mpeg2_slot k b = push_bit (24 - 8 * k) (ucast b)"

definition tuner_slot :: "nat \<Rightarrow> u8 \<Rightarrow> u32" where
  "tuner_slot k b = push_bit (8 * k) (ucast b)"

lemma four_slots_bits:
  fixes a b d e :: u8
  defines "v \<equiv> push_bit 24 (ucast a) XOR push_bit 16 (ucast b) XOR push_bit 8 (ucast d) XOR
    (ucast e :: u32)"
  assumes n: "n < 8"
  shows "bit v (24 + n) = bit a n" "bit v (16 + n) = bit b n"
    "bit v (8 + n) = bit d n" "bit v n = bit e n"
proof -
  have out: "\<not> bit (x :: u8) (8 + k)" for x k
    using bit_u8_less [of x "8 + k"] by auto
  have bits: "bit v m = (((24 \<le> m \<and> m < 32 \<and> bit a (m - 24)) \<noteq> (16 \<le> m \<and> m < 32 \<and> bit b (m - 16)))
    \<noteq> ((8 \<le> m \<and> m < 32 \<and> bit d (m - 8)) \<noteq> (m < 32 \<and> bit e m)))" for m
    unfolding v_def by (simp only: bit_xor_iff bit_push_bit_iff bit_ucast_iff) auto
  have e: "24 + n - 16 = 8 + n" "24 + n - 8 = 8 + (8 + n)" "24 + n = 8 + (16 + n)"
    "16 + n - 8 = 8 + n" "16 + n = 8 + (8 + n)"
    by simp_all
  show "bit v (24 + n) = bit a n"
    unfolding bits e using n out [of b n] out [of d "8 + n"] out [of e "16 + n"] by simp
  show "bit v (16 + n) = bit b n"
    unfolding bits e using n out [of d "n"] out [of e "8 + n"] by simp
  show "bit v (8 + n) = bit d n"
    unfolding bits using n out [of e n] by simp
  show "bit v n = bit e n"
    unfolding bits using n by simp
qed

lemma extract_byte:
  "(\<And>n. n < 8 \<Longrightarrow> bit v (k + n) = bit a n) \<Longrightarrow> ucast (drop_bit k (v :: u32)) = (a :: u8)"
  by (rule bit_word_eqI) (simp add: bit_ucast_iff bit_drop_bit_eq del: drop_bit_xor)

lemma four_slots:
  fixes a b d e :: u8
  defines "v \<equiv> push_bit 24 (ucast a) XOR push_bit 16 (ucast b) XOR push_bit 8 (ucast d) XOR
    (ucast e :: u32)"
  shows "ucast (drop_bit 24 v) = a" "ucast (drop_bit 16 v) = b"
    "ucast (drop_bit 8 v) = d" "ucast (drop_bit 0 v) = e"
  unfolding v_def
  by (rule extract_byte; simp only: four_slots_bits add_0)+

lemma four_slots_zero:
  assumes "push_bit 24 (ucast a) XOR push_bit 16 (ucast b) XOR push_bit 8 (ucast d) XOR
    (ucast e :: u32) = 0"
  shows "(a :: u8) = 0 \<and> (b :: u8) = 0 \<and> (d :: u8) = 0 \<and> (e :: u8) = 0"
  using four_slots [of a b d e] unfolding assms by simp

lemma mpeg2_slot_next: "k < 3 \<Longrightarrow> msb_adv (mpeg2_slot (Suc k) b) = mpeg2_slot k b"
proof -
  assume k: "k < 3"
  have "\<not> bit (mpeg2_slot (Suc k) b) n" if "24 \<le> n" for n
    using k that unfolding mpeg2_slot_def
    by (auto simp only: bit_push_bit_iff bit_ucast_iff dest: bit_u8_less)
      (auto dest: bit_u8_less)
  then have "msb_adv (mpeg2_slot (Suc k) b) = push_bit 8 (mpeg2_slot (Suc k) b)"
    unfolding msb_adv_def by (intro msb_shift) auto
  also have "\<dots> = mpeg2_slot k b"
    using k by (simp add: mpeg2_slot_def push_bit_push_bit del: push_bit_numeral)
  finally show ?thesis .
qed

lemma tuner_slot_next: "k < 3 \<Longrightarrow> lsb_adv (tuner_slot (Suc k) b) = tuner_slot k b"
proof -
  assume k: "k < 3"
  have "\<not> bit (tuner_slot (Suc k) b) n" if "n < 8" for n
    using that unfolding tuner_slot_def by (simp only: bit_push_bit_iff) simp
  then have "lsb_adv (tuner_slot (Suc k) b) = drop_bit 8 (tuner_slot (Suc k) b)"
    unfolding lsb_adv_def by (intro lsb_shift) auto
  also have "\<dots> = tuner_slot k b"
    using k unfolding tuner_slot_def
    by (intro bit_word_eqI)
      (auto simp only: bit_push_bit_iff bit_drop_bit_eq comp_def bit_ucast_iff
        dest: bit_u8_less; auto dest: bit_u8_less)
  finally show ?thesis .
qed

interpretation mpeg: crc_engine mpeg2_crc_byte msb_adv mpeg2_slot
proof unfold_locales
  fix a b d e
  assume "mpeg2_slot 0 a XOR mpeg2_slot 1 b XOR mpeg2_slot 2 d XOR mpeg2_slot 3 e = 0"
  then show "a = 0 \<and> b = 0 \<and> d = 0 \<and> e = 0"
    by (intro four_slots_zero) (simp add: mpeg2_slot_def)
qed (simp_all add: mpeg2_crc_byte_adv mpeg2_slot_def msb_adv_xor msb_adv_zero push_bit_xor
    unsigned_xor_eq mpeg2_slot_next [unfolded mpeg2_slot_def, simplified])

interpretation tuner: crc_engine tuner_crc_byte lsb_adv tuner_slot
proof unfold_locales
  fix a b d e
  assume "tuner_slot 0 a XOR tuner_slot 1 b XOR tuner_slot 2 d XOR tuner_slot 3 e = 0"
  then have "push_bit 24 (ucast e) XOR push_bit 16 (ucast d) XOR push_bit 8 (ucast b) XOR
    (ucast a :: u32) = 0"
    by (simp add: tuner_slot_def xor.commute xor.left_commute)
  from four_slots_zero [OF this] show "a = 0 \<and> b = 0 \<and> d = 0 \<and> e = 0" by simp
qed (simp_all add: tuner_crc_byte_adv tuner_slot_def lsb_adv_xor lsb_adv_zero push_bit_xor
    unsigned_xor_eq tuner_slot_next [unfolded tuner_slot_def, simplified])

subsection \<open>Equality with the textbook shift register\<close>

text \<open>
  The reference checksum consumes the message bit by bit: the bit shifted out of the
  register, XORed with the message bit, decides whether the polynomial is subtracted.
\<close>

definition msb_bits :: "u8 \<Rightarrow> bool list" where
  "msb_bits b = [bit b 7, bit b 6, bit b 5, bit b 4, bit b 3, bit b 2, bit b 1, bit b 0]"

definition msb_shift_in :: "u32 \<Rightarrow> bool \<Rightarrow> u32" where
  "msb_shift_in c m = push_bit 1 c XOR (if bit c 31 \<noteq> m then 0x04c11db7 else 0)"

definition lsb_bits :: "u8 \<Rightarrow> bool list" where
  "lsb_bits b = rev (msb_bits b)"

definition lsb_shift_in :: "u32 \<Rightarrow> bool \<Rightarrow> u32" where
  "lsb_shift_in c m = drop_bit 1 c XOR (if bit c 0 \<noteq> m then 0xedb88320 else 0)"

lemma msb_shift_in_step:
  "msb_shift_in c m = msb_step c XOR (if m then 0x04c11db7 else 0)"
  by (auto simp: msb_shift_in_def msb_step_def xor.assoc)

lemma lsb_shift_in_step:
  "lsb_shift_in c m = lsb_step c XOR (if m then 0xedb88320 else 0)"
  by (auto simp: lsb_shift_in_def lsb_step_def xor.assoc)

lemma step_select:
  "msb_step (if m then k else 0) = (if m then msb_step k else 0)"
  "lsb_step (if m then k else 0) = (if m then lsb_step k else 0)"
  by (simp_all add: msb_step_def lsb_step_def)

lemma msb_row_chain:
  "msb_step 0x04c11db7 = 0x09823b6e" "msb_step 0x09823b6e = 0x130476dc"
  "msb_step 0x130476dc = 0x2608edb8" "msb_step 0x2608edb8 = 0x4c11db70"
  "msb_step 0x4c11db70 = 0x9823b6e0" "msb_step 0x9823b6e0 = 0x34867077"
  "msb_step 0x34867077 = 0x690ce0ee"
  by code_simp+

lemma lsb_row_chain:
  "lsb_step 0xedb88320 = 0x76dc4190" "lsb_step 0x76dc4190 = 0x3b6e20c8"
  "lsb_step 0x3b6e20c8 = 0x1db71064" "lsb_step 0x1db71064 = 0x0edb8832"
  "lsb_step 0x0edb8832 = 0x076dc419" "lsb_step 0x076dc419 = 0xee0e612c"
  "lsb_step 0xee0e612c = 0x77073096"
  by code_simp+

lemma msb_adv_unroll:
  "msb_adv c = msb_step (msb_step (msb_step (msb_step (msb_step (msb_step (msb_step (msb_step c)))))))"
  by (simp add: msb_adv_def numeral_eq_Suc)

lemma lsb_adv_unroll:
  "lsb_adv c = lsb_step (lsb_step (lsb_step (lsb_step (lsb_step (lsb_step (lsb_step (lsb_step c)))))))"
  by (simp add: lsb_adv_def numeral_eq_Suc)

lemma msb_shift_in_byte: "foldl msb_shift_in c (msb_bits b) = mpeg2_crc_byte c b"
proof -
  have "foldl msb_shift_in c (msb_bits b) = msb_adv c XOR mpeg2_row b"
    unfolding msb_bits_def mpeg2_row_def msb_adv_unroll
    by (simp only: foldl.simps msb_shift_in_step msb_step_xor step_select msb_row_chain)
      (simp only: xor.assoc xor.commute xor.left_commute)
  then show ?thesis
    by (simp add: mpeg2_crc_byte_adv msb_adv_xor msb_adv_byte)
qed

lemma lsb_shift_in_byte: "foldl lsb_shift_in c (lsb_bits b) = tuner_crc_byte c b"
proof -
  have "foldl lsb_shift_in c (lsb_bits b) = lsb_adv c XOR tuner_row b"
    unfolding lsb_bits_def msb_bits_def tuner_row_def lsb_adv_unroll rev.simps append.simps
    by (simp only: foldl.simps lsb_shift_in_step lsb_step_xor step_select lsb_row_chain)
      (simp only: xor.assoc xor.commute xor.left_commute)
  then show ?thesis
    by (simp add: tuner_crc_byte_adv lsb_adv_xor lsb_adv_byte)
qed

lemma foldl_concat_bytes:
  assumes "\<And>c b. foldl f c (g b) = h c b"
  shows "foldl f c (concat (map g bs)) = foldl h c bs"
  by (induction bs arbitrary: c) (simp_all add: assms)

subsection \<open>The properties\<close>

text \<open>C25: \<^verbatim>\<open>mpeg2_crc\<close>, which unrolls eight steps per byte into conditional XORs, computes the
  CRC-32/MPEG-2 of its input: the bit-serial shift register with polynomial 0x04c11db7
  preset to all ones, fed each byte from its most significant bit.\<close>

theorem mpeg2_crc_reference:
  "mpeg2_crc pkt = foldl msb_shift_in (-1) (concat (map msb_bits pkt))"
  by (simp add: mpeg2_crc_def foldl_concat_bytes msb_shift_in_byte)

text \<open>C26: \<^verbatim>\<open>tuner_calc_crc\<close> computes the reflected CRC-32 of its input: the bit-serial
  shift register with polynomial 0xedb88320 preset to all ones, fed each byte from its
  least significant bit, and complemented at the end.\<close>

theorem tuner_calc_crc_reference:
  "tuner_calc_crc pkt = NOT (foldl lsb_shift_in (-1) (concat (map lsb_bits pkt)))"
  by (simp add: tuner_calc_crc_def foldl_concat_bytes lsb_shift_in_byte)

text \<open>The published check values of the two checksums, on the digits 1 to 9.\<close>

lemma mpeg2_crc_check: "mpeg2_crc [0x31,0x32,0x33,0x34,0x35,0x36,0x37,0x38,0x39] = 0x0376e6e7"
  by code_simp

lemma tuner_calc_crc_check:
  "tuner_calc_crc [0x31,0x32,0x33,0x34,0x35,0x36,0x37,0x38,0x39] = 0xcbf43926"
  by code_simp

subsection \<open>Trailers\<close>

lemma join_bytes:
  fixes v :: u32
  shows "push_bit 24 (ucast (ucast (drop_bit 24 v) :: u8)) XOR
    push_bit 16 (ucast (ucast (drop_bit 16 v) :: u8)) XOR
    push_bit 8 (ucast (ucast (drop_bit 8 v) :: u8)) XOR ucast (ucast v :: u8) = v"
    (is "?j = v")
proof (rule bit_word_eqI)
  fix n assume "n < LENGTH(32)"
  then have n: "n < 32" and less: "n - k < 32" for k by simp_all
  have eq: "bit ?j n =
    ((24 \<le> n \<and> n - 24 < 8 \<and> bit v (24 + (n - 24))) \<noteq>
    ((16 \<le> n \<and> n - 16 < 8 \<and> bit v (16 + (n - 16))) \<noteq>
    ((8 \<le> n \<and> n - 8 < 8 \<and> bit v (8 + (n - 8))) \<noteq> (n < 8 \<and> bit v n))))"
    using n
    by (simp only: bit_xor_iff bit_push_bit_iff bit_ucast_iff bit_drop_bit_eq comp_def)
      (simp add: less)
  consider "n < 8" | "8 \<le> n" "n < 16" | "16 \<le> n" "n < 24" | "24 \<le> n" by linarith
  then show "bit ?j n = bit v n"
    unfolding eq using n by cases auto
qed

lemma pack_be32: "mpeg.pack 0 (be32 v) = v"
  using join_bytes [of v]
  by (simp add: be32_def mpeg2_slot_def numeral_2_eq_2 numeral_3_eq_3 xor.assoc)

lemma pack_le32: "tuner.pack 0 (le32 v) = v"
  using join_bytes [of v]
  by (simp add: le32_def tuner_slot_def numeral_2_eq_2 numeral_3_eq_3 xor.assoc xor.commute
      xor.left_commute)

text \<open>A section followed by its own checksum leaves the register clear, and only then.\<close>

lemma mpeg2_crc_append_be32: "mpeg2_crc (bs @ be32 (mpeg2_crc bs)) = 0"
  unfolding mpeg2_crc_def by (rule mpeg.residue) (simp_all add: pack_be32)

lemma mpeg2_crc_zero_iff:
  "length t = 4 \<Longrightarrow> mpeg2_crc (bs @ t) = 0 \<longleftrightarrow> mpeg.pack 0 t = mpeg2_crc bs"
  unfolding mpeg2_crc_def by (rule mpeg.residue_iff)

lemma mpeg2_crc_burst:
  "length e = length e' \<Longrightarrow> length e \<le> 4 \<Longrightarrow> e \<noteq> e' \<Longrightarrow>
   mpeg2_crc (p @ e @ s) \<noteq> mpeg2_crc (p @ e' @ s)"
  unfolding mpeg2_crc_def by (rule mpeg.burst_detected)

lemma tuner_calc_crc_burst:
  "length e = length e' \<Longrightarrow> length e \<le> 4 \<Longrightarrow> e \<noteq> e' \<Longrightarrow>
   tuner_calc_crc (p @ e @ s) \<noteq> tuner_calc_crc (p @ e' @ s)"
  unfolding tuner_calc_crc_def using tuner.burst_detected [of e e'] by simp

end
