(* ===== verification/Sez_World.thy ===== *)
theory Sez_World
  imports Sez_Prelude
begin

text \<open>
  What the program shares with the operating system, and the commands that run against it.

  The system is a parameter of the model: a \<^emph>\<open>script\<close>, the list of the outcomes of the
  system calls in the order the program makes them. A theorem quantifies over every script.
  Each call consumes one event; a call that finds the script at its end, or an event of
  another kind, has no result (\<open>None\<close>): the script is not a run of the program up to
  there. A loop of the program around system calls is a recursion on the script, so it needs
  no fuel, and a loop that never ends is one that returns on no script.

  Next to the script the world keeps what the program did: the trace of the bytes it sent,
  the times it slept, and the writes past the end of a buffer; and the number of heap
  blocks it has allocated and not freed.
\<close>

subsection \<open>System calls and their outcomes\<close>

datatype os_event =
    Ev_write int                 \<comment> \<open>\<^verbatim>\<open>::write\<close>: bytes taken, negative on error\<close>
  | Ev_read "u8 list option"     \<comment> \<open>\<^verbatim>\<open>::read\<close>: the bytes delivered, \<open>None\<close> on error\<close>
  | Ev_fionread "nat option"     \<comment> \<open>\<^verbatim>\<open>ioctl(FIONREAD)\<close>: bytes waiting, \<open>None\<close> on error\<close>
  | Ev_clock int                 \<comment> \<open>\<^verbatim>\<open>gettimeofday\<close>, in microseconds\<close>
  | Ev_select int bool           \<comment> \<open>\<^verbatim>\<open>pselect\<close>: its result, and \<^verbatim>\<open>FD_ISSET\<close> of the socket\<close>
  | Ev_malloc bool               \<comment> \<open>\<^verbatim>\<open>malloc\<close>: whether it returned memory\<close>
  | Ev_socket int                \<comment> \<open>\<^verbatim>\<open>::socket\<close>: the descriptor, negative on error\<close>
  | Ev_connect bool              \<comment> \<open>\<^verbatim>\<open>connect\<close>: whether it succeeded\<close>
  | Ev_ok bool                   \<comment> \<open>a call that succeeds or fails: \<^verbatim>\<open>bind\<close>, \<^verbatim>\<open>setsockopt\<close>, \<^verbatim>\<open>fopen\<close>, ...\<close>
  | Ev_num int                   \<comment> \<open>a call that returns a number: \<^verbatim>\<open>fwrite\<close>, \<^verbatim>\<open>lseek64\<close>, \<^verbatim>\<open>sendto\<close>, ...\<close>
  | Ev_recvfrom "(u32 \<times> u8 list) option"  \<comment> \<open>\<^verbatim>\<open>recvfrom\<close>: sender and bytes, \<open>None\<close> on error\<close>

datatype action =
    Sent "u8 list"               \<comment> \<open>bytes written to the tuner's TCP stream\<close>
  | Slept nat                    \<comment> \<open>\<^verbatim>\<open>usleep\<close>, in microseconds\<close>
  | Overrun nat nat              \<comment> \<open>a buffer of the first size was given the second\<close>
  | Closed int                   \<comment> \<open>\<^verbatim>\<open>::close\<close> of a descriptor\<close>
  | Sent_to u32 u32 "u8 list"    \<comment> \<open>a datagram: address, port and bytes\<close>
  | Dumped "u8 list"             \<comment> \<open>bytes written to the dump file\<close>
  | Dump_closed                  \<comment> \<open>\<^verbatim>\<open>fclose\<close> of the dump file\<close>
  | Progress u32 u32             \<comment> \<open>a call of the scan callback: index and maximum\<close>

text \<open>Why a function of the program returned failure: the message it prints, as a value.\<close>

datatype err =
    Invalid_Arg | Sys_Error | Timed_Out | No_Memory | Bad_Crc | Empty_Read | Short_Read
  | Bad_Reply u8 u8 | Fault nat | Bad_Version | Unsafe_Version nat | Hw_Error u8
  | No_Antenna | Logic_Error | Freq_Range | Write_Fault | Amps_On

record world =
  script :: "os_event list"
  trace :: "action list"
  blocks :: int

subsection \<open>Commands\<close>

text \<open>
  A command runs on a state and either does not return (\<open>None\<close>) or returns an error or a
  value with the new state. An error keeps the state reached when it was raised.
\<close>

type_synonym ('s, 'a) cmd = "'s \<Rightarrow> ((err + 'a) \<times> 's) option"
type_synonym 'a io = "(world, 'a) cmd"

definition ret :: "'a \<Rightarrow> ('s, 'a) cmd" where
  "ret x s = Some (Inr x, s)"

definition fail :: "err \<Rightarrow> ('s, 'a) cmd" where
  "fail e s = Some (Inl e, s)"

text \<open>\<open>tryM m h\<close> runs \<open>m\<close> and hands its outcome to \<open>h\<close>; \<open>bindM\<close> passes errors on.\<close>

definition tryM :: "('s, 'a) cmd \<Rightarrow> (err + 'a \<Rightarrow> ('s, 'b) cmd) \<Rightarrow> ('s, 'b) cmd" where
  "tryM m h s = (case m s of None \<Rightarrow> None | Some (r, s') \<Rightarrow> h r s')"

definition bindM :: "('s, 'a) cmd \<Rightarrow> ('a \<Rightarrow> ('s, 'b) cmd) \<Rightarrow> ('s, 'b) cmd" where
  "bindM m f = tryM m (\<lambda>r. case r of Inl e \<Rightarrow> fail e | Inr x \<Rightarrow> f x)"

definition thenM :: "('s, 'a) cmd \<Rightarrow> ('s, 'b) cmd \<Rightarrow> ('s, 'b) cmd" where
  "thenM m k = bindM m (\<lambda>_. k)"

lemma tryM_eval [io_simps]:
  "m s = None \<Longrightarrow> tryM m h s = None"
  "m s = Some (r, s') \<Longrightarrow> tryM m h s = h r s'"
  by (simp_all add: tryM_def)

lemma bindM_eval [io_simps]:
  "m s = None \<Longrightarrow> bindM m f s = None"
  "m s = Some (Inl e, s') \<Longrightarrow> bindM m f s = Some (Inl e, s')"
  "m s = Some (Inr x, s') \<Longrightarrow> bindM m f s = f x s'"
  by (simp_all add: bindM_def tryM_def fail_def)

lemma ret_eval [io_simps]: "ret x s = Some (Inr x, s)"
  by (simp add: ret_def)

lemma fail_eval [io_simps]: "fail e s = Some (Inl e, s)"
  by (simp add: fail_def)

lemma bindM_Some_iff:
  "bindM m f s = Some (r, s') \<longleftrightarrow>
   (\<exists>e. m s = Some (Inl e, s') \<and> r = Inl e) \<or>
   (\<exists>x s1. m s = Some (Inr x, s1) \<and> f x s1 = Some (r, s'))"
  by (auto simp: bindM_def tryM_def fail_def split: option.splits sum.splits)

lemma bindM_Inr_iff:
  "bindM m f s = Some (Inr y, s') \<longleftrightarrow>
   (\<exists>x s1. m s = Some (Inr x, s1) \<and> f x s1 = Some (Inr y, s'))"
  by (auto simp: bindM_Some_iff)

lemma thenM_Some_iff:
  "thenM m k s = Some (r, s') \<longleftrightarrow>
   (\<exists>e. m s = Some (Inl e, s') \<and> r = Inl e) \<or>
   (\<exists>x s1. m s = Some (Inr x, s1) \<and> k s1 = Some (r, s'))"
  by (simp add: thenM_def bindM_Some_iff)

lemma thenM_Inr_iff:
  "thenM m k s = Some (Inr y, s') \<longleftrightarrow>
   (\<exists>x s1. m s = Some (Inr x, s1) \<and> k s1 = Some (Inr y, s'))"
  by (simp add: thenM_def bindM_Inr_iff)

lemma tryM_Some_iff:
  "tryM m h s = Some (r, s') \<longleftrightarrow> (\<exists>q s1. m s = Some (q, s1) \<and> h q s1 = Some (r, s'))"
  by (auto simp: tryM_def split: option.splits)

lemma ret_Some_iff [simp]: "ret x s = Some (r, s') \<longleftrightarrow> r = Inr x \<and> s' = s"
  by (auto simp: ret_def)

lemma fail_Some_iff [simp]: "fail e s = Some (r, s') \<longleftrightarrow> r = Inl e \<and> s' = s"
  by (auto simp: fail_def)

lemmas cmd_iffs = bindM_Some_iff thenM_Some_iff tryM_Some_iff

subsection \<open>Facts about every outcome of a command\<close>

text \<open>
  \<open>keeps R m\<close>: however \<open>m\<close> returns, the states before and after are related by \<open>R\<close>. For a
  reflexive and transitive \<open>R\<close> this goes through every combinator.
\<close>

definition keeps :: "('s \<Rightarrow> 's \<Rightarrow> bool) \<Rightarrow> ('s, 'a) cmd \<Rightarrow> bool" where
  "keeps R m \<longleftrightarrow> (\<forall>s r s'. m s = Some (r, s') \<longrightarrow> R s s')"

definition keeps_ok :: "('s \<Rightarrow> 's \<Rightarrow> bool) \<Rightarrow> ('s, 'a) cmd \<Rightarrow> bool" where
  "keeps_ok R m \<longleftrightarrow> (\<forall>s x s'. m s = Some (Inr x, s') \<longrightarrow> R s s')"

lemma keepsD: "keeps R m \<Longrightarrow> m s = Some (r, s') \<Longrightarrow> R s s'"
  by (auto simp: keeps_def)

lemma keeps_okD: "keeps_ok R m \<Longrightarrow> m s = Some (Inr x, s') \<Longrightarrow> R s s'"
  by (auto simp: keeps_ok_def)

lemma keeps_imp_ok: "keeps R m \<Longrightarrow> keeps_ok R m"
  by (auto simp: keeps_def keeps_ok_def)

text \<open>\<open>outcome E Q m\<close>: every error of \<open>m\<close> satisfies \<open>E\<close> and every value \<open>Q\<close>.\<close>

definition outcome :: "(err \<Rightarrow> bool) \<Rightarrow> ('a \<Rightarrow> bool) \<Rightarrow> ('s, 'a) cmd \<Rightarrow> bool" where
  "outcome E Q m \<longleftrightarrow>
    (\<forall>s e s'. m s = Some (Inl e, s') \<longrightarrow> E e) \<and> (\<forall>s x s'. m s = Some (Inr x, s') \<longrightarrow> Q x)"

lemma outcomeD: "outcome E Q m \<Longrightarrow> m s = Some (Inl e, s') \<Longrightarrow> E e"
  "outcome E Q m \<Longrightarrow> m s = Some (Inr x, s') \<Longrightarrow> Q x"
  unfolding outcome_def by blast+

lemma outcome_ret: "Q x \<Longrightarrow> outcome E Q (ret x)"
  by (simp add: outcome_def)

lemma outcome_fail: "E e \<Longrightarrow> outcome E Q (fail e)"
  by (simp add: outcome_def)

lemma outcome_try:
  assumes "outcome E Q m" and "\<And>e. E e \<Longrightarrow> outcome E' Q' (h (Inl e))"
    and "\<And>x. Q x \<Longrightarrow> outcome E' Q' (h (Inr x))"
  shows "outcome E' Q' (tryM m h)"
proof -
  have "outcome E' Q' (h q)" if "m s = Some (q, s')" for s q s'
    using that assms by (cases q) (blast dest: outcomeD)+
  then show ?thesis unfolding outcome_def tryM_Some_iff by blast
qed

lemma outcome_bind:
  "outcome E Q m \<Longrightarrow> (\<And>x. Q x \<Longrightarrow> outcome E Q' (f x)) \<Longrightarrow> outcome E Q' (bindM m f)"
  unfolding bindM_def by (rule outcome_try [where E = E and Q = Q]) (simp_all add: outcome_fail)

lemma outcome_then:
  "outcome E Q m \<Longrightarrow> outcome E Q' k \<Longrightarrow> outcome E Q' (thenM m k)"
  unfolding thenM_def by (rule outcome_bind)

lemma outcome_if:
  "(p \<Longrightarrow> outcome E Q m) \<Longrightarrow> (\<not> p \<Longrightarrow> outcome E Q k) \<Longrightarrow> outcome E Q (if p then m else k)"
  by simp

lemmas outcome_intros = outcome_ret outcome_fail outcome_bind outcome_then outcome_if

locale state_order =
  fixes R :: "'s \<Rightarrow> 's \<Rightarrow> bool"
  assumes refl: "R s s"
    and trans: "R s t \<Longrightarrow> R t u \<Longrightarrow> R s u"
begin

lemma ret: "keeps R (ret x)"
  by (simp add: keeps_def refl)

lemma fail: "keeps R (fail e)"
  by (simp add: keeps_def refl)

lemma tryI: "keeps R m \<Longrightarrow> (\<And>r. keeps R (h r)) \<Longrightarrow> keeps R (tryM m h)"
  unfolding keeps_def tryM_Some_iff by (blast intro: trans)

lemma bindI: "keeps R m \<Longrightarrow> (\<And>x. keeps R (f x)) \<Longrightarrow> keeps R (bindM m f)"
  unfolding bindM_def by (intro tryI) (auto split: sum.splits intro: fail)

lemma thenI: "keeps R m \<Longrightarrow> keeps R k \<Longrightarrow> keeps R (thenM m k)"
  unfolding thenM_def by (rule bindI)

lemma ifI: "keeps R m \<Longrightarrow> keeps R k \<Longrightarrow> keeps R (if p then m else k)"
  by simp

lemma ok_ret: "keeps_ok R (ret x)"
  by (simp add: keeps_ok_def refl)

lemma ok_fail: "keeps_ok R (fail e)"
  by (simp add: keeps_ok_def)

lemma ok_bind: "keeps_ok R m \<Longrightarrow> (\<And>x. keeps_ok R (f x)) \<Longrightarrow> keeps_ok R (bindM m f)"
  unfolding keeps_ok_def bindM_Inr_iff by (blast intro: trans)

lemma ok_then: "keeps_ok R m \<Longrightarrow> keeps_ok R k \<Longrightarrow> keeps_ok R (thenM m k)"
  unfolding thenM_def by (rule ok_bind)

lemma ok_if: "keeps_ok R m \<Longrightarrow> keeps_ok R k \<Longrightarrow> keeps_ok R (if p then m else k)"
  by simp

lemmas keeps_intros = ret fail bindI thenI ifI
lemmas ok_intros = ok_ret ok_fail ok_bind ok_then ok_if

end

subsection \<open>One system call\<close>

text \<open>Record an action of the program.\<close>

definition emit :: "action \<Rightarrow> world \<Rightarrow> world" where
  "emit a w = w\<lparr>trace := trace w @ [a]\<rparr>"

definition usleep :: "nat \<Rightarrow> unit io" where
  "usleep us w = Some (Inr (), emit (Slept us) w)"

text \<open>\<open>malloc\<close> takes its outcome from the script and counts the block; the continuation
  sees whether memory was returned. \<open>free_block\<close> is \<^verbatim>\<open>free\<close> of a block it returned.\<close>

definition malloc :: "bool io" where
  "malloc w = (case script w of
     Ev_malloc ok # es \<Rightarrow>
       Some (Inr ok, w\<lparr>script := es, blocks := blocks w + (if ok then 1 else 0)\<rparr>)
   | _ \<Rightarrow> None)"

definition free_block :: "unit io" where
  "free_block w = Some (Inr (), w\<lparr>blocks := blocks w - 1\<rparr>)"

definition gettimeofday :: "int io" where
  "gettimeofday w = (case script w of
     Ev_clock t # es \<Rightarrow> Some (Inr t, w\<lparr>script := es\<rparr>) | _ \<Rightarrow> None)"

definition ask_ok :: "bool io" where
  "ask_ok w = (case script w of Ev_ok b # es \<Rightarrow> Some (Inr b, w\<lparr>script := es\<rparr>) | _ \<Rightarrow> None)"

definition ask_num :: "int io" where
  "ask_num w = (case script w of Ev_num n # es \<Rightarrow> Some (Inr n, w\<lparr>script := es\<rparr>) | _ \<Rightarrow> None)"

definition recvfrom :: "(u32 \<times> u8 list) option io" where
  "recvfrom w = (case script w of
     Ev_recvfrom r # es \<Rightarrow> Some (Inr r, w\<lparr>script := es\<rparr>) | _ \<Rightarrow> None)"

text \<open>Put an action on the trace.\<close>

definition act :: "action \<Rightarrow> unit io" where
  "act a w = Some (Inr (), emit a w)"

text \<open>A C function stores \<open>n\<close> bytes into a buffer of \<open>cap\<close> bytes.\<close>

definition note_store :: "nat \<Rightarrow> nat \<Rightarrow> unit io" where
  "note_store cap n w = Some (Inr (), if cap < n then emit (Overrun cap n) w else w)"

lemma emit_simps [simp]:
  "script (emit a w) = script w" "trace (emit a w) = trace w @ [a]" "blocks (emit a w) = blocks w"
  by (simp_all add: emit_def)

subsection \<open>The trace only grows, the script is only consumed\<close>

definition extends :: "world \<Rightarrow> world \<Rightarrow> bool" where
  "extends w w' \<longleftrightarrow> (\<exists>as. trace w' = trace w @ as) \<and> (\<exists>es. script w = es @ script w')"

lemma extends_refl: "extends w w"
  by (simp add: extends_def)

lemma extends_trans: "extends w w' \<Longrightarrow> extends w' w'' \<Longrightarrow> extends w w''"
  unfolding extends_def by (metis append.assoc)

interpretation ext: state_order extends
  by unfold_locales (rule extends_refl, rule extends_trans)

definition same_blocks :: "world \<Rightarrow> world \<Rightarrow> bool" where
  "same_blocks w w' \<longleftrightarrow> blocks w' = blocks w"

interpretation heap: state_order same_blocks
  by unfold_locales (simp_all add: same_blocks_def)

lemma keeps_extends_calls:
  "keeps extends (usleep n)" "keeps extends malloc" "keeps extends free_block"
  "keeps extends gettimeofday" "keeps extends (note_store cap m)"
  "keeps extends ask_ok" "keeps extends ask_num" "keeps extends recvfrom" "keeps extends (act a)"
  by (auto simp: ask_ok_def ask_num_def recvfrom_def act_def keeps_def extends_def usleep_def malloc_def free_block_def gettimeofday_def
      note_store_def split: list.splits os_event.splits)

subsection \<open>Loops around system calls\<close>

text \<open>
  \<open>loopM world m\<close> repeats \<open>m\<close> until it returns a value; \<open>world\<close> finds the world in the state.
  A round that makes no system call would repeat itself for ever: it has no result.
\<close>

function loopM :: "('s \<Rightarrow> world) \<Rightarrow> ('s, 'a option) cmd \<Rightarrow> ('s, 'a) cmd" where
  "loopM world m s = (case m s of
     None \<Rightarrow> None
   | Some (Inl e, s') \<Rightarrow> Some (Inl e, s')
   | Some (Inr (Some x), s') \<Rightarrow> Some (Inr x, s')
   | Some (Inr None, s') \<Rightarrow>
       if length (script (world s')) < length (script (world s)) then loopM world m s' else None)"
  by pat_completeness auto
termination
  by (relation "measure (\<lambda>(world, m, s). length (script (world s)))") auto

declare loopM.simps [simp del]

lemma loopM_eval [io_simps]:
  "m s = Some (Inl e, s') \<Longrightarrow> loopM world m s = Some (Inl e, s')"
  "m s = Some (Inr (Some x), s') \<Longrightarrow> loopM world m s = Some (Inr x, s')"
  "m s = Some (Inr None, s') \<Longrightarrow> length (script (world s')) < length (script (world s)) \<Longrightarrow>
    loopM world m s = loopM world m s'"
  by (simp_all add: loopM.simps [of world m s])

lemma loopM_inv:
  assumes "loopM world m s = Some (r, s')" and "P s"
    and "\<And>s1 s2. P s1 \<Longrightarrow> m s1 = Some (Inr None, s2) \<Longrightarrow> P s2"
  shows "\<exists>s1 q. P s1 \<and> m s1 = Some (q, s') \<and>
    ((\<exists>e. q = Inl e \<and> r = Inl e) \<or> (\<exists>x. q = Inr (Some x) \<and> r = Inr x))"
  using assms
proof (induction world m s rule: loopM.induct)
  case (1 world m s)
  show ?case
  proof (cases "\<exists>s1. m s = Some (Inr None, s1)")
    case True
    then obtain s1 where m: "m s = Some (Inr None, s1)" by blast
    with "1.prems"(1) have l: "length (script (world s1)) < length (script (world s))"
      and run: "loopM world m s1 = Some (r, s')"
      by (simp_all add: loopM.simps [of world m s] split: if_splits)
    from "1.prems"(3) [OF "1.prems"(2) m] have "P s1" .
    from "1.IH" [OF m refl refl refl l run this "1.prems"(3)] show ?thesis .
  next
    case False
    with "1.prems"(1,2) show ?thesis
      by (force simp: loopM.simps [of world m s] split: option.splits sum.splits if_splits)
  qed
qed

context state_order
begin

lemma loopI: "keeps R m \<Longrightarrow> keeps R (loopM world m)"
proof -
  assume "keeps R m"
  then have "R s s'" if "loopM world m s = Some (r, s')" for s r s'
    using loopM_inv [OF that, of "R s"] \<open>keeps R m\<close> by (blast intro: trans refl dest: keepsD)
  then show ?thesis by (simp add: keeps_def)
qed

lemma ok_loop: "keeps_ok R m \<Longrightarrow> keeps_ok R (loopM world m)"
proof -
  assume "keeps_ok R m"
  then have "R s s'" if "loopM world m s = Some (Inr x, s')" for s x s'
    using loopM_inv [OF that, of "R s"] \<open>keeps_ok R m\<close> by (blast intro: trans refl dest: keeps_okD)
  then show ?thesis by (simp add: keeps_ok_def)
qed

end

subsection \<open>Scripted runs\<close>

text \<open>
  \<open>runs m evs x\<close>: on a script that starts with \<open>evs\<close>, \<open>m\<close> returns \<open>x\<close> and consumes just \<open>evs\<close>;
  the blocks it allocated are freed. Scripts of concrete runs are put together with it.
\<close>

definition runs :: "'a io \<Rightarrow> os_event list \<Rightarrow> 'a \<Rightarrow> bool" where
  "runs m evs x \<longleftrightarrow> (\<forall>w es. script w = evs @ es \<longrightarrow>
     (\<exists>tr. m w = Some (Inr x, w\<lparr>script := es, trace := trace w @ tr\<rparr>)))"

lemma runsI:
  "(\<And>w es. script w = evs @ es \<Longrightarrow>
     m w = Some (Inr x, w\<lparr>script := es, trace := trace w @ f w\<rparr>)) \<Longrightarrow> runs m evs x"
  unfolding runs_def by blast

lemma runsE:
  fixes w :: world
  assumes "runs m evs x" and "script w = evs @ es"
  obtains tr where "m w = Some (Inr x, w\<lparr>script := es, trace := trace w @ tr\<rparr>)"
  using assms unfolding runs_def by blast

lemma runs_ret: "runs (ret x) [] x"
  by (rule runsI [where f = "\<lambda>_. []"]) (simp add: ret_def)

lemma runs_bind:
  assumes "runs m e1 x" and "runs (f x) e2 y"
  shows "runs (bindM m f) (e1 @ e2) y"
  unfolding runs_def
proof (intro allI impI)
  fix w :: world and es assume "script w = (e1 @ e2) @ es"
  then have "script w = e1 @ e2 @ es" by simp
  with assms(1) obtain t1 where 1: "m w = Some (Inr x, w\<lparr>script := e2 @ es, trace := trace w @ t1\<rparr>)"
    by (rule runsE)
  from assms(2) obtain t2 where "f x (w\<lparr>script := e2 @ es, trace := trace w @ t1\<rparr>) =
      Some (Inr y, w\<lparr>script := es, trace := (trace w @ t1) @ t2\<rparr>)"
    by (rule runsE [where w = "w\<lparr>script := e2 @ es, trace := trace w @ t1\<rparr>"]) simp_all
  with 1 show "\<exists>tr. bindM m f w = Some (Inr y, w\<lparr>script := es, trace := trace w @ tr\<rparr>)"
    by (auto simp: io_simps)
qed

lemma runs_then: "runs m e1 x \<Longrightarrow> runs k e2 y \<Longrightarrow> runs (thenM m k) (e1 @ e2) y"
  unfolding thenM_def by (rule runs_bind)

lemma runs_usleep: "runs (usleep n) [] ()"
  by (rule runsI [where f = "\<lambda>_. [Slept n]"]) (simp add: usleep_def emit_def)

subsection \<open>Runs to the end\<close>

text \<open>\<open>m\<close> returns \<open>x\<close> in a state with \<open>P\<close>, and the rest of the script is \<open>es\<close>.\<close>

definition finishes :: "('s \<Rightarrow> world) \<Rightarrow> ('s, 'a) cmd \<Rightarrow> 's \<Rightarrow> 'a \<Rightarrow> ('s \<Rightarrow> bool) \<Rightarrow> os_event list \<Rightarrow> bool" where
  "finishes wd m s x P es \<longleftrightarrow> (\<exists>s'. m s = Some (Inr x, s') \<and> P s' \<and> script (wd s') = es)"

lemma finishesI: "m s = Some (Inr x, s') \<Longrightarrow> P s' \<Longrightarrow> script (wd s') = es \<Longrightarrow> finishes wd m s x P es"
  by (auto simp: finishes_def)

lemma finishes_ret: "P s \<Longrightarrow> script (wd s) = es \<Longrightarrow> finishes wd (ret x) s x P es"
  by (auto simp: finishes_def)

lemma finishes_bind:
  assumes "finishes wd m s x P es" and "\<And>s'. P s' \<Longrightarrow> script (wd s') = es \<Longrightarrow> finishes wd (f x) s' y Q es'"
  shows "finishes wd (bindM m f) s y Q es'"
  using assms unfolding finishes_def by (auto simp: bindM_Inr_iff)

lemma finishes_then:
  "finishes wd m s x P es \<Longrightarrow> (\<And>s'. P s' \<Longrightarrow> script (wd s') = es \<Longrightarrow> finishes wd k s' y Q es') \<Longrightarrow>
   finishes wd (thenM m k) s y Q es'"
  unfolding thenM_def by (rule finishes_bind)

lemma finishes_try:
  assumes "finishes wd m s x P es" and "\<And>s'. P s' \<Longrightarrow> script (wd s') = es \<Longrightarrow> finishes wd (h (Inr x)) s' y Q es'"
  shows "finishes wd (tryM m h) s y Q es'"
  using assms unfolding finishes_def by (auto simp: tryM_Some_iff)

lemma finishes_post: "finishes wd m s x P es \<Longrightarrow> (\<And>s'. P s' \<Longrightarrow> Q s') \<Longrightarrow> finishes wd m s x Q es"
  by (auto simp: finishes_def)

end
