(* ===== verification/Sez_Psi.thy ===== *)
theory Sez_Psi
  imports Sez_Crc Sez_World
begin

text \<open>
  The tables of \<^verbatim>\<open>mpgatsc.cpp\<close>: the state of the class \<^verbatim>\<open>mpgatsc\<close>, and the parsers of a complete
  section: \<^verbatim>\<open>mpg_parse_hdr\<close>, \<^verbatim>\<open>atsc_parse_hdr\<close>, \<^verbatim>\<open>parse_mgt\<close>, \<^verbatim>\<open>parse_vct\<close>,
  \<^verbatim>\<open>parse_descriptors\<close> and \<^verbatim>\<open>parse_tbl\<close>. A section stands at the start of its PID's buffer. A read
  past that buffer is no result (\<open>None\<close>); reads behind the section but inside the buffer
  see what earlier sections left there.
\<close>

subsection \<open>State\<close>

record mpgatsc =
  pktlist :: "u32 \<Rightarrow> u8 list option"
  pktlen :: "u32 \<Rightarrow> nat"
  pat_curver :: u32
  pat_tsid :: u32
  pmt_pid :: u32
  pmt_curver :: u32
  pcr_pid :: u32
  mgt_curver :: u32
  vct_curver :: u32
  pat_use :: u32
  pat_max :: u32
  pat :: "u32 list option"
  iconv_hnd :: int
  vctstr :: "string option"
  dumpfilename :: string
  dumpfile :: bool
  tv_ch :: u32
  env :: world

type_synonym 'a atsc_cmd = "(mpgatsc, 'a) cmd"

definition new_mpgatsc :: "world \<Rightarrow> mpgatsc" where
  "new_mpgatsc w =
    \<lparr>pktlist = (\<lambda>_. None), pktlen = (\<lambda>_. 0), pat_curver = 32, pat_tsid = 0, pmt_pid = 0,
     pmt_curver = 32, pcr_pid = 0, mgt_curver = 32, vct_curver = 32, pat_use = 0, pat_max = 0,
     pat = None, iconv_hnd = 0, vctstr = None, dumpfilename = [], dumpfile = False,
     tv_ch = 0, env = w\<rparr>"

text \<open>Run a system call, use a checked read, update a field.\<close>

definition call :: "'a io \<Rightarrow> 'a atsc_cmd" where
  "call m s = (case m (env s) of None \<Rightarrow> None | Some (r, w) \<Rightarrow> Some (r, s\<lparr>env := w\<rparr>))"

definition need :: "'a option \<Rightarrow> 'a atsc_cmd" where
  "need r s = (case r of None \<Rightarrow> None | Some x \<Rightarrow> Some (Inr x, s))"

definition look :: "(mpgatsc \<Rightarrow> 'a) \<Rightarrow> 'a atsc_cmd" where
  "look f s = Some (Inr (f s), s)"

definition put :: "(mpgatsc \<Rightarrow> mpgatsc) \<Rightarrow> unit atsc_cmd" where
  "put f s = Some (Inr (), f s)"

lemma put_eval [io_simps]: "put f s = Some (Inr (), f s)"
  by (simp add: put_def)

lemma look_eval [io_simps]: "look f s = Some (Inr (f s), s)"
  by (simp add: look_def)

lemma need_eval [io_simps]: "need None s = None" "need (Some x) s = Some (Inr x, s)"
  by (simp_all add: need_def)

lemma put_iff [simp]: "put f s = Some (r, s') \<longleftrightarrow> r = Inr () \<and> s' = f s"
  by (auto simp: put_def)

lemma look_iff [simp]: "look f s = Some (r, s') \<longleftrightarrow> r = Inr (f s) \<and> s' = s"
  by (auto simp: look_def)

lemma need_iff [simp]: "need v s = Some (r, s') \<longleftrightarrow> (\<exists>x. v = Some x \<and> r = Inr x) \<and> s' = s"
  by (auto simp: need_def split: option.splits)

lemma call_malloc_iff [simp]:
  "call malloc s = Some (r, s') \<longleftrightarrow> (\<exists>ok es. script (env s) = Ev_malloc ok # es \<and> r = Inr ok \<and>
     s' = s\<lparr>env := (env s)\<lparr>script := es, blocks := blocks (env s) + (if ok then 1 else 0)\<rparr>\<rparr>)"
  by (auto simp: call_def malloc_def split: list.splits os_event.splits option.splits)

lemma call_free_iff [simp]:
  "call free_block s = Some (r, s') \<longleftrightarrow> r = Inr () \<and>
     s' = s\<lparr>env := (env s)\<lparr>blocks := blocks (env s) - 1\<rparr>\<rparr>"
  by (auto simp: call_def free_block_def)

subsection \<open>Section headers\<close>

definition rd32 :: "u8 list \<Rightarrow> nat \<Rightarrow> u32 option" where
  "rd32 buf i = do { a \<leftarrow> rd buf i; b \<leftarrow> rd buf (i + 1); c \<leftarrow> rd buf (i + 2); d \<leftarrow> rd buf (i + 3);
     Some (push_bit 24 (ucast a) + push_bit 16 (ucast b) + push_bit 8 (ucast c) + ucast d) }"

text \<open>\<open>n\<close> bytes from \<open>i\<close> on.\<close>

definition rd_slice :: "u8 list \<Rightarrow> nat \<Rightarrow> nat \<Rightarrow> u8 list option" where
  "rd_slice buf i n = (if i + n \<le> length buf then Some (take n (drop i buf)) else None)"

text \<open>The version field of a long header as the code extracts it.\<close>

definition rx_version :: "u8 \<Rightarrow> u32" where
  "rx_version b = ucast (drop_bit 1 (b AND 0x2f))"

text \<open>
  The result of the header parsers: whether they return 1, and what they store through
  \<^verbatim>\<open>pos_ptr\<close>, \<^verbatim>\<open>id\<close> and \<^verbatim>\<open>ver\<close>.
\<close>

record hdr =
  bad :: bool
  hpos :: nat
  hid :: u32
  hver :: u32

definition long_hdr :: "u8 list \<Rightarrow> nat \<Rightarrow> nat \<Rightarrow> u32 \<Rightarrow> hdr option" where
  "long_hdr pkt len pos ver = do {
     id \<leftarrow> rd16 pkt pos;
     v \<leftarrow> rd pkt (pos + 2);
     if v AND 1 = 0 then Some \<lparr>bad = True, hpos = 0, hid = id, hver = ver\<rparr>
     else if ver \<noteq> 32 \<and> rx_version v = ver
     then Some \<lparr>bad = True, hpos = 0, hid = id, hver = ver\<rparr>
     else if ver \<noteq> 32 \<and> rx_version v \<noteq> (ver + 1) AND 0x1f
     then Some \<lparr>bad = True, hpos = pos, hid = id, hver = ver\<rparr>
     else do {
       last_section \<leftarrow> rd pkt (pos + 4);
       if last_section \<noteq> 0 then Some \<lparr>bad = True, hpos = pos, hid = id, hver = rx_version v\<rparr>
       else do {
         section \<leftarrow> rd pkt (pos + 3);
         if section \<noteq> 0 \<or> pos + 5 > len
         then Some \<lparr>bad = True, hpos = pos, hid = id, hver = rx_version v\<rparr>
         else Some \<lparr>bad = False, hpos = pos + 5, hid = id, hver = rx_version v\<rparr>
       }
     }
   }"

definition mpg_parse_hdr :: "u8 list \<Rightarrow> nat \<Rightarrow> nat \<Rightarrow> u32 \<Rightarrow> u32 \<Rightarrow> u8 \<Rightarrow> hdr option" where
  "mpg_parse_hdr pkt len pos id0 ver tblid = do {
     b \<leftarrow> rd pkt pos;
     if b \<noteq> tblid \<or> len < 4 then Some \<lparr>bad = True, hpos = pos, hid = id0, hver = ver\<rparr>
     else do {
       crc \<leftarrow> rd32 pkt (pos + len - 4);
       body \<leftarrow> rd_slice pkt pos (len - 4);
       if crc \<noteq> mpeg2_crc body then Some \<lparr>bad = True, hpos = pos, hid = id0, hver = ver\<rparr>
       else do {
         syntax \<leftarrow> rd pkt (pos + 1);
         h \<leftarrow> (if syntax AND 0x80 \<noteq> 0 then long_hdr pkt len (pos + 3) ver
              else Some \<lparr>bad = False, hpos = pos + 3, hid = id0, hver = ver\<rparr>);
         Some (if \<not> bad h \<and> hpos h + 4 > len then h\<lparr>bad := True\<rparr> else h)
       }
     }
   }"

definition atsc_parse_hdr :: "u8 list \<Rightarrow> nat \<Rightarrow> nat \<Rightarrow> u32 \<Rightarrow> hdr option" where
  "atsc_parse_hdr pkt len pos ver = do {
     t \<leftarrow> rd pkt pos;
     h \<leftarrow> mpg_parse_hdr pkt len pos 0 ver t;
     if bad h then Some h
     else do {
       protocol \<leftarrow> rd pkt (hpos h);
       Some (if protocol \<noteq> 0 then h\<lparr>bad := True\<rparr> else h\<lparr>hpos := hpos h + 1\<rparr>)
     }
   }"

subsection \<open>Descriptors\<close>

text \<open>The loop over the descriptors; \<^verbatim>\<open>len\<close> is unsigned and wraps. The value is what is left of it.\<close>

function parse_descriptors :: "u8 list \<Rightarrow> nat \<Rightarrow> u32 \<Rightarrow> u32 option" where
  "parse_descriptors pkt pos len =
    (if len < 2 then Some len
     else case rd pkt pos of None \<Rightarrow> None
     | Some type \<Rightarrow> (case rd pkt (pos + 1) of None \<Rightarrow> None
       | Some dlen \<Rightarrow> parse_descriptors pkt (pos + 2 + unat dlen) (len - 2 - ucast dlen)))"
  by pat_completeness auto
termination
  by (relation "measure (\<lambda>(pkt, pos, len). length pkt - pos)") (auto simp: rd_Some_iff)

declare parse_descriptors.simps [simp del]

subsection \<open>Master guide table\<close>

text \<open>Which entries are reported as unknown, \<^verbatim>\<open>switch (tbltype >> 7)\<close>.\<close>

definition mgt_unknown :: "u32 \<Rightarrow> u32 \<Rightarrow> bool" where
  "mgt_unknown tbltype tblpid =
    (let k = drop_bit 7 tbltype in
     if k = 0 then (if tbltype < 4 then tblpid \<noteq> 0x1ffb else \<not> tbltype < 6)
     else \<not> (k = 2 \<or> k = 4 \<or> k = 6 \<or> k = 7))"

text \<open>The value: whether \<^verbatim>\<open>parse_mgt\<close> returns 1, and the entries it reports.\<close>

fun mgt_loop :: "u8 list \<Rightarrow> nat \<Rightarrow> nat \<Rightarrow> nat \<Rightarrow> (bool \<times> (u32 \<times> u32) list) option" where
  "mgt_loop pkt len 0 pos = Some (False, [])"
| "mgt_loop pkt len (Suc n) pos = do {
     tbltype \<leftarrow> rd16 pkt pos;
     p \<leftarrow> rd16 pkt (pos + 2);
     ver \<leftarrow> rd pkt (pos + 4);
     tbllen \<leftarrow> rd pkt (pos + 5);
     dl \<leftarrow> rd16 pkt (pos + 9);
     let tblpid = p AND 0x1fff;
     let pos = pos + 11 + unat (dl AND 0xfff);
     let out = (if mgt_unknown tbltype tblpid then [(tbltype, tblpid)] else []);
     if pos \<ge> len then Some (True, out)
     else do { (r, rest) \<leftarrow> mgt_loop pkt len n pos; Some (r, out @ rest) }
   }"

definition parse_mgt :: "u8 list \<Rightarrow> nat \<Rightarrow> nat \<Rightarrow> (bool \<times> (u32 \<times> u32) list) option" where
  "parse_mgt pkt len pos = do { count \<leftarrow> rd16 pkt pos; mgt_loop pkt len (unat count) (pos + 2) }"

subsection \<open>Virtual channel tables\<close>

text \<open>The conversions of \<^verbatim>\<open>snprintf\<close> that the code uses.\<close>

fun dec :: "nat \<Rightarrow> string" where
  "dec n = (if n < 10 then [char_of (48 + n)] else dec (n div 10) @ [char_of (48 + n mod 10)])"

declare dec.simps [simp del]

definition hex_digit :: "nat \<Rightarrow> char" where
  "hex_digit d = (if d < 10 then char_of (48 + d) else char_of (87 + d))"

definition hex2 :: "u8 \<Rightarrow> string" where
  "hex2 b = (if b < 16 then [hex_digit (unat b)]
     else [hex_digit (unat b div 16), hex_digit (unat b mod 16)])"

definition pad2 :: "string \<Rightarrow> string" where
  "pad2 s = (if length s < 2 then replicate (2 - length s) CHR 0x20 @ s else s)"

definition modulation_str :: "u8 \<Rightarrow> string" where
  "modulation_str m =
    (if m = 0 then ''bad:0'' else if m = 1 then ''analog'' else if m = 2 then ''scte1''
     else if m = 3 then ''scte2'' else if m = 4 then [] else if m = 5 then ''16vsb''
     else if m < 0x80 then ''bad:'' @ dec (unat m)
     else ''user:'' @ hex2 m)"

text \<open>
  The C string \<^verbatim>\<open>shortname_ascii\<close> after \<^verbatim>\<open>iconv\<close> reported success or not and wrote \<open>out\<close>: it ends
  at the first zero character, and \<^verbatim>\<open>err\<close> is appended when \<^verbatim>\<open>dstlen < 60\<close>.
\<close>

definition shortname_ascii :: "bool \<times> string \<Rightarrow> string" where
  "shortname_ascii r = (case r of (ok, out) \<Rightarrow>
     takeWhile (\<lambda>c. c \<noteq> CHR 0x00) out @ (if \<not> ok \<and> 63 - length out < 60 then ''err'' else []))"

text \<open>One line of \<^verbatim>\<open>vctstr\<close>; \<^verbatim>\<open>vline\<close> has 256 bytes.\<close>

definition vct_line :: "u32 \<Rightarrow> u32 \<Rightarrow> u8 \<Rightarrow> string \<Rightarrow> string" where
  "vct_line tvch ch_no modulation name =
    (let m = modulation_str modulation in
     take 255 (CHR 0x20 # pad2 (dec (unat tvch)) @ [CHR 0x20, CHR 0x20] @
       dec (unat (drop_bit 10 ch_no)) @ CHR 0x2E # dec (unat (ch_no AND 1023)) @
       (if m \<noteq> [] then [CHR 0x20] else []) @ m @ [CHR 0x20, CHR 0x22] @ name @ [CHR 0x22]) @
     [CHR 0x0A])"

fun rd16s :: "u8 list \<Rightarrow> nat \<Rightarrow> nat \<Rightarrow> u32 list option" where
  "rd16s pkt pos 0 = Some []"
| "rd16s pkt pos (Suc n) = do { a \<leftarrow> rd16 pkt pos; as \<leftarrow> rd16s pkt (pos + 2) n; Some (a # as) }"

text \<open>
  The loop of \<^verbatim>\<open>parse_vct\<close>; \<open>iconv\<close> stands for the conversion from UTF-16 to ASCII, its outcome
  and its output. The value is the text in \<^verbatim>\<open>vctstr\<close>.
\<close>

fun vct_loop :: "(u32 list \<Rightarrow> bool \<times> string) \<Rightarrow> u32 \<Rightarrow> nat \<Rightarrow> u8 list \<Rightarrow> nat \<Rightarrow> nat \<Rightarrow> nat \<Rightarrow> string \<Rightarrow>
  string option" where
  "vct_loop iconv tvch snl pkt len 0 pos str = Some str"
| "vct_loop iconv tvch snl pkt len (Suc n) pos str = do {
     shortname \<leftarrow> rd16s pkt pos snl;
     let pos = pos + snl * 2;
     c0 \<leftarrow> rd pkt pos; c1 \<leftarrow> rd pkt (pos + 1); c2 \<leftarrow> rd pkt (pos + 2);
     let ch_no = (push_bit 16 (ucast c0) + push_bit 8 (ucast c1) + ucast c2) AND 0xfffff;
     modulation \<leftarrow> rd pkt (pos + 3);
     carrier \<leftarrow> rd pkt (pos + 4);
     tsid \<leftarrow> rd16 pkt (pos + 8);
     prog \<leftarrow> rd16 pkt (pos + 10);
     flags \<leftarrow> rd16 pkt (pos + 12);
     src_id \<leftarrow> rd16 pkt (pos + 14);
     let str = str @ vct_line tvch ch_no modulation (shortname_ascii (iconv shortname));
     dl \<leftarrow> rd16 pkt (pos + 16);
     let tbldesclen = dl AND 0x3ff;
     let pos = pos + 18;
     rest \<leftarrow> parse_descriptors pkt pos tbldesclen;
     let pos = pos + unat tbldesclen;
     if pos > len then Some str else vct_loop iconv tvch snl pkt len n pos str
   }"

definition parse_vct :: "(u32 list \<Rightarrow> bool \<times> string) \<Rightarrow> u8 list \<Rightarrow> nat \<Rightarrow> nat \<Rightarrow> nat \<Rightarrow> bool atsc_cmd" where
  "parse_vct iconv pkt len pos snl =
    bindM (look vctstr) (\<lambda>v.
    bindM (if v = None then call malloc else ret True) (\<lambda>ok.
    if \<not> ok then ret True
    else
      bindM (look tv_ch) (\<lambda>tvch.
      thenM (put (\<lambda>s. s\<lparr>vctstr := Some []\<rparr>))
      (bindM (need (rd pkt pos)) (\<lambda>count.
      bindM (need (vct_loop iconv tvch snl pkt len (unat count) (pos + 1) [])) (\<lambda>str.
      thenM (put (\<lambda>s. s\<lparr>vctstr := Some str\<rparr>)) (ret False)))))))"

subsection \<open>Dispatch\<close>

text \<open>The entries of a program association table: program numbers and PIDs.\<close>

fun pat_entries :: "u8 list \<Rightarrow> nat \<Rightarrow> nat \<Rightarrow> (u32 \<times> u32) list option" where
  "pat_entries pkt pos 0 = Some []"
| "pat_entries pkt pos (Suc n) = do {
     prog \<leftarrow> rd16 pkt pos;
     child \<leftarrow> rd16 pkt (pos + 2);
     rest \<leftarrow> pat_entries pkt (pos + 4) n;
     Some ((prog, child AND 0x1fff) # rest)
   }"

text \<open>What the first loop makes of them: the largest program number and the PMT's PID.\<close>

definition pat_limit :: "(u32 \<times> u32) list \<Rightarrow> u32" where
  "pat_limit es = foldl (\<lambda>use (prog, child). if prog > use then prog else use) 0 es"

definition pat_pmt :: "u32 \<Rightarrow> (u32 \<times> u32) list \<Rightarrow> u32" where
  "pat_pmt pid0 es = foldl (\<lambda>pid (prog, child). if prog = 3 \<and> child \<noteq> 0 then child else pid) pid0 es"

text \<open>The second loop stores into the array; \<open>None\<close> would be a store past its end. An entry beyond
  \<^verbatim>\<open>pat_use\<close> is the logic error of the code's message.\<close>

fun pat_store :: "u32 \<Rightarrow> (u32 \<times> u32) list \<Rightarrow> u32 list \<Rightarrow> u32 list option" where
  "pat_store use [] arr = Some arr"
| "pat_store use ((prog, child) # rest) arr =
    (if prog \<ge> use then pat_store use rest arr
     else if unat prog < length arr then pat_store use rest (arr[unat prog := child])
     else None)"

text \<open>The array is replaced when it is too short, and allocated when there is none.\<close>

definition pat_room :: "bool atsc_cmd" where
  "pat_room =
    bindM (look (\<lambda>s. s)) (\<lambda>s.
    thenM
      (if pat_use s \<ge> pat_max s then
         thenM (if pat s \<noteq> None then call free_block else ret ())
           (put (\<lambda>s. s\<lparr>pat := None, pat_max := pat_use s\<rparr>))
       else ret ())
    (bindM (look pat) (\<lambda>p.
     if p = None then
       bindM (call malloc) (\<lambda>ok.
       if ok then thenM (put (\<lambda>s. s\<lparr>pat := Some (replicate (unat (pat_max s)) 0)\<rparr>)) (ret True)
       else ret False)
     else ret True)))"

definition pat_apply :: "(u32 \<times> u32) list \<Rightarrow> bool atsc_cmd" where
  "pat_apply es =
    thenM (put (\<lambda>s. s\<lparr>pat_use := pat_limit es + 1, pmt_pid := pat_pmt (pmt_pid s) es\<rparr>))
    (bindM pat_room (\<lambda>ok.
    if \<not> ok then ret True
    else
      bindM (look (\<lambda>s. s)) (\<lambda>s.
      bindM (need (pat_store (pat_use s) es (the (pat s)))) (\<lambda>arr.
      thenM (put (\<lambda>s. s\<lparr>pat := Some arr\<rparr>)) (ret False)))))"

definition parse_pat :: "u8 list \<Rightarrow> nat \<Rightarrow> bool atsc_cmd" where
  "parse_pat pkt len =
    bindM (look pat_curver) (\<lambda>ver.
    bindM (need (mpg_parse_hdr pkt len 0 0 ver 0)) (\<lambda>h.
    thenM (put (\<lambda>s. s\<lparr>pat_curver := hver h\<rparr>))
    (if bad h then ret (hpos h \<noteq> 0)
     else
       thenM (if hid h \<noteq> 0 then put (\<lambda>s. s\<lparr>pat_tsid := hid h\<rparr>) else ret ())
       (if (hpos h + len) mod 4 \<noteq> 0 then ret True
        else bindM (need (pat_entries pkt (hpos h) ((len - hpos h) div 4 - 1))) pat_apply))))"

definition parse_psip_vct :: "(u32 list \<Rightarrow> bool \<times> string) \<Rightarrow> u8 list \<Rightarrow> nat \<Rightarrow> nat \<Rightarrow> bool atsc_cmd" where
  "parse_psip_vct iconv pkt len snl =
    bindM (look vct_curver) (\<lambda>ver.
    bindM (need (atsc_parse_hdr pkt len 0 ver)) (\<lambda>h.
    thenM (put (\<lambda>s. s\<lparr>vct_curver := hver h\<rparr>))
    (if bad h then ret (hpos h \<noteq> 0) else parse_vct iconv pkt len (hpos h) snl)))"

definition parse_psip_mgt :: "u8 list \<Rightarrow> nat \<Rightarrow> bool atsc_cmd" where
  "parse_psip_mgt pkt len =
    bindM (look mgt_curver) (\<lambda>ver.
    bindM (need (atsc_parse_hdr pkt len 0 ver)) (\<lambda>h.
    thenM (put (\<lambda>s. s\<lparr>mgt_curver := hver h\<rparr>))
    (if bad h then ret (hpos h \<noteq> 0)
     else bindM (need (parse_mgt pkt len (hpos h))) (\<lambda>(r, reported). ret r))))"

definition parse_pmt :: "u8 list \<Rightarrow> nat \<Rightarrow> bool atsc_cmd" where
  "parse_pmt pkt len =
    bindM (look pmt_curver) (\<lambda>ver.
    bindM (need (mpg_parse_hdr pkt len 0 0 ver 2)) (\<lambda>h.
    thenM (put (\<lambda>s. s\<lparr>pmt_curver := hver h\<rparr>))
    (if bad h then ret (hpos h \<noteq> 0)
     else
       bindM (need (rd16 pkt (hpos h))) (\<lambda>p.
       thenM (put (\<lambda>s. s\<lparr>pcr_pid := p AND 0x1fff\<rparr>)) (ret False)))))"

text \<open>The value: whether \<^verbatim>\<open>parse_tbl\<close> returns 1.\<close>

definition parse_tbl :: "(u32 list \<Rightarrow> bool \<times> string) \<Rightarrow> u8 list \<Rightarrow> nat \<Rightarrow> u32 \<Rightarrow> bool atsc_cmd" where
  "parse_tbl iconv pkt len pid =
    (if pid = 0 then parse_pat pkt len
     else if pid = 0x1ffb then
       bindM (need (rd pkt 0)) (\<lambda>t.
       if t = 0xc7 then parse_psip_mgt pkt len
       else if t = 0xc8 \<or> t = 0xc9 then parse_psip_vct iconv pkt len 7
       else if t = 0xda then parse_psip_vct iconv pkt len 16
       else ret (t \<notin> {1, 9, 0x58, 0x6e, 0x6f, 0xf0, 0xca, 0xcb, 0xcd, 0xcf, 0xd1, 0xd3}))
     else if pid = 0x1fff then ret False
     else bindM (look pmt_pid) (\<lambda>pmt. if pid = pmt then parse_pmt pkt len else ret False))"

subsection \<open>Headers\<close>

lemma rd16_Some_iff:
  "rd16 buf i = Some v \<longleftrightarrow> i + 1 < length buf \<and>
   v = push_bit 8 (ucast (buf ! i)) + ucast (buf ! (i + 1))"
  by (auto simp: rd16_def rd_def bind_eq_Some_conv)

lemma rd32_Some_iff:
  "rd32 buf i = Some v \<longleftrightarrow> i + 3 < length buf \<and>
   v = push_bit 24 (ucast (buf ! i)) + push_bit 16 (ucast (buf ! (i + 1))) +
     push_bit 8 (ucast (buf ! (i + 2))) + ucast (buf ! (i + 3))"
  by (auto simp: rd32_def rd_def bind_eq_Some_conv)

lemma push_add_or:
  fixes a b c d :: u8
  shows "(push_bit 24 (ucast a) + push_bit 16 (ucast b) + push_bit 8 (ucast c) + ucast d :: u32) =
    push_bit 24 (ucast a) OR push_bit 16 (ucast b) OR push_bit 8 (ucast c) OR ucast d"
proof -
  have bnd: "m \<ge> 8 \<Longrightarrow> \<not> bit (x :: u8) m" for x m by (auto dest: bit_imp_le_length)
  have 1: "(push_bit 24 (ucast a) + push_bit 16 (ucast b) :: u32) =
      push_bit 24 (ucast a) OR push_bit 16 (ucast b)"
    by (rule disjunctive_add) (auto simp: bit_simps bnd)
  have 2: "((push_bit 24 (ucast a) OR push_bit 16 (ucast b)) + push_bit 8 (ucast c) :: u32) =
      (push_bit 24 (ucast a) OR push_bit 16 (ucast b)) OR push_bit 8 (ucast c)"
    by (rule disjunctive_add) (auto simp: bit_simps bnd)
  have 3: "(((push_bit 24 (ucast a) OR push_bit 16 (ucast b)) OR push_bit 8 (ucast c)) + ucast d :: u32) =
      ((push_bit 24 (ucast a) OR push_bit 16 (ucast b)) OR push_bit 8 (ucast c)) OR ucast d"
    by (rule disjunctive_add) (auto simp: bit_simps bnd)
  show ?thesis by (simp only: 1 2 3) (simp only: or.assoc)
qed

text \<open>The four bytes at the end of a section are the checksum exactly if its CRC is zero.\<close>

lemma rd32_be32:
  assumes "i + 3 < length buf" and "take 4 (drop i buf) = be32 v"
  shows "rd32 buf i = Some v"
proof -
  have *: "buf ! (i + k) = be32 v ! k" if "k < 4" for k
  proof -
    have "be32 v ! k = take 4 (drop i buf) ! k" by (simp add: assms(2))
    also have "\<dots> = buf ! (i + k)" using that assms(1) by simp
    finally show ?thesis by simp
  qed
  show ?thesis
    unfolding rd32_Some_iff push_add_or
    using assms(1) *[of 0] *[of 1] *[of 2] *[of 3]
    by (simp add: be32_def be32_value)
qed

lemma be32_join:
  fixes a b c d :: u8
  shows "be32 (push_bit 24 (ucast a) + push_bit 16 (ucast b) + push_bit 8 (ucast c) + ucast d) = [a, b, c, d]"
proof -
  have bnd: "m \<ge> 8 \<Longrightarrow> \<not> bit (x :: u8) m" for x m by (auto dest: bit_imp_le_length)
  define v :: u32 where
    "v = push_bit 24 (ucast a) OR push_bit 16 (ucast b) OR push_bit 8 (ucast c) OR ucast d"
  have v: "bit v n \<longleftrightarrow> n < 32 \<and> (24 \<le> n \<and> bit a (n - 24) \<or> 16 \<le> n \<and> bit b (n - 16) \<or>
      8 \<le> n \<and> bit c (n - 8) \<or> bit d n)" for n
    unfolding v_def by (auto simp: bit_simps bnd)
  have "ucast (drop_bit 24 v) = a"
    by (rule bit_word_eqI) (auto simp: bit_ucast_iff bit_drop_bit_eq v bnd)
  moreover have "ucast (drop_bit 16 v) = b"
    by (rule bit_word_eqI) (auto simp: bit_ucast_iff bit_drop_bit_eq v bnd)
  moreover have "ucast (drop_bit 8 v) = c"
    by (rule bit_word_eqI) (auto simp: bit_ucast_iff bit_drop_bit_eq v bnd)
  moreover have "ucast v = d"
    by (rule bit_word_eqI) (auto simp: bit_ucast_iff v bnd)
  ultimately show ?thesis unfolding push_add_or be32_def v_def [symmetric] by simp
qed

lemma rd32_Some_be32:
  assumes "rd32 buf i = Some v"
  shows "i + 4 \<le> length buf \<and> take 4 (drop i buf) = be32 v"
proof -
  from assms have l: "i + 3 < length buf" and v: "v = push_bit 24 (ucast (buf ! i)) +
      push_bit 16 (ucast (buf ! (i + 1))) + push_bit 8 (ucast (buf ! (i + 2))) + ucast (buf ! (i + 3))"
    by (simp_all add: rd32_Some_iff)
  have "take 4 (drop i buf) = [buf ! i, buf ! (i + 1), buf ! (i + 2), buf ! (i + 3)]"
    using l by (intro nth_equalityI) (auto simp: less_Suc_eq numeral_eq_Suc)
  then show ?thesis unfolding v be32_join using l by simp
qed

lemma rd_slice_Some_iff:
  "rd_slice buf i n = Some xs \<longleftrightarrow> i + n \<le> length buf \<and> xs = take n (drop i buf)"
  by (auto simp: rd_slice_def)

text \<open>The comparison with the stored checksum is the test that the CRC of the whole section is
  zero.\<close>

lemma crc_field_iff:
  assumes "rd32 pkt (len - 4) = Some crc" and "rd_slice pkt 0 (len - 4) = Some body" and "4 \<le> len"
  shows "crc = mpeg2_crc body \<longleftrightarrow> mpeg2_crc (take len pkt) = 0"
proof -
  from rd32_Some_be32 [OF assms(1)] assms(3) have l: "len \<le> length pkt"
    and t: "take 4 (drop (len - 4) pkt) = be32 crc" by auto
  have "take len pkt = take (len - 4) pkt @ take 4 (drop (len - 4) pkt)"
    using assms(3) l by (metis le_add_diff_inverse2 take_add add.commute)
  also have "\<dots> = body @ be32 crc" using assms(2) by (simp add: rd_slice_Some_iff t)
  finally show ?thesis by (simp add: mpeg2_crc_zero_iff pack_be32)
qed

definition long_section :: "u8 list \<Rightarrow> bool" where
  "long_section pkt \<longleftrightarrow> pkt ! 1 AND 0x80 \<noteq> 0"

text \<open>The rule for versions: any at first, then only the successor modulo 32.\<close>

definition version_next :: "u32 \<Rightarrow> u32 \<Rightarrow> bool" where
  "version_next ver rx \<longleftrightarrow> ver = 32 \<or> rx \<noteq> ver \<and> rx = (ver + 1) AND 0x1f"

lemma long_hdr_cases:
  assumes "long_hdr pkt len 3 ver = Some h"
  shows "(\<not> bad h \<longleftrightarrow> pkt ! 5 AND 1 \<noteq> 0 \<and> version_next ver (rx_version (pkt ! 5)) \<and>
      pkt ! 6 = 0 \<and> pkt ! 7 = 0 \<and> 8 \<le> len) \<and>
    (\<not> bad h \<longrightarrow> h = \<lparr>bad = False, hpos = 8, hid = push_bit 8 (ucast (pkt ! 3)) + ucast (pkt ! 4),
      hver = rx_version (pkt ! 5)\<rparr>) \<and>
    (hver h = ver \<or> version_next ver (rx_version (pkt ! 5)) \<and> hver h = rx_version (pkt ! 5))"
  using assms
  by (auto simp: long_hdr_def bind_eq_Some_conv rd_Some_iff rd16_Some_iff version_next_def Let_def
      split: if_splits)

lemma short_not_bad: "h = \<lparr>bad = False, hpos = p, hid = i, hver = v\<rparr> \<Longrightarrow> \<not> bad h"
  by simp

lemma mpg_hdr_steps:
  assumes "mpg_parse_hdr pkt len 0 id0 ver tblid = Some h"
  shows "(pkt ! 0 \<noteq> tblid \<or> len < 4 \<or> mpeg2_crc (take len pkt) \<noteq> 0) \<and>
      h = \<lparr>bad = True, hpos = 0, hid = id0, hver = ver\<rparr> \<or>
    pkt ! 0 = tblid \<and> 4 \<le> len \<and> len \<le> length pkt \<and> mpeg2_crc (take len pkt) = 0 \<and>
    (\<exists>h1. (if long_section pkt then long_hdr pkt len 3 ver = Some h1
         else h1 = \<lparr>bad = False, hpos = 3, hid = id0, hver = ver\<rparr>) \<and>
       h = (if \<not> bad h1 \<and> hpos h1 + 4 > len then h1\<lparr>bad := True\<rparr> else h1))"
proof (cases "pkt ! 0 = tblid \<and> 4 \<le> len")
  case False
  with assms show ?thesis
    by (auto simp: mpg_parse_hdr_def bind_eq_Some_conv rd_Some_iff)
next
  case True
  then have n: "\<not> (pkt ! 0 \<noteq> tblid \<or> len < 4)" by simp
  from assms obtain b where "rd pkt 0 = Some b" and
    1: "(if b \<noteq> tblid \<or> len < 4 then Some \<lparr>bad = True, hpos = 0, hid = id0, hver = ver\<rparr>
     else do {
       crc \<leftarrow> rd32 pkt (0 + len - 4);
       body \<leftarrow> rd_slice pkt 0 (len - 4);
       if crc \<noteq> mpeg2_crc body then Some \<lparr>bad = True, hpos = 0, hid = id0, hver = ver\<rparr>
       else do {
         syntax \<leftarrow> rd pkt (0 + 1);
         h \<leftarrow> (if syntax AND 0x80 \<noteq> 0 then long_hdr pkt len (0 + 3) ver
              else Some \<lparr>bad = False, hpos = 0 + 3, hid = id0, hver = ver\<rparr>);
         Some (if \<not> bad h \<and> hpos h + 4 > len then h\<lparr>bad := True\<rparr> else h)
       }
     }) = Some h"
    unfolding mpg_parse_hdr_def bind_eq_Some_conv by blast
  then have b: "b = pkt ! 0" by (simp add: rd_Some_iff)
  from 1 n obtain crc body where c: "rd32 pkt (len - 4) = Some crc" "rd_slice pkt 0 (len - 4) = Some body"
    and 2: "(if crc \<noteq> mpeg2_crc body then Some \<lparr>bad = True, hpos = 0, hid = id0, hver = ver\<rparr>
       else do {
         syntax \<leftarrow> rd pkt 1;
         h \<leftarrow> (if syntax AND 0x80 \<noteq> 0 then long_hdr pkt len 3 ver
              else Some \<lparr>bad = False, hpos = 3, hid = id0, hver = ver\<rparr>);
         Some (if \<not> bad h \<and> hpos h + 4 > len then h\<lparr>bad := True\<rparr> else h)
       }) = Some h"
    unfolding b by (simp only: if_False bind_eq_Some_conv add_0) blast
  have crc: "crc = mpeg2_crc body \<longleftrightarrow> mpeg2_crc (take len pkt) = 0"
    using crc_field_iff [OF c] True by blast
  have l: "len \<le> length pkt" using rd32_Some_be32 [OF c(1)] True by auto
  show ?thesis
  proof (cases "mpeg2_crc (take len pkt) = 0")
    case False
    with 2 crc show ?thesis by auto
  next
    case z: True
    with 2 crc obtain syn h1 where "rd pkt 1 = Some syn" and
      h1: "(if syn AND 0x80 \<noteq> 0 then long_hdr pkt len 3 ver
          else Some \<lparr>bad = False, hpos = 3, hid = id0, hver = ver\<rparr>) = Some h1" and
      h: "h = (if \<not> bad h1 \<and> hpos h1 + 4 > len then h1\<lparr>bad := True\<rparr> else h1)"
      by (auto simp: bind_eq_Some_conv)
    then have "syn = pkt ! 1" by (simp add: rd_Some_iff)
    with h1 h True l z show ?thesis
      by (intro disjI2) (auto simp: long_section_def intro!: exI [of _ h1])
  qed
qed

lemma hdr_accepted_iff:
  assumes "mpg_parse_hdr pkt len 0 id0 ver tblid = Some h"
  shows "(\<not> bad h \<longleftrightarrow> pkt ! 0 = tblid \<and> 4 \<le> len \<and> mpeg2_crc (take len pkt) = 0 \<and>
      (if long_section pkt
       then pkt ! 5 AND 1 \<noteq> 0 \<and> version_next ver (rx_version (pkt ! 5)) \<and>
         pkt ! 6 = 0 \<and> pkt ! 7 = 0 \<and> 12 \<le> len
       else 7 \<le> len)) \<and>
    (\<not> bad h \<longrightarrow> h = (if long_section pkt
       then \<lparr>bad = False, hpos = 8, hid = push_bit 8 (ucast (pkt ! 3)) + ucast (pkt ! 4),
          hver = rx_version (pkt ! 5)\<rparr>
       else \<lparr>bad = False, hpos = 3, hid = id0, hver = ver\<rparr>))"
  using mpg_hdr_steps [OF assms]
proof (elim disjE conjE exE)
  fix h1
  assume *: "pkt ! 0 = tblid" "4 \<le> len" "mpeg2_crc (take len pkt) = 0"
    and h1: "if long_section pkt then long_hdr pkt len 3 ver = Some h1
         else h1 = \<lparr>bad = False, hpos = 3, hid = id0, hver = ver\<rparr>"
    and h: "h = (if \<not> bad h1 \<and> hpos h1 + 4 > len then h1\<lparr>bad := True\<rparr> else h1)"
  show ?thesis
  proof (cases "long_section pkt")
    case True
    with h1 have "long_hdr pkt len 3 ver = Some h1" by simp
    from long_hdr_cases [OF this] h * True show ?thesis
      by (cases "bad h1") auto
  qed (use h1 h * in auto)
qed auto

text \<open>C18: A section header is accepted exactly if the table id is the expected one, the CRC of the
  section is zero, and, in a long header, the table is current, its version is new as the
  version rule has it, and it is the only section of its table; room for the checksum remains
  behind the header. An accepted header gives its extension and the version it stores.\<close>

theorem section_header_accepted:
  assumes "mpg_parse_hdr pkt len 0 id0 ver tblid = Some h"
  shows "(\<not> bad h \<longleftrightarrow> pkt ! 0 = tblid \<and> 4 \<le> len \<and> mpeg2_crc (take len pkt) = 0 \<and>
      (if long_section pkt
       then pkt ! 5 AND 1 \<noteq> 0 \<and> version_next ver (rx_version (pkt ! 5)) \<and>
         pkt ! 6 = 0 \<and> pkt ! 7 = 0 \<and> 12 \<le> len
       else 7 \<le> len)) \<and>
    (\<not> bad h \<longrightarrow> h = (if long_section pkt
       then \<lparr>bad = False, hpos = 8, hid = push_bit 8 (ucast (pkt ! 3)) + ucast (pkt ! 4),
          hver = rx_version (pkt ! 5)\<rparr>
       else \<lparr>bad = False, hpos = 3, hid = id0, hver = ver\<rparr>))"
  by (rule hdr_accepted_iff [OF assms])

text \<open>The bytes of a section with a long header, for the table \<open>tblid\<close>.\<close>

definition enc16 :: "u32 \<Rightarrow> u8 list" where
  "enc16 v = [ucast (drop_bit 8 v), ucast v]"

definition section_bytes :: "u8 \<Rightarrow> u32 \<Rightarrow> u8 \<Rightarrow> u8 list \<Rightarrow> u8 list" where
  "section_bytes tblid ext vb payload =
    (let n = length payload + 9;
         b = [tblid, 0xb0 OR of_nat (n div 256), of_nat (n mod 256)] @ enc16 ext @ [vb, 0, 0] @ payload
     in b @ be32 (mpeg2_crc b))"

lemma length_section_bytes [simp]: "length (section_bytes t e v p) = length p + 12"
  by (simp add: section_bytes_def Let_def enc16_def)

lemma section_bytes_crc: "mpeg2_crc (section_bytes t e v p) = 0"
  by (simp only: section_bytes_def Let_def mpeg2_crc_append_be32)

lemma enc16_value:
  assumes "v < 65536"
  shows "push_bit 8 (ucast (ucast (drop_bit 8 v) :: u8)) + ucast (ucast v :: u8) = (v :: u32)"
proof -
  have b: "\<not> bit v n" if "16 \<le> n" for n
    by (rule no_high_bit [of v 16]) (use assms that in \<open>simp_all add: word_less_def\<close>)
  have bnd: "m \<ge> 8 \<Longrightarrow> \<not> bit (x :: u8) m" for x m by (auto dest: bit_imp_le_length)
  have "push_bit 8 (ucast (ucast (drop_bit 8 v) :: u8)) + ucast (ucast v :: u8) =
      push_bit 8 (ucast (ucast (drop_bit 8 v) :: u8)) OR (ucast (ucast v :: u8) :: u32)"
    by (rule disjunctive_add) (auto simp: bit_simps bnd)
  also have "\<dots> = v"
  proof (rule bit_word_eqI)
    fix n assume "n < LENGTH(32)"
    show "bit (push_bit 8 (ucast (ucast (drop_bit 8 v) :: u8)) OR (ucast (ucast v :: u8) :: u32)) n = bit v n"
      using b [of n] \<open>n < LENGTH(32)\<close>
      by (cases "n < 8"; cases "n < 16") (auto simp: bit_or_iff bit_push_bit_iff bit_ucast_iff bit_drop_bit_eq bnd)
  qed
  finally show ?thesis .
qed

text \<open>A section at the start of its buffer, with whatever is behind it.\<close>

lemma section_bytes_hdr:
  assumes "vb AND 1 \<noteq> 0" and "version_next ver (rx_version vb)" and "ext < 65536"
  shows "mpg_parse_hdr (section_bytes t ext vb payload @ junk) (length payload + 12) 0 id0 ver t =
    Some \<lparr>bad = False, hpos = 8, hid = ext, hver = rx_version vb\<rparr>"
proof -
  let ?s = "section_bytes t ext vb payload" and ?n = "length payload + 12"
  let ?pkt = "?s @ junk"
  have "?s ! 0 = t" "?s ! 1 = 0xb0 OR of_nat ((length payload + 9) div 256)"
    "?s ! 3 = ucast (drop_bit 8 ext)" "?s ! 4 = ucast ext" "?s ! 5 = vb" "?s ! 6 = 0" "?s ! 7 = 0"
    by (simp_all add: section_bytes_def Let_def enc16_def)
  then have b: "?pkt ! 0 = t" "?pkt ! 1 = 0xb0 OR of_nat ((length payload + 9) div 256)"
    "?pkt ! 3 = ucast (drop_bit 8 ext)" "?pkt ! 4 = ucast ext" "?pkt ! 5 = vb" "?pkt ! 6 = 0" "?pkt ! 7 = 0"
    by (simp_all add: nth_append)
  have "bit (?pkt ! 1) 7" unfolding b(2) bit_or_iff by (rule disjI1) code_simp
  then have syn: "?pkt ! 1 AND 0x80 \<noteq> 0"
    using and_one_bit_iff [where x = "?pkt ! 1" and n = 7] by simp
  let ?b = "take (length payload + 8) ?s"
  obtain b where sb: "?s = b @ be32 (mpeg2_crc b)" and lb: "length b = length payload + 8"
    by (rule that [of "[t, 0xb0 OR of_nat ((length payload + 9) div 256),
          of_nat ((length payload + 9) mod 256)] @ enc16 ext @ [vb, 0, 0] @ payload"])
      (simp_all add: section_bytes_def Let_def enc16_def)
  then have bb: "?b = b" by simp
  have "take 4 (drop (length payload + 8) ?pkt) = be32 (mpeg2_crc ?b)"
    unfolding bb using sb lb by simp
  then have crc: "rd32 ?pkt (?n - 4) = Some (mpeg2_crc ?b)"
    by (intro rd32_be32) (simp_all add: add.commute)
  have body: "rd_slice ?pkt 0 (?n - 4) = Some ?b"
    by (simp add: rd_slice_def add.commute)
  have l: "long_hdr ?pkt ?n 3 ver = Some \<lparr>bad = False, hpos = 8, hid = ext, hver = rx_version vb\<rparr>"
    using assms(1,2) enc16_value [OF assms(3)] b
    by (auto simp: long_hdr_def rd_simps version_next_def Let_def)
  show ?thesis
    using b(1) syn crc body l
    by (simp add: mpg_parse_hdr_def rd_simps)
qed

theorem section_header_accepted_witness:
  "\<exists>h. mpg_parse_hdr (section_bytes 2 3 0xc3 [0xe0, 0x31, 0xf0, 0]) 16 0 0 32 2 = Some h \<and>
     hpos h = 8 \<and> hid h = 3 \<and> hver h = 1"
proof -
  have v: "rx_version 0xc3 = 1" by (simp add: rx_version_def)
  have h: "mpg_parse_hdr (section_bytes 2 3 0xc3 [0xe0, 0x31, 0xf0, 0]) 16 0 0 32 2 =
      Some \<lparr>bad = False, hpos = 8, hid = 3, hver = 1\<rparr>"
    using section_bytes_hdr [of "0xc3" 32 3 2 "[0xe0, 0x31, 0xf0, 0]" "[]" 0]
    by (simp add: v version_next_def)
  have l: "long_section (section_bytes 2 3 0xc3 [0xe0, 0x31, 0xf0, 0])"
    by (simp add: long_section_def section_bytes_def Let_def)
  from section_header_accepted [OF h] l show ?thesis using h by auto
qed

text \<open>A section damaged within four consecutive bytes is thrown away by its checksum, and the
  version of its table stays what it was.\<close>

theorem damaged_section_rejected:
  assumes "mpeg2_crc (p @ e @ s) = 0" and "length e = length e'" and "length e \<le> 4" and "e \<noteq> e'"
    and "take len pkt = p @ e' @ s"
    and "mpg_parse_hdr pkt len 0 id0 ver tblid = Some h"
  shows "bad h \<and> hver h = ver \<and> hpos h = 0"
proof -
  have "mpeg2_crc (take len pkt) \<noteq> 0"
    using mpeg2_crc_burst [OF assms(2-4), of p s] assms(1) by (simp add: assms(5))
  with mpg_hdr_steps [OF assms(6)] show ?thesis by auto
qed

theorem damaged_section_rejected_witness:
  "\<exists>h. mpg_parse_hdr ([2, 0xb0, 13, 0, 3, 0xc3, 0, 0, 0xe0, 0x32, 0xf0, 0] @
     be32 (mpeg2_crc [2, 0xb0, 13, 0, 3, 0xc3, 0, 0, 0xe0, 0x31, 0xf0, 0])) 16 0 0 32 2 = Some h \<and> bad h"
proof -
  let ?good = "[2, 0xb0, 13, 0, 3, 0xc3, 0, 0, 0xe0, 0x31, 0xf0, 0] :: u8 list"
  let ?c = "be32 (mpeg2_crc ?good)"
  let ?pkt = "[2, 0xb0, 13, 0, 3, 0xc3, 0, 0, 0xe0, 0x32, 0xf0, 0] @ ?c"
  have c: "mpeg2_crc ([2, 0xb0, 13, 0, 3, 0xc3, 0, 0, 0xe0] @ [0x31] @ ([0xf0, 0] @ ?c)) = 0"
    using mpeg2_crc_append_be32 [of ?good] by simp
  have "mpg_parse_hdr ?pkt 16 0 0 32 2 \<noteq> None" by code_simp
  then obtain h where h: "mpg_parse_hdr ?pkt 16 0 0 32 2 = Some h" by blast
  have "take 16 ?pkt = [2, 0xb0, 13, 0, 3, 0xc3, 0, 0, 0xe0] @ [0x32] @ ([0xf0, 0] @ ?c)" by simp
  from damaged_section_rejected [OF c _ _ _ this h] h show ?thesis by simp
qed

lemma rx_version_mask: "rx_version b AND 8 = 0"
proof -
  have "\<not> bit (b AND 0x2f) 4"
    unfolding bit_and_iff by (rule notI, erule conjE) (simp add: bit_numeral_rec)
  then have "\<not> bit (rx_version b) 3"
    by (simp add: rx_version_def bit_simps)
  then show ?thesis
    using and_one_bit_iff [where x = "rx_version b" and n = 3] by simp
qed

text \<open>The version of a table stops at 7 and at 23. The code extracts the version with the mask
  0x2f, which loses bit 3 of the version number and keeps a reserved bit; the successor 8 (or
  24) is therefore never seen, and every later section of the table is thrown away.\<close>

theorem version_stops_at_seven:
  assumes "mpg_parse_hdr pkt len 0 id0 ver tblid = Some h" and "ver = 7 \<or> ver = 23"
    and "long_section pkt"
  shows "bad h \<and> hver h = ver"
proof -
  have "\<not> version_next ver (rx_version (pkt ! 5))"
  proof
    assume v: "version_next ver (rx_version (pkt ! 5))"
    have "rx_version (pkt ! 5) AND 8 \<noteq> 0"
      using assms(2)
    proof
      assume "ver = 7"
      with v have "rx_version (pkt ! 5) = 8" by (simp add: version_next_def)
      then show ?thesis by simp
    next
      assume "ver = 23"
      with v have "rx_version (pkt ! 5) = 24" by (simp add: version_next_def)
      then show ?thesis by simp
    qed
    then show False by (simp add: rx_version_mask)
  qed
  with mpg_hdr_steps [OF assms(1)] assms(3) show ?thesis
    by (auto dest!: long_hdr_cases)
qed

theorem version_stops_at_seven_witness:
  "\<exists>h. mpg_parse_hdr (section_bytes 2 3 0xd1 [0xe0, 0x31, 0xf0, 0]) 16 0 0 7 2 = Some h \<and>
     bad h \<and> (0xd1 :: u8) = 2 * 8 + 1 OR 0xc0"
proof -
  let ?pkt = "section_bytes 2 3 0xd1 [0xe0, 0x31, 0xf0, 0]"
  have "mpg_parse_hdr ?pkt 16 0 0 7 2 \<noteq> None" by code_simp
  then obtain h where h: "mpg_parse_hdr ?pkt 16 0 0 7 2 = Some h" by blast
  have "long_section ?pkt" by (simp add: long_section_def section_bytes_def Let_def)
  from version_stops_at_seven [OF h _ this] h show ?thesis by simp
qed

end
