(* ===== verification/Sez_Tables.thy ===== *)
theory Sez_Tables
  imports Sez_Psi
begin

text \<open>
  The tables behind the section headers: the array of the program association table as a map
  of program numbers to PIDs, the buffers' bounds in every table, descriptors, the text of the
  channel table, and the repetition of a table.
\<close>

subsection \<open>Program association table\<close>

definition pat_inv :: "mpgatsc \<Rightarrow> bool" where
  "pat_inv s \<longleftrightarrow> (\<forall>a. pat s = Some a \<longrightarrow> length a = unat (pat_max s))"

text \<open>What a client finds under a program number: the entries below \<^verbatim>\<open>pat_use\<close>.\<close>

definition pat_lookup :: "mpgatsc \<Rightarrow> u32 \<Rightarrow> u32 option" where
  "pat_lookup s p = (case pat s of None \<Rightarrow> None
     | Some a \<Rightarrow> if p < pat_use s then Some (a ! unat p) else None)"

lemma pat_limit_snoc: "pat_limit (es @ [(p, c)]) = (if p > pat_limit es then p else pat_limit es)"
  by (simp add: pat_limit_def)

lemma pat_limit_max: "(p, c) \<in> set es \<Longrightarrow> p \<le> pat_limit es"
  by (induction es rule: rev_induct) (auto simp: pat_limit_snoc)

lemma pat_limit_bound: "\<forall>(p, c) \<in> set es. p < 65536 \<Longrightarrow> pat_limit es < 65536"
proof (induction es rule: rev_induct)
  case Nil
  then show ?case by (simp add: pat_limit_def)
next
  case (snoc x xs)
  then show ?case by (cases x) (auto simp: pat_limit_snoc)
qed

lemma limit_step:
  assumes "\<forall>(p, c) \<in> set es. p < 65536"
  shows "unat (pat_limit es + 1) = unat (pat_limit es) + 1"
  using pat_limit_bound [OF assms] unat_add_lem [of "pat_limit es" 1]
  by (simp add: word_less_nat_alt)

lemma pat_store_step:
  "unat p < length arr \<Longrightarrow> \<not> p \<ge> use \<Longrightarrow>
   pat_store use ((p, c) # es) arr = pat_store use es (arr[unat p := c])"
  by simp

text \<open>The stores refine the update of a finite map; an entry that repeats a program number wins.\<close>

lemma pat_store_map:
  assumes "\<forall>(p, c) \<in> set es. p < use" and "unat use \<le> length arr"
  shows "\<exists>arr'. pat_store use es arr = Some arr' \<and> length arr' = length arr \<and>
    (\<forall>p. unat p < length arr \<longrightarrow>
      arr' ! unat p = (case map_of (rev es) p of Some c \<Rightarrow> c | None \<Rightarrow> arr ! unat p))"
  using assms
proof (induction es arbitrary: arr)
  case (Cons e es)
  obtain p c where e: "e = (p, c)" by force
  with Cons.prems have p: "p < use" by auto
  then have l: "unat p < length arr" using Cons.prems(2) by (simp add: word_less_nat_alt)
  from Cons.IH [of "arr[unat p := c]"] Cons.prems e obtain arr' where
    1: "pat_store use es (arr[unat p := c]) = Some arr'" "length arr' = length arr" and
    2: "\<forall>q. unat q < length arr \<longrightarrow>
      arr' ! unat q = (case map_of (rev es) q of Some c \<Rightarrow> c | None \<Rightarrow> arr[unat p := c] ! unat q)"
    by auto
  have "arr' ! unat q = (case map_of (rev (e # es)) q of Some c \<Rightarrow> c | None \<Rightarrow> arr ! unat q)"
    if "unat q < length arr" for q
    using 2 that l by (cases "map_of (rev es) q") (auto simp: e map_add_def nth_list_update word_unat_eq_iff)
  with 1 p l show ?case by (auto simp: e)
qed simp

lemma rev_dom: "map_of (rev es) p = None \<longleftrightarrow> p \<notin> fst ` set es"
  by (simp add: map_of_eq_None_iff)

text \<open>The bytes of the entries.\<close>

definition pat_bytes :: "(u32 \<times> u32) list \<Rightarrow> u8 list" where
  "pat_bytes es = concat (map (\<lambda>(p, c). enc16 p @ enc16 (c OR 0xe000)) es)"

lemma length_enc16 [simp]: "length (enc16 v) = 2"
  by (simp add: enc16_def)

lemma length_pat_bytes [simp]: "length (pat_bytes es) = 4 * length es"
  by (induction es) (auto simp: pat_bytes_def)

lemma rd16_enc16:
  assumes "v < 65536"
  shows "rd16 (pre @ enc16 v @ post) (length pre) = Some v"
  using enc16_value [OF assms] by (simp add: rd16_Some_iff nth_append enc16_def)

lemma rd16_enc16_shift:
  assumes "v < 65536" and "n = length pre"
  shows "rd16 (pre @ enc16 v @ post) n = Some v"
  using rd16_enc16 [OF assms(1)] assms(2) by simp

lemma pid_marked:
  assumes "c < 0x2000"
  shows "(c OR 0xe000) AND 0x1fff = (c :: u32)" and "c OR 0xe000 < (65536 :: u32)"
proof -
  have b: "\<not> bit c n" if "13 \<le> n" for n
    by (rule no_high_bit [of c 13]) (use assms that in \<open>simp_all add: word_less_def\<close>)
  have m: "(0x1fff :: u32) = mask 13" by (simp add: mask_eq_exp_minus_1)
  have e: "(0xe000 :: u32) = push_bit 13 (mask 3)" by (simp add: mask_eq_exp_minus_1)
  have eb: "bit (0xe000 :: u32) n \<longleftrightarrow> 13 \<le> n \<and> n < 16" for n
    by (simp only: e bit_push_bit_iff bit_mask_iff) auto
  have mb: "bit (0x1fff :: u32) n \<longleftrightarrow> n < 13" for n
    by (simp only: m bit_mask_iff) auto
  show "(c OR 0xe000) AND 0x1fff = c"
  proof (rule bit_word_eqI)
    fix n
    show "bit ((c OR 0xe000) AND 0x1fff) n = bit c n"
      unfolding bit_and_iff bit_or_iff eb mb using b [of n] by (cases "13 \<le> n") auto
  qed
  have "uint (c OR 0xe000) < 2 ^ 16"
  proof (rule low_bits_less)
    fix n :: nat assume "16 \<le> n"
    then show "\<not> bit (c OR 0xe000) n" unfolding bit_or_iff eb using b [of n] by auto
  qed
  then show "c OR 0xe000 < (65536 :: u32)" by (simp add: word_less_def)
qed

lemma pat_entries_bytes:
  assumes "\<forall>(p, c) \<in> set es. p < 65536 \<and> c < 0x2000"
  shows "pat_entries (pre @ pat_bytes es @ post) (length pre) (length es) = Some es"
  using assms
proof (induction es arbitrary: pre)
  case (Cons e es)
  obtain p c where e: "e = (p, c)" by force
  with Cons.prems have pc: "p < 65536" "c < 0x2000" by auto
  let ?c = "enc16 (c OR 0xe000)"
  have b: "pre @ pat_bytes (e # es) @ post = pre @ enc16 p @ ?c @ pat_bytes es @ post"
    by (simp add: pat_bytes_def e)
  have 1: "rd16 (pre @ enc16 p @ ?c @ pat_bytes es @ post) (length pre) = Some p"
    by (rule rd16_enc16 [OF pc(1)])
  have 2: "rd16 (pre @ enc16 p @ ?c @ pat_bytes es @ post) (length pre + 2) = Some (c OR 0xe000)"
    using rd16_enc16_shift [OF pid_marked(2) [OF pc(2)], of _ "pre @ enc16 p" "pat_bytes es @ post"]
    by simp
  have 3: "pat_entries (pre @ enc16 p @ ?c @ pat_bytes es @ post) (length pre + 4) (length es) = Some es"
    using Cons.IH [of "pre @ enc16 p @ ?c"] Cons.prems by (simp add: add.assoc)
  show ?case
    using 1 2 3 unfolding b by (simp add: e pid_marked(1) [OF pc(2)])
qed simp

lemma pat_entries_inside:
  "pos + 4 * n \<le> length pkt \<Longrightarrow> \<exists>es. pat_entries pkt pos n = Some es"
proof (induction n arbitrary: pos)
  case (Suc n)
  then obtain es where "pat_entries pkt (pos + 4) n = Some es" by fastforce
  with Suc.prems show ?case by (simp add: rd_simps)
qed simp

lemma rd16_bound:
  assumes "rd16 buf i = Some v"
  shows "v < 65536"
proof -
  obtain a b :: u8 where v: "v = push_bit 8 (ucast a) + ucast b" using assms by (auto simp: rd16_Some_iff)
  have "unat a < 256" "unat b < 256"
    using unsigned_less [of a, where ?'a = nat] unsigned_less [of b, where ?'a = nat] by simp_all
  then have "unat v < 65536"
    by (simp add: v push_bit_eq_mult unat_word_ariths unsigned_ucast_eq take_bit_nat_eq_self)
  then show ?thesis by (simp add: word_less_nat_alt)
qed

lemma pat_entries_bound:
  "pat_entries pkt pos n = Some es \<Longrightarrow> \<forall>(p, c) \<in> set es. p < 65536"
proof (induction n arbitrary: pos es)
  case (Suc n)
  then obtain prog child rest where "rd16 pkt pos = Some prog" "pat_entries pkt (pos + 4) n = Some rest"
    "es = (prog, child AND 0x1fff) # rest"
    by (auto simp: bind_eq_Some_conv)
  with Suc.IH [of "pos + 4" rest] rd16_bound [of pkt pos prog] show ?case by auto
qed simp

lemma pat_room_spec:
  assumes "pat_room s = Some (r, s')" and "pat_inv s"
  shows "r = Inr False \<and> pat s' = None \<and> pat_inv s' \<or>
    r = Inr True \<and> pat_inv s' \<and> pat_max s' \<ge> pat_use s \<and>
    pat s' = Some (if pat s \<noteq> None \<and> pat_use s < pat_max s then the (pat s)
       else replicate (unat (pat_max s')) 0)"
  using assms
  by (auto simp: pat_room_def cmd_iffs pat_inv_def not_le split: if_splits)

lemma pat_room_frame:
  assumes "pat_room s = Some (r, s')"
  shows "pat_use s' = pat_use s \<and> pat_tsid s' = pat_tsid s \<and> pmt_pid s' = pmt_pid s \<and>
    pat_curver s' = pat_curver s"
  using assms by (auto simp: pat_room_def cmd_iffs split: if_splits)

text \<open>Only a failing \<^verbatim>\<open>malloc\<close> keeps the array from being stored.\<close>

lemma pat_room_fails: "pat_room s = Some (Inr False, s') \<Longrightarrow> Ev_malloc False \<in> set (script (env s))"
  by (auto simp: pat_room_def cmd_iffs call_def malloc_def free_block_def
      split: if_splits list.splits os_event.splits)

lemma pat_apply_fails:
  assumes "pat_apply es s = Some (Inr True, s')"
  shows "Ev_malloc False \<in> set (script (env s))"
proof -
  let ?s0 = "s\<lparr>pat_use := pat_limit es + 1, pmt_pid := pat_pmt (pmt_pid s) es\<rparr>"
  from assms obtain s1 where "pat_room ?s0 = Some (Inr False, s1)"
    by (auto simp: pat_apply_def cmd_iffs split: if_splits)
  from pat_room_fails [OF this] show ?thesis by simp
qed

lemma pat_room_ok:
  assumes "script (env s) = Ev_malloc ok # es"
  shows "\<exists>q s'. pat_room s = Some (Inr q, s') \<and> (ok \<longrightarrow> q)"
  using assms
  by (auto simp: pat_room_def thenM_def io_simps call_def malloc_def free_block_def)

text \<open>What a table leaves behind under each program number, from the table and the state before.\<close>

definition pat_after :: "(u32 \<times> u32) list \<Rightarrow> mpgatsc \<Rightarrow> u32 \<Rightarrow> u32 option" where
  "pat_after es s p =
    (if p > pat_limit es then None
     else case map_of (rev es) p of Some c \<Rightarrow> Some c
     | None \<Rightarrow> Some (if pat s \<noteq> None \<and> pat_limit es + 1 < pat_max s then the (pat s) ! unat p else 0))"

lemma pat_stored:
  assumes "pat_store (pat_limit es + 1) es a = Some a'" and "pat s' = Some a'"
    and "pat_use s' = pat_limit es + 1" and "unat (pat_use s') \<le> length a"
    and "\<forall>(p, c) \<in> set es. p < 65536"
    and "a = (if pat s \<noteq> None \<and> pat_limit es + 1 < pat_max s then the (pat s) else replicate n 0)"
  shows "pat_lookup s' p = pat_after es s p" and "length a' = length a"
proof -
  have lim: "q < pat_limit es + 1 \<longleftrightarrow> q \<le> pat_limit es" for q
    using limit_step [OF assms(5)] by (simp add: word_less_nat_alt word_le_nat_alt less_Suc_eq_le)
  have "\<forall>(p, c) \<in> set es. p < pat_limit es + 1"
    using pat_limit_max lim by fastforce
  from pat_store_map [OF this, of a] assms(1,3,4) have
    st: "length a' = length a" "\<And>p. unat p < length a \<Longrightarrow>
      a' ! unat p = (case map_of (rev es) p of Some c \<Rightarrow> c | None \<Rightarrow> a ! unat p)" by auto
  show "length a' = length a" by (rule st)
  show "pat_lookup s' p = pat_after es s p"
  proof (cases "p \<le> pat_limit es")
    case True
    then have *: "p < pat_use s'" by (simp add: lim assms(3))
    then have l: "unat p < length a" using assms(4) by (simp add: word_less_nat_alt)
    have "pat_lookup s' p = Some (case map_of (rev es) p of Some c \<Rightarrow> c | None \<Rightarrow> a ! unat p)"
      by (simp add: pat_lookup_def assms(2) * st(2) [OF l])
    moreover have "\<not> pat_limit es < p" using True by simp
    ultimately show ?thesis using l
      by (cases "pat s \<noteq> None \<and> pat_limit es + 1 < pat_max s")
        (auto simp: pat_after_def assms(6) split: option.splits)
  qed (simp add: pat_lookup_def assms(2,3) pat_after_def lim not_less not_le)
qed

lemma pat_apply_spec:
  assumes "pat_apply es s = Some (r, s')" and inv: "pat_inv s" and es: "\<forall>(p, c) \<in> set es. p < 65536"
  shows "pat_inv s' \<and> pat_use s' = pat_limit es + 1 \<and> pmt_pid s' = pat_pmt (pmt_pid s) es \<and>
    pat_tsid s' = pat_tsid s \<and> pat_curver s' = pat_curver s \<and>
    (r = Inr True \<and> pat s' = None \<or> r = Inr False \<and> (\<forall>p. pat_lookup s' p = pat_after es s p))"
proof -
  let ?s0 = "s\<lparr>pat_use := pat_limit es + 1, pmt_pid := pat_pmt (pmt_pid s) es\<rparr>"
  have inv0: "pat_inv ?s0" using inv by (simp add: pat_inv_def)
  from assms(1) obtain q s1 where room: "pat_room ?s0 = Some (q, s1)" and
    rest: "q = Inr False \<and> r = Inr True \<and> s' = s1 \<or>
      (\<exists>arr. q = Inr True \<and> pat_store (pat_use s1) es (the (pat s1)) = Some arr \<and>
        r = Inr False \<and> s' = s1\<lparr>pat := Some arr\<rparr>) \<or> (\<exists>e. q = Inl e)"
    by (auto simp: pat_apply_def cmd_iffs split: if_splits)
  from pat_room_frame [OF room] have fr: "pat_use s1 = pat_limit es + 1" "pat_tsid s1 = pat_tsid s"
    "pmt_pid s1 = pat_pmt (pmt_pid s) es" "pat_curver s1 = pat_curver s" by auto
  let ?a = "if pat s \<noteq> None \<and> pat_limit es + 1 < pat_max s then the (pat s)
       else replicate (unat (pat_max s1)) 0"
  from pat_room_spec [OF room inv0]
  have "q = Inr False \<and> pat s1 = None \<and> pat_inv s1 \<or>
    q = Inr True \<and> pat_inv s1 \<and> pat_max s1 \<ge> pat_limit es + 1 \<and> pat s1 = Some ?a"
    by (cases "pat s \<noteq> None \<and> pat_limit es + 1 < pat_max s") auto
  then show ?thesis
  proof (elim disjE conjE)
    assume "q = Inr False" "pat s1 = None" "pat_inv s1"
    with rest fr show ?thesis by simp
  next
    assume q: "q = Inr True" "pat_inv s1" "pat_max s1 \<ge> pat_limit es + 1" and a: "pat s1 = Some ?a"
    from rest q(1) a fr(1) obtain arr where st: "pat_store (pat_limit es + 1) es ?a = Some arr"
      and r: "r = Inr False" "s' = s1\<lparr>pat := Some arr\<rparr>" by (auto simp only: option.sel)
    from q(2) a have la: "length ?a = unat (pat_max s1)" by (simp only: pat_inv_def)
    then have l: "unat (pat_use s') \<le> length ?a"
      using q(3) r(2) fr(1) by (simp add: word_le_nat_alt)
    have sa: "pat s' = Some arr" "pat_use s' = pat_limit es + 1" using r(2) fr(1) by simp_all
    from pat_stored [OF st sa l es refl]
    have lk: "pat_lookup s' p = pat_after es s p" "length arr = length ?a" for p by blast+
    have "pat_inv s'" using lk(2) la r(2) by (simp add: pat_inv_def)
    with r fr lk(1) show ?thesis by simp
  qed
qed

lemma pat_apply_defined:
  assumes "script (env s) = Ev_malloc ok # evs" and "pat_inv s" and "\<forall>(p, c) \<in> set es. p < 65536"
  shows "\<exists>r s'. pat_apply es s = Some (r, s') \<and> (ok \<longrightarrow> r = Inr False)"
proof -
  let ?s0 = "s\<lparr>pat_use := pat_limit es + 1, pmt_pid := pat_pmt (pmt_pid s) es\<rparr>"
  obtain q s1 where room: "pat_room ?s0 = Some (Inr q, s1)" and ok: "ok \<longrightarrow> q"
    using pat_room_ok [of ?s0 ok evs] assms(1) by auto
  from pat_room_frame [OF room] have u: "pat_use s1 = pat_limit es + 1" by simp
  have "pat_inv ?s0" using assms(2) by (simp add: pat_inv_def)
  note sp = pat_room_spec [OF room this]
  show ?thesis
  proof (cases q)
    case True
    with sp obtain a where "pat s1 = Some a" "unat (pat_use s1) \<le> length a"
      using u by (auto simp: pat_inv_def word_le_nat_alt)
    moreover have "\<forall>(p, c) \<in> set es. p < pat_use s1"
      using pat_limit_max [of _ _ es] limit_step [OF assms(3)] u
      by (fastforce simp: word_less_nat_alt word_le_nat_alt)
    ultimately obtain arr where "pat_store (pat_use s1) es (the (pat s1)) = Some arr"
      using pat_store_map [of es "pat_use s1" a] by auto
    with True show ?thesis by (simp add: pat_apply_def thenM_def io_simps room)
  qed (use ok room in \<open>simp add: pat_apply_def thenM_def io_simps\<close>)
qed

lemma pat_apply_runs:
  "script (env s) = Ev_malloc True # evs \<Longrightarrow> pat_inv s \<Longrightarrow> \<forall>(p, c) \<in> set es. p < 65536 \<Longrightarrow>
   \<exists>s'. pat_apply es s = Some (Inr False, s')"
  using pat_apply_defined by blast

text \<open>A table in its section, from the header to the entries.\<close>

lemma parse_pat_section:
  assumes "vb AND 1 \<noteq> 0" and "version_next (pat_curver s) (rx_version vb)" and "tsid < 65536"
    and "\<forall>(p, c) \<in> set es. p < 65536 \<and> c < 0x2000"
  shows "parse_pat (section_bytes 0 tsid vb (pat_bytes es) @ junk) (4 * length es + 12) s =
    pat_apply es (if tsid = 0 then s\<lparr>pat_curver := rx_version vb\<rparr>
      else s\<lparr>pat_curver := rx_version vb, pat_tsid := tsid\<rparr>)"
proof -
  let ?s = "section_bytes 0 tsid vb (pat_bytes es)"
  have hdr: "mpg_parse_hdr (?s @ junk) (4 * length es + 12) 0 0 (pat_curver s) 0 =
      Some \<lparr>bad = False, hpos = 8, hid = tsid, hver = rx_version vb\<rparr>"
    using section_bytes_hdr [OF assms(1-3), of 0 "pat_bytes es" junk 0] by simp
  obtain pre post where b: "?s = pre @ pat_bytes es @ post" "length pre = 8"
    by (rule that [of "[0, 0xb0 OR of_nat ((length (pat_bytes es) + 9) div 256),
          of_nat ((length (pat_bytes es) + 9) mod 256)] @ enc16 tsid @ [vb, 0, 0]"])
      (simp_all add: section_bytes_def Let_def)
  have ent: "pat_entries (?s @ junk) 8 (length es) = Some es"
    using pat_entries_bytes [OF assms(4), of pre "post @ junk"] b by simp
  have m: "(20 + 4 * length es) mod 4 = 0" "(4 + 4 * length es) div 4 - 1 = length es" by simp_all
  show ?thesis
    using hdr ent m by (simp add: parse_pat_def thenM_def io_simps add.commute)
qed

lemma pat_section_cases:
  assumes "pat_inv s" and "vb AND 1 \<noteq> 0" and "version_next (pat_curver s) (rx_version vb)" and "tsid < 65536"
    and "\<forall>(p, c) \<in> set es. p < 65536 \<and> c < 0x2000"
    and "parse_pat (section_bytes 0 tsid vb (pat_bytes es) @ junk) (4 * length es + 12) s = Some (r, s')"
  shows "pat_inv s' \<and> pat_curver s' = rx_version vb \<and> pat_tsid s' = (if tsid = 0 then pat_tsid s else tsid) \<and>
    pmt_pid s' = pat_pmt (pmt_pid s) es \<and>
    (r = Inr True \<and> pat s' = None \<and> Ev_malloc False \<in> set (script (env s)) \<or>
     r = Inr False \<and> (\<forall>p. pat_lookup s' p = pat_after es s p))"
proof -
  let ?s1 = "if tsid = 0 then s\<lparr>pat_curver := rx_version vb\<rparr>
    else s\<lparr>pat_curver := rx_version vb, pat_tsid := tsid\<rparr>"
  have es: "\<forall>(p, c) \<in> set es. p < 65536" using assms(5) by auto
  have inv: "pat_inv ?s1" using assms(1) by (simp add: pat_inv_def)
  have ap: "pat_apply es ?s1 = Some (r, s')"
    using assms(6) unfolding parse_pat_section [OF assms(2-5)] .
  have "pat ?s1 = pat s" "pat_max ?s1 = pat_max s" by simp_all
  then have a: "pat_after es ?s1 p = pat_after es s p" for p by (simp only: pat_after_def)
  have "env ?s1 = env s" by simp
  with ap have "r = Inr True \<Longrightarrow> Ev_malloc False \<in> set (script (env s))"
    using pat_apply_fails [of es ?s1 s'] by (simp only: simp_thms)
  with a pat_apply_spec [OF ap inv es] show ?thesis by auto
qed

text \<open>C24: A program association table that the program receives intact is stored as the map it
  encodes, a repeated program number with its last entry; a number below the largest that the
  table does not list keeps the entry of an earlier table if the array was large enough then,
  and is 0 otherwise. The stream's id and the version are those of the section.\<close>

theorem pat_section_received:
  assumes "pat_inv s" and "script (env s) = Ev_malloc True # evs"
    and "vb AND 1 \<noteq> 0" and "version_next (pat_curver s) (rx_version vb)" and "tsid < 65536"
    and "\<forall>(p, c) \<in> set es. p < 65536 \<and> c < 0x2000"
  shows "\<exists>s'. parse_pat (section_bytes 0 tsid vb (pat_bytes es) @ junk) (4 * length es + 12) s =
      Some (Inr False, s') \<and> pat_inv s' \<and>
    pat_curver s' = rx_version vb \<and> pat_tsid s' = (if tsid = 0 then pat_tsid s else tsid) \<and>
    pmt_pid s' = pat_pmt (pmt_pid s) es \<and> (\<forall>p. pat_lookup s' p = pat_after es s p)"
proof -
  let ?s1 = "if tsid = 0 then s\<lparr>pat_curver := rx_version vb\<rparr>
    else s\<lparr>pat_curver := rx_version vb, pat_tsid := tsid\<rparr>"
  have es: "\<forall>(p, c) \<in> set es. p < 65536" using assms(6) by auto
  have inv: "pat_inv ?s1" using assms(1) by (simp add: pat_inv_def)
  have sc: "script (env ?s1) = Ev_malloc True # evs" using assms(2) by simp
  obtain s' where "pat_apply es ?s1 = Some (Inr False, s')"
    using pat_apply_runs [OF sc inv es] by blast
  then have "parse_pat (section_bytes 0 tsid vb (pat_bytes es) @ junk) (4 * length es + 12) s =
      Some (Inr False, s')"
    unfolding parse_pat_section [OF assms(3-6)] .
  with pat_section_cases [OF assms(1,3-6) this] show ?thesis by auto
qed

theorem pat_section_received_witness:
  "\<exists>s'. parse_pat (section_bytes 0 0x17 0xc1 (pat_bytes [(0, 0x10), (3, 0x31)]) @ []) 20
     (new_mpgatsc \<lparr>script = [Ev_malloc True], trace = [], blocks = 0\<rparr>) = Some (Inr False, s') \<and>
     pat_lookup s' 3 = Some 0x31 \<and> pmt_pid s' = 0x31 \<and> pat_tsid s' = 0x17"
proof -
  have v: "rx_version 0xc1 = 0" by (simp add: rx_version_def)
  let ?s = "new_mpgatsc \<lparr>script = [Ev_malloc True], trace = [], blocks = 0\<rparr>"
  obtain s' where s': "parse_pat (section_bytes 0 0x17 0xc1 (pat_bytes [(0, 0x10), (3, 0x31)]) @ []) 20 ?s =
      Some (Inr False, s')" "pat_tsid s' = 0x17" "pmt_pid s' = pat_pmt 0 [(0, 0x10), (3, 0x31)]"
      "pat_lookup s' 3 = pat_after [(0, 0x10), (3, 0x31)] ?s 3"
    using pat_section_received [of ?s "[]" "0xc1" "0x17" "[(0, 0x10), (3, 0x31)]" "[]"]
    by (auto simp: new_mpgatsc_def pat_inv_def v version_next_def)
  moreover have "pat_pmt 0 [(0, 0x10), (3, 0x31)] = 0x31" by (simp add: pat_pmt_def)
  moreover have "pat_after [(0, 0x10), (3, 0x31)] ?s 3 = Some 0x31"
    by (simp add: pat_after_def pat_limit_def)
  ultimately show ?thesis by auto
qed

lemma mpg_hdr_defined:
  assumes "len \<le> length pkt" and "8 \<le> length pkt"
  shows "\<exists>h. mpg_parse_hdr pkt len 0 id0 ver t = Some h"
proof -
  have "long_hdr pkt len 3 ver \<noteq> None"
    using assms(2) by (simp add: long_hdr_def rd_simps Let_def)
  then obtain h where "long_hdr pkt len 3 ver = Some h" by blast
  moreover obtain crc where "4 \<le> len \<Longrightarrow> rd32 pkt (len - 4) = Some crc"
    using assms(1) by (cases "4 \<le> len") (auto simp: rd32_Some_iff)
  moreover obtain body where "4 \<le> len \<Longrightarrow> rd_slice pkt 0 (len - 4) = Some body"
    using assms(1) by (cases "4 \<le> len") (auto simp: rd_slice_Some_iff)
  moreover have "pkt \<noteq> []" using assms(2) by auto
  ultimately show ?thesis
    using assms by (cases "4 \<le> len") (simp_all add: mpg_parse_hdr_def rd_simps)
qed

lemma hdr_room:
  assumes "mpg_parse_hdr pkt len 0 id0 ver t = Some h" and "\<not> bad h"
  shows "(hpos h = 3 \<or> hpos h = 8) \<and> hpos h + 4 \<le> len \<and> len \<le> length pkt"
  using hdr_accepted_iff [OF assms(1)] mpg_hdr_steps [OF assms(1)] assms(2)
  by (auto split: if_splits)

lemma parse_pat_inside:
  assumes "len \<le> length pkt" and "8 \<le> length pkt" and "pat_inv s"
    and "script (env s) = Ev_malloc ok # evs"
  shows "\<exists>r s'. parse_pat pkt len s = Some (r, s') \<and> pat_inv s'"
proof -
  obtain h where h: "mpg_parse_hdr pkt len 0 0 (pat_curver s) 0 = Some h"
    using mpg_hdr_defined [OF assms(1,2)] by blast
  let ?s1 = "s\<lparr>pat_curver := hver h\<rparr>"
  let ?s2 = "if hid h \<noteq> 0 then ?s1\<lparr>pat_tsid := hid h\<rparr> else ?s1"
  have inv: "pat_inv ?s1" "pat_inv ?s2" using assms(3) by (auto simp: pat_inv_def)
  have two: "(if hid h \<noteq> 0 then put (\<lambda>s. s\<lparr>pat_tsid := hid h\<rparr>) else ret ()) ?s1 = Some (Inr (), ?s2)"
    by (simp add: io_simps)
  show ?thesis
  proof (cases "bad h \<or> (hpos h + len) mod 4 \<noteq> 0")
    case True
    then show ?thesis
      using h inv two by (cases "bad h") (auto simp: parse_pat_def thenM_def io_simps)
  next
    case False
    then have r: "hpos h + 4 \<le> len" using hdr_room [OF h] by simp
    then have "hpos h + 4 * ((len - hpos h) div 4 - 1) \<le> length pkt" using assms(1) by linarith
    then obtain es where es: "pat_entries pkt (hpos h) ((len - hpos h) div 4 - 1) = Some es"
      using pat_entries_inside by blast
    have sc: "script (env ?s2) = Ev_malloc ok # evs" using assms(4) by simp
    obtain r' s' where ap: "pat_apply es ?s2 = Some (r', s')"
      using pat_apply_defined [OF sc inv(2) pat_entries_bound [OF es]] by blast
    show ?thesis
      using False h two es ap pat_apply_spec [OF ap inv(2) pat_entries_bound [OF es]]
      by (simp add: parse_pat_def thenM_def io_simps)
  qed
qed

lemma parse_pmt_inside:
  assumes "len \<le> length pkt" and "8 \<le> length pkt" and "pat_inv s"
  shows "\<exists>r s'. parse_pmt pkt len s = Some (r, s') \<and> pat_inv s'"
proof -
  obtain h where h: "mpg_parse_hdr pkt len 0 0 (pmt_curver s) 2 = Some h"
    using mpg_hdr_defined [OF assms(1,2)] by blast
  show ?thesis
  proof (cases "bad h")
    case True
    with h assms(3) show ?thesis
      by (simp add: parse_pmt_def thenM_def io_simps pat_inv_def)
  next
    case False
    then have "hpos h + 1 < length pkt" using hdr_room [OF h] by auto
    with h False assms(3) show ?thesis
      by (simp add: parse_pmt_def thenM_def io_simps pat_inv_def rd_simps)
  qed
qed

lemma mgt_loop_inside:
  assumes "len + 11 \<le> length pkt" and "pos < len"
  shows "\<exists>r. mgt_loop pkt len n pos = Some r"
  using assms(2)
proof (induction n arbitrary: pos)
  case (Suc n)
  with assms(1) have i: "pos + 10 < length pkt" by simp
  obtain t where t: "rd16 pkt pos = Some t" using i by (simp add: rd_simps)
  obtain p where p: "rd16 pkt (pos + 2) = Some p" using i by (simp add: rd_simps)
  obtain dl where dl: "rd16 pkt (pos + 9) = Some dl" using i by (simp add: rd_simps)
  have r: "rd pkt (pos + 4) = Some (pkt ! (pos + 4))" "rd pkt (pos + 5) = Some (pkt ! (pos + 5))"
    using i by (simp_all add: rd_simps)
  let ?pos = "pos + 11 + unat (dl AND 0xfff)"
  have eq: "mgt_loop pkt len (Suc n) pos =
    (let out = (if mgt_unknown t (p AND 0x1fff) then [(t, p AND 0x1fff)] else []) in
     if ?pos \<ge> len then Some (True, out)
     else do { (r, rest) \<leftarrow> mgt_loop pkt len n ?pos; Some (r, out @ rest) })"
    by (simp only: mgt_loop.simps t p dl r Let_def Option.bind.bind_lunit)
  show ?case
  proof (cases "?pos \<ge> len")
    case False
    then obtain q where "mgt_loop pkt len n ?pos = Some q"
      using Suc.IH by (meson not_le)
    with False show ?thesis unfolding eq by (cases q) (simp add: Let_def)
  qed (simp only: eq Let_def if_True, blast)
qed (simp, blast)

lemma parse_psip_mgt_inside:
  assumes "len + 11 \<le> length pkt" and "8 \<le> length pkt" and "pat_inv s"
  shows "\<exists>r s'. parse_psip_mgt pkt len s = Some (r, s') \<and> pat_inv s'"
proof -
  have l: "len \<le> length pkt" and ne: "pkt \<noteq> []" using assms(1,2) by auto
  then obtain h where h: "mpg_parse_hdr pkt len 0 0 (mgt_curver s) (pkt ! 0) = Some h"
    using mpg_hdr_defined [OF l assms(2)] by blast
  show ?thesis
  proof (cases "bad h")
    case True
    with h ne assms(3) show ?thesis
      by (simp add: parse_psip_mgt_def atsc_parse_hdr_def thenM_def io_simps pat_inv_def rd_simps)
  next
    case False
    with hdr_room [OF h] have r: "hpos h + 4 \<le> len" by blast
    then have i: "hpos h < length pkt" "hpos h + 2 < length pkt" using l by auto
    obtain q where q: "parse_mgt pkt len (hpos h + 1) = Some q"
    proof (cases "hpos h + 3 < len")
      case True
      from mgt_loop_inside [OF assms(1) this] obtain q where
        "mgt_loop pkt len (unat (push_bit 8 (ucast (pkt ! (hpos h + 1))) + ucast (pkt ! (hpos h + 2)) :: u32))
           (hpos h + 3) = Some q" by blast
      with i that show ?thesis by (simp add: parse_mgt_def rd_simps numeral_eq_Suc)
    qed (use r in simp)
    with False h ne i(1) assms(3) show ?thesis
      by (cases q) (simp add: parse_psip_mgt_def atsc_parse_hdr_def thenM_def io_simps pat_inv_def rd_simps)
  qed
qed

lemma parse_tbl_inside:
  assumes "len \<le> length pkt" and "8 \<le> length pkt" and "pat_inv s"
    and "script (env s) = Ev_malloc ok # evs"
    and "pid \<noteq> 0x1ffb \<or> pkt ! 0 = 0xc7 \<and> len + 11 \<le> length pkt"
  shows "\<exists>r s'. parse_tbl iconv pkt len pid s = Some (r, s') \<and> pat_inv s'"
proof -
  consider "pid = 0" | "pid = 0x1ffb" "pkt ! 0 = 0xc7" "len + 11 \<le> length pkt" | "pid \<noteq> 0" "pid \<noteq> 0x1ffb"
    using assms(5) by blast
  then show ?thesis
  proof cases
    case 1
    then show ?thesis using parse_pat_inside [OF assms(1-4)] by (simp add: parse_tbl_def)
  next
    case 2
    moreover have "pkt \<noteq> []" using assms(2) by auto
    ultimately show ?thesis using parse_psip_mgt_inside [OF 2(3) assms(2,3)]
      by (simp add: parse_tbl_def io_simps rd_simps)
  next
    case 3
    then show ?thesis using parse_pmt_inside [OF assms(1-3)] assms(3)
      by (simp add: parse_tbl_def io_simps)
  qed
qed

text \<open>C4: Every section on a PID other than that of the PSIP tables, of whatever bytes, is handled
  inside its buffer: no read and no store of the array of programs is out of bounds, and the
  array keeps its size. The same holds for a master guide table with eleven bytes of the
  buffer behind it, however large the number of its entries claims to be.\<close>

theorem tables_stay_inside:
  assumes "len \<le> length pkt" and "8 \<le> length pkt" and "pat_inv s"
    and "script (env s) = Ev_malloc ok # evs"
    and "pid \<noteq> 0x1ffb \<or> pkt ! 0 = 0xc7 \<and> len + 11 \<le> length pkt"
  shows "\<exists>r s'. parse_tbl iconv pkt len pid s = Some (r, s') \<and> pat_inv s'"
  by (rule parse_tbl_inside [OF assms])

theorem tables_stay_inside_witness:
  "\<exists>r s'. parse_tbl (\<lambda>_. (True, [])) (replicate 8 0xff) 8 0
     (new_mpgatsc \<lparr>script = [Ev_malloc False], trace = [], blocks = 0\<rparr>) = Some (r, s') \<and> pat_inv s'"
  by (rule tables_stay_inside [where ok = False and evs = "[]"]) (simp_all add: new_mpgatsc_def pat_inv_def)

subsection \<open>Descriptors and channel names\<close>

definition desc_bytes :: "(u8 \<times> u8 list) list \<Rightarrow> u8 list" where
  "desc_bytes ds = concat (map (\<lambda>(t, d). t # of_nat (length d) # d) ds)"

lemma descriptors_forward:
  assumes "\<forall>(t, d) \<in> set ds. length d < 256" and "length (desc_bytes ds) + k < 2 ^ 32" and "k < 2"
  shows "parse_descriptors (pre @ desc_bytes ds @ post) (length pre) (of_nat (length (desc_bytes ds) + k)) =
    Some (of_nat k)"
  using assms
proof (induction ds arbitrary: pre)
  case Nil
  then show ?case
    by (subst parse_descriptors.simps) (auto simp: desc_bytes_def word_less_nat_alt unsigned_of_nat take_bit_nat_eq_self)
next
  case (Cons e ds)
  obtain t d where e: "e = (t, d)" by force
  with Cons.prems have d: "length d < 256" by simp
  let ?n = "length (desc_bytes ds) + k"
  have len: "length (desc_bytes (e # ds)) = 2 + length d + length (desc_bytes ds)"
    and bytes: "desc_bytes (e # ds) = t # of_nat (length d) # d @ desc_bytes ds"
    by (simp_all add: desc_bytes_def e)
  have un: "unat (of_nat (length d) :: u8) = length d" using d by (simp add: unsigned_of_nat take_bit_nat_eq_self)
  have uc: "ucast (of_nat (length d) :: u8) = (of_nat (length d) :: u32)"
    using d by (simp add: word_unat_eq_iff un unsigned_ucast_eq unsigned_of_nat take_bit_nat_eq_self)
  have ge: "\<not> (of_nat (2 + length d + ?n) :: u32) < 2"
  proof -
    have "unat (of_nat (2 + length d + ?n) :: u32) = 2 + length d + ?n"
      using Cons.prems(2) len by (simp only: unsigned_of_nat) (simp add: take_bit_nat_eq_self)
    then show ?thesis unfolding word_less_nat_alt by simp
  qed
  have "parse_descriptors ((pre @ [t, of_nat (length d)] @ d) @ desc_bytes ds @ post)
      (length (pre @ [t, of_nat (length d)] @ d)) (of_nat ?n) = Some (of_nat k)"
    using Cons.prems len by (intro Cons.IH) auto
  moreover have "(of_nat (2 + length d + ?n) :: u32) - 2 - of_nat (length d) = of_nat ?n" by simp
  ultimately show ?case
    using ge
    by (subst parse_descriptors.simps)
      (simp add: len bytes rd_simps nth_append un uc add.assoc add.left_commute)
qed

text \<open>Once the length has wrapped, the loop reads past the buffer whatever it holds.\<close>

lemma descriptors_run_away:
  assumes "length pkt + 512 \<le> pos + unat len" and "pos \<le> length pkt + 257"
  shows "parse_descriptors pkt pos len = None"
  using assms
proof (induction pkt pos len rule: parse_descriptors.induct)
  case (1 pkt pos len)
  have ge: "\<not> len < 2" using 1(2,3) by (simp add: word_less_nat_alt)
  show ?case
  proof (cases "pos + 1 < length pkt")
    case False
    then show ?thesis using ge by (subst parse_descriptors.simps) (auto simp: rd_def)
  next
    case True
    let ?d = "pkt ! (pos + 1)"
    have d: "unat ?d < 256" using unsigned_less [of ?d, where ?'a = nat] by simp
    have "unat len \<ge> 258" using 1(2,3) True by linarith
    then have "unat (len - 2 - ucast ?d) = unat len - 2 - unat ?d"
      using d by (simp add: unat_sub_if' unsigned_ucast_eq take_bit_nat_eq_self)
    then have "parse_descriptors pkt (pos + 2 + unat ?d) (len - 2 - ucast ?d) = None"
      using 1(1) [OF ge] True 1(2,3) d by (auto simp: rd_simps)
    with ge True show ?thesis by (subst parse_descriptors.simps) (simp add: rd_simps)
  qed
qed

text \<open>The loop over a list of descriptors that is as long as its length field says consumes them
  all, whatever their types, and leaves a single byte behind them unread.\<close>

theorem descriptors_skipped:
  assumes "\<forall>(t, d) \<in> set ds. length d < 256" and "length (desc_bytes ds) + k < 2 ^ 32" and "k < 2"
  shows "parse_descriptors (pre @ desc_bytes ds @ post) (length pre) (of_nat (length (desc_bytes ds) + k)) =
    Some (of_nat k)"
  by (rule descriptors_forward [OF assms])

theorem descriptors_skipped_witness:
  "parse_descriptors ([7] @ desc_bytes [(0xa0, [1, 2, 3]), (0x80, [])] @ [9]) 1 8 = Some 1"
  using descriptors_skipped [of "[(0xa0, [1, 2, 3]), (0x80, [])]" 1 "[7]" "[9]"]
  by (simp add: desc_bytes_def)

text \<open>C28: A descriptor that claims more bytes than its list has left makes the unsigned length wrap:
  the loop then reads past the end of the buffer, whatever the buffer holds.\<close>

theorem bad_descriptor_overruns:
  assumes "2 \<le> len" and "pos + 1 < length pkt" and "length pkt \<le> 0x1003"
    and "unat len < 2 + unat (pkt ! (pos + 1))"
  shows "parse_descriptors pkt pos len = None"
proof -
  define d where "d = pkt ! (pos + 1)"
  have r: "rd pkt pos = Some (pkt ! pos)" "rd pkt (pos + 1) = Some d"
    using assms(2) by (simp_all add: rd_simps d_def)
  have d: "unat d < 256" using unsigned_less [of d, where ?'a = nat] by simp
  have two: "unat (len - 2) = unat len - 2" using assms(1) by (simp add: unat_sub)
  have u: "unat (ucast d :: u32) = unat d"
    using d by (simp add: unsigned_ucast_eq take_bit_nat_eq_self)
  have l: "2 \<le> unat len" "unat len < 2 + unat d"
    using assms(1,4) by (simp_all add: word_le_nat_alt d_def)
  then have wrap: "unat (len - 2 - ucast d) = 2 ^ 32 + (unat len - 2) - unat d"
    by (simp add: unat_sub_if' two u)
  have "parse_descriptors pkt (pos + 2 + unat d) (len - 2 - ucast d) = None"
    by (rule descriptors_run_away) (use wrap d assms(2,3) l in auto)
  moreover have "\<not> len < 2" using assms(1) by simp
  ultimately show ?thesis
    using r by (subst parse_descriptors.simps) simp
qed

theorem bad_descriptor_overruns_witness:
  "parse_descriptors [0xa0, 3, 1, 2, 0, 0, 0, 0, 0, 0, 0, 0] 0 4 = None"
  using bad_descriptor_overruns [of 4 0 "[0xa0, 3, 1, 2, 0, 0, 0, 0, 0, 0, 0, 0]"] by simp

lemma length_vct_line: "length (vct_line tvch ch_no m name) \<le> 256"
  by (simp add: vct_line_def Let_def)

lemma vct_loop_length:
  "vct_loop iconv tvch snl pkt len n pos str = Some str' \<Longrightarrow> length str' \<le> length str + 256 * n"
proof (induction n arbitrary: pos str)
  case (Suc n)
  from Suc.prems obtain shortname c0 c1 c2 m dl r where eq:
    "(let pos = pos + snl * 2;
        ch_no = (push_bit 16 (ucast (c0 :: u8)) + push_bit 8 (ucast (c1 :: u8)) + ucast (c2 :: u8)) AND 0xfffff;
        str = str @ vct_line tvch ch_no m (shortname_ascii (iconv shortname));
        pos = pos + 18 + unat ((dl :: u32) AND 0x3ff)
      in if pos > len then Some str else vct_loop iconv tvch snl pkt len n pos str) = Some str'"
    by (auto simp only: vct_loop.simps bind_eq_Some_conv Let_def)
  define str1 where "str1 = str @ vct_line tvch
    ((push_bit 16 (ucast c0) + push_bit 8 (ucast c1) + ucast c2) AND 0xfffff) m (shortname_ascii (iconv shortname))"
  define pos1 where "pos1 = pos + snl * 2 + 18 + unat (dl AND 0x3ff)"
  from eq have "(if pos1 > len then Some str1 else vct_loop iconv tvch snl pkt len n pos1 str1) = Some str'"
    by (simp only: Let_def str1_def pos1_def)
  moreover have "length str1 \<le> length str + 256" unfolding str1_def
    using length_vct_line by (simp add: add_left_mono)
  ultimately show ?case using Suc.IH [of pos1 str1] by (cases "pos1 > len") auto
qed simp

lemma vct_text_bound:
  assumes "parse_vct iconv pkt len pos snl s = Some (r, s')"
  shows "r = Inr True \<and> vctstr s' = None \<and> vctstr s = None \<or>
    (\<exists>str. r = Inr False \<and> vctstr s' = Some str \<and> length str + 1 \<le> 65536)"
proof -
  have "length str \<le> 65280" if "vct_loop iconv tv snl pkt len (unat c) p [] = Some str"
    for tv str p and c :: u8
    using vct_loop_length [OF that] unsigned_less [of c, where ?'a = nat] by simp
  then have *: "length str \<le> 65535" if "vct_loop iconv tv snl pkt len (unat c) p [] = Some str"
    for tv str p and c :: u8
    using that by fastforce
  with assms show ?thesis
    by (auto simp: parse_vct_def cmd_iffs dest: * split: if_splits)
qed

text \<open>C27: The text of the channel table fits into the 65536 bytes allocated for it, its terminator
  included, whatever the section holds and however \<^verbatim>\<open>iconv\<close> converts the names.\<close>

theorem vct_text_fits:
  assumes "parse_vct iconv pkt len pos snl s = Some (r, s')"
  shows "r = Inr True \<and> vctstr s' = None \<and> vctstr s = None \<or>
    (\<exists>str. r = Inr False \<and> vctstr s' = Some str \<and> length str + 1 \<le> 65536)"
  by (rule vct_text_bound [OF assms])

theorem vct_text_fits_witness:
  "\<exists>r s'. parse_vct (\<lambda>_. (True, ''KQED'')) ([1] @ replicate 14 0 @ [0, 0x24, 1, 4] @ replicate 30 0) 40 0 7
     (new_mpgatsc \<lparr>script = [Ev_malloc True], trace = [], blocks = 0\<rparr>) = Some (r, s') \<and>
   vctstr s' = Some (''  0  9.1 '' @ [CHR 0x22] @ ''KQED'' @ [CHR 0x22, CHR 0x0A])"
proof -
  let ?m = "parse_vct (\<lambda>_. (True, ''KQED'')) ([1] @ replicate 14 0 @ [0, 0x24, 1, 4] @ replicate 30 0) 40 0 7
     (new_mpgatsc \<lparr>script = [Ev_malloc True], trace = [], blocks = 0\<rparr>)"
  have e: "map_option (\<lambda>x. vctstr (snd x)) ?m = Some (Some (''  0  9.1 '' @ [CHR 0x22] @ ''KQED'' @ [CHR 0x22, CHR 0x0A]))"
    by code_simp
  then obtain r s' where m: "?m = Some (r, s')" by (cases ?m) auto
  from vct_text_fits [OF m] m e show ?thesis by auto
qed

lemma rx_version_small: "rx_version b \<noteq> 32"
proof
  assume "rx_version b = 32"
  then have "bit (rx_version b) 5" by simp
  then have "bit (b AND 0x2f) 6" by (simp add: rx_version_def bit_simps)
  then show False unfolding bit_and_iff by (simp add: bit_numeral_rec)
qed

lemma repeated_header:
  assumes "mpg_parse_hdr pkt len 0 id0 ver tblid = Some h" and "\<not> bad h" and "long_section pkt"
    and "mpg_parse_hdr pkt len 0 id0 (hver h) tblid = Some h'"
  shows "bad h' \<and> hpos h' = 0 \<and> hver h' = hver h"
proof -
  have v: "hver h = rx_version (pkt ! 5)" and cur: "pkt ! 5 AND 1 \<noteq> 0"
    using hdr_accepted_iff [OF assms(1)] assms(2,3) by auto
  from mpg_hdr_steps [OF assms(4)] hdr_accepted_iff [OF assms(1)] assms(2,3) obtain h1 where
    h1: "long_hdr pkt len 3 (hver h) = Some h1"
    and h': "h' = (if \<not> bad h1 \<and> hpos h1 + 4 > len then h1\<lparr>bad := True\<rparr> else h1)"
    by auto
  from h1 have "bad h1 \<and> hpos h1 = 0 \<and> hver h1 = hver h"
    using v cur rx_version_small [of "pkt ! 5"]
    by (auto simp: long_hdr_def bind_eq_Some_conv rd_Some_iff Let_def split: if_splits)
  with h' show ?thesis by simp
qed

text \<open>A table that was accepted is parsed once: its repetition, which broadcasters send several
  times a second, changes nothing.\<close>

theorem repeated_table_ignored:
  assumes "mpg_parse_hdr pkt len 0 0 ver tblid = Some h" and "\<not> bad h" and "long_section pkt"
  shows "(tblid = 0 \<and> pat_curver s = hver h \<longrightarrow> parse_pat pkt len s = Some (Inr False, s)) \<and>
    (tblid = 2 \<and> pmt_curver s = hver h \<longrightarrow> parse_pmt pkt len s = Some (Inr False, s))"
proof -
  have "len \<le> length pkt" "8 \<le> length pkt"
    using hdr_room [OF assms(1,2)] hdr_accepted_iff [OF assms(1)] assms(2,3) by auto
  from mpg_hdr_defined [OF this] obtain h' where h': "mpg_parse_hdr pkt len 0 0 (hver h) tblid = Some h'"
    by blast
  from repeated_header [OF assms h'] h' show ?thesis
    by (auto simp: parse_pat_def parse_pmt_def thenM_def io_simps)
qed

theorem repeated_table_ignored_witness:
  "let s = (new_mpgatsc \<lparr>script = [], trace = [], blocks = 0\<rparr>)\<lparr>pmt_curver := 1\<rparr> in
   parse_pmt (section_bytes 2 3 0xc3 [0xe0, 0x31, 0xf0, 0] @ []) 16
     s = Some (Inr False, s)"
proof -
  have v: "rx_version 0xc3 = 1" by (simp add: rx_version_def)
  have h: "mpg_parse_hdr (section_bytes 2 3 0xc3 [0xe0, 0x31, 0xf0, 0] @ []) 16 0 0 32 2 =
      Some \<lparr>bad = False, hpos = 8, hid = 3, hver = 1\<rparr>"
    using section_bytes_hdr [of "0xc3" 32 3 2 "[0xe0, 0x31, 0xf0, 0]" "[]" 0]
    by (simp add: v version_next_def)
  have l: "long_section (section_bytes 2 3 0xc3 [0xe0, 0x31, 0xf0, 0] @ [])"
    by (simp add: long_section_def section_bytes_def Let_def)
  from repeated_table_ignored [OF h _ l, of "(new_mpgatsc \<lparr>script = [], trace = [], blocks = 0\<rparr>)\<lparr>pmt_curver := 1\<rparr>"] show ?thesis by simp
qed

end
