(* ===== verification/Sez_Demux.thy ===== *)
theory Sez_Demux
  imports Sez_Tables
begin

text \<open>
  The demultiplexer of \<^verbatim>\<open>mpgatsc.cpp\<close>: \<^verbatim>\<open>init\<close>, the destructor, \<^verbatim>\<open>open_dump\<close> and
  \<^verbatim>\<open>thread_demux\<close>, which takes one packet of 188 bytes, collects the sections of each PID in a
  buffer of its own and hands a complete section to \<^verbatim>\<open>parse_tbl\<close>. The memory that \<^verbatim>\<open>malloc\<close> returns has
  an arbitrary content, the parameter \<open>fresh\<close>.
\<close>

subsection \<open>Life cycle\<close>

definition max_pkt_len :: nat where
  "max_pkt_len = 0x1003"

text \<open>\<^verbatim>\<open>iconv_hnd\<close> is 0 when closed, 1 for a conversion, and -1 after \<^verbatim>\<open>iconv_open\<close> failed.\<close>

definition open_iconv :: "bool atsc_cmd" where
  "open_iconv =
    bindM (look iconv_hnd) (\<lambda>h.
    if h \<noteq> 0 then ret True
    else
      bindM (call ask_ok) (\<lambda>ok.
      thenM (put (\<lambda>s. s\<lparr>iconv_hnd := (if ok then 1 else - 1)\<rparr>)) (ret ok)))"

definition free_vct :: "unit atsc_cmd" where
  "free_vct =
    bindM (look vctstr) (\<lambda>v.
    if v \<noteq> None then thenM (call free_block) (put (\<lambda>s. s\<lparr>vctstr := None\<rparr>)) else ret ())"

definition close_dump :: "unit atsc_cmd" where
  "close_dump = thenM (call (act Dump_closed)) (put (\<lambda>s. s\<lparr>dumpfile := False\<rparr>))"

text \<open>The dump is closed only if bytes have been written to it, \<^verbatim>\<open>lseek64\<close> tells.\<close>

definition restart_dump :: "unit atsc_cmd" where
  "restart_dump =
    bindM (look dumpfile) (\<lambda>d.
    if d then
      bindM (call ask_num) (\<lambda>pos.
      if pos \<noteq> 0 then thenM (put (\<lambda>s. s\<lparr>dumpfilename := []\<rparr>)) close_dump else ret ())
    else ret ())"

text \<open>The value of \<^verbatim>\<open>init\<close>: whether it returns 1.\<close>

definition atsc_init :: "bool atsc_cmd" where
  "atsc_init =
    bindM open_iconv (\<lambda>ok.
    if \<not> ok then ret True
    else
      thenM (put (\<lambda>s. s\<lparr>pktlen := (\<lambda>_. 0), pat_curver := 32, pat_tsid := 0, pmt_pid := 0,
        pmt_curver := 32, pcr_pid := 0, mgt_curver := 32, vct_curver := 32, pat_use := 0\<rparr>))
      (thenM free_vct (thenM restart_dump (ret False))))"

definition free_buf :: "u32 \<Rightarrow> unit atsc_cmd" where
  "free_buf i =
    bindM (look (\<lambda>s. pktlist s i)) (\<lambda>b.
    if b \<noteq> None then
      thenM (call free_block)
        (put (\<lambda>s. s\<lparr>pktlist := (pktlist s)(i := None), pktlen := (pktlen s)(i := 0)\<rparr>))
    else ret ())"

fun free_bufs :: "u32 list \<Rightarrow> unit atsc_cmd" where
  "free_bufs [] = ret ()"
| "free_bufs (i # is) = thenM (free_buf i) (free_bufs is)"

definition pids :: "u32 list" where
  "pids = map of_nat [0..<0x2000]"

definition free_pat :: "unit atsc_cmd" where
  "free_pat =
    bindM (look pat) (\<lambda>p.
    if p \<noteq> None then
      thenM (call free_block) (put (\<lambda>s. s\<lparr>pat := None, pat_use := 0, pat_max := 0\<rparr>))
    else ret ())"

definition atsc_destroy :: "unit atsc_cmd" where
  "atsc_destroy =
    thenM free_vct
    (thenM free_pat
    (thenM (free_bufs pids)
    (thenM (put (\<lambda>s. s\<lparr>iconv_hnd := 0\<rparr>))
    (bindM (look dumpfile) (\<lambda>d. if d then close_dump else ret ())))))"

definition open_dump :: "string \<Rightarrow> bool atsc_cmd" where
  "open_dump filename =
    thenM (put (\<lambda>s. s\<lparr>dumpfilename := take 255 filename\<rparr>))
    (bindM (call ask_ok) (\<lambda>ok.
    thenM (put (\<lambda>s. s\<lparr>dumpfile := ok\<rparr>)) (ret (\<not> ok))))"

subsection \<open>One transport packet\<close>

definition dump_packet :: "u8 list \<Rightarrow> unit atsc_cmd" where
  "dump_packet pkt =
    bindM (look dumpfile) (\<lambda>d.
    if d then
      thenM (call (act (Dumped pkt)))
      (bindM (call ask_num) (\<lambda>n. if n \<noteq> 188 then close_dump else ret ()))
    else ret ())"

text \<open>\<^verbatim>\<open>memcpy\<close> into the buffer of a PID; \<open>None\<close> is a store outside it.\<close>

definition put_slice :: "u8 list \<Rightarrow> nat \<Rightarrow> u8 list \<Rightarrow> u8 list option" where
  "put_slice buf i xs =
    (if i + length xs \<le> length buf then Some (take i buf @ xs @ drop (i + length xs) buf) else None)"

definition store :: "u32 \<Rightarrow> nat \<Rightarrow> u8 list \<Rightarrow> unit atsc_cmd" where
  "store pid i xs =
    bindM (look (\<lambda>s. pktlist s pid)) (\<lambda>b.
    bindM (need (do { buf \<leftarrow> b; put_slice buf i xs })) (\<lambda>buf.
    put (\<lambda>s. s\<lparr>pktlist := (pktlist s)(pid := Some buf)\<rparr>)))"

definition set_pktlen :: "u32 \<Rightarrow> nat \<Rightarrow> unit atsc_cmd" where
  "set_pktlen pid n = put (\<lambda>s. s\<lparr>pktlen := (pktlen s)(pid := n)\<rparr>)"

text \<open>The two halves of the \<^verbatim>\<open>if\<close> on the unit start flag; \<open>Some\<close> is an early return.\<close>

definition buf_room :: "(nat \<Rightarrow> u8) \<Rightarrow> u32 \<Rightarrow> bool atsc_cmd" where
  "buf_room fresh pid =
    bindM (look (\<lambda>s. pktlist s pid)) (\<lambda>b.
    if b = None then
      bindM (call malloc) (\<lambda>ok.
      if ok then
        thenM (put (\<lambda>s. s\<lparr>pktlist := (pktlist s)(pid := Some (map fresh [0..<max_pkt_len]))\<rparr>))
          (ret True)
      else ret False)
    else ret True)"

definition start_at :: "(nat \<Rightarrow> u8) \<Rightarrow> u8 list \<Rightarrow> u32 \<Rightarrow> nat \<Rightarrow> bool option atsc_cmd" where
  "start_at fresh pkt pid pos =
    (if pos \<ge> 188 then thenM (set_pktlen pid 0) (ret (Some False))
     else
      bindM (buf_room fresh pid) (\<lambda>ok.
      if \<not> ok then thenM (set_pktlen pid 0) (ret (Some True))
      else
        thenM (set_pktlen pid (188 - pos))
        (bindM (need (rd_slice pkt pos (188 - pos))) (\<lambda>xs.
        thenM (store pid 0 xs) (ret None)))))"

definition unit_start :: "(nat \<Rightarrow> u8) \<Rightarrow> u8 list \<Rightarrow> u32 \<Rightarrow> nat \<Rightarrow> bool option atsc_cmd" where
  "unit_start fresh pkt pid pos =
    bindM (need (rd pkt pos)) (\<lambda>ptr. start_at fresh pkt pid (pos + unat ptr + 1))"

definition unit_continue :: "u8 list \<Rightarrow> u32 \<Rightarrow> nat \<Rightarrow> bool option atsc_cmd" where
  "unit_continue pkt pid pos =
    bindM (look (\<lambda>s. s)) (\<lambda>s.
    if pktlist s pid = None then ret None
    else if pktlen s pid = 0 then ret (Some False)
    else
      let n = pktlen s pid;
          big = n + (188 - pos) \<ge> max_pkt_len;
          len = (if big then unat (of_nat max_pkt_len - of_nat n :: u32) else 188 - pos)
      in
      if big \<and> len = 0 then ret (Some False)
      else
        bindM (need (rd_slice pkt pos len)) (\<lambda>xs.
        thenM (store pid n xs) (thenM (set_pktlen pid (n + len)) (ret None))))"

text \<open>A complete section is parsed; further bytes are dropped until the next unit start.\<close>

definition section_len :: "u8 list \<Rightarrow> nat option" where
  "section_len buf = do { n \<leftarrow> rd16 buf 1; Some (unat ((n AND 0xfff) + 3)) }"

definition deliver :: "(u32 list \<Rightarrow> bool \<times> string) \<Rightarrow> u32 \<Rightarrow> bool atsc_cmd" where
  "deliver iconv pid =
    bindM (look (\<lambda>s. s)) (\<lambda>s.
    if pktlen s pid = 0 then ret False
    else
      bindM (need (pktlist s pid)) (\<lambda>buf.
      bindM (need (section_len buf)) (\<lambda>slen.
      if pktlen s pid \<ge> slen then
        bindM (parse_tbl iconv buf slen pid) (\<lambda>r. thenM (set_pktlen pid 0) (ret False))
      else ret False)))"

definition pkt_pid :: "u8 list \<Rightarrow> u32 option" where
  "pkt_pid pkt = do { p \<leftarrow> rd16 pkt 1; Some (p AND 0x1fff) }"

text \<open>Where the payload starts, behind the adaptation field if there is one.\<close>

definition payload_pos :: "u8 list \<Rightarrow> nat option" where
  "payload_pos pkt = do { b3 \<leftarrow> rd pkt 3;
     if b3 AND 0x20 \<noteq> 0 then do { a \<leftarrow> rd pkt 4; Some (4 + unat a + 1) } else Some 4 }"

definition thread_demux :: "(u32 list \<Rightarrow> bool \<times> string) \<Rightarrow> (nat \<Rightarrow> u8) \<Rightarrow> u8 list \<Rightarrow> bool atsc_cmd" where
  "thread_demux iconv fresh pkt =
    bindM (need (rd pkt 0)) (\<lambda>sync.
    if sync \<noteq> 0x47 then ret True
    else
      bindM (need (rd pkt 1)) (\<lambda>b1.
      if b1 AND 0x80 \<noteq> 0 then ret False
      else
        thenM (dump_packet pkt)
        (bindM (need (pkt_pid pkt)) (\<lambda>pid.
        bindM (need (payload_pos pkt)) (\<lambda>pos.
        if pos \<ge> 188 then ret False
        else
          bindM (if b1 AND 0x40 \<noteq> 0 then unit_start fresh pkt pid pos else unit_continue pkt pid pos)
            (\<lambda>stop. case stop of Some r \<Rightarrow> ret r | None \<Rightarrow> deliver iconv pid))))))"

subsection \<open>Invariant\<close>

text \<open>Every buffer has its full size, and no more bytes are counted than it holds.\<close>

definition demux_inv :: "mpgatsc \<Rightarrow> bool" where
  "demux_inv s \<longleftrightarrow> pat_inv s \<and>
    (\<forall>pid b. pktlist s pid = Some b \<longrightarrow> length b = max_pkt_len \<and> pktlen s pid \<le> max_pkt_len) \<and>
    (\<forall>pid. pktlist s pid = None \<longrightarrow> pktlen s pid = 0)"

text \<open>What parsing a table leaves alone: the buffers and how much they hold.\<close>

definition same_bufs :: "mpgatsc \<Rightarrow> mpgatsc \<Rightarrow> bool" where
  "same_bufs s s' \<longleftrightarrow> pktlist s' = pktlist s \<and> pktlen s' = pktlen s"

interpretation bufs: state_order same_bufs
  by unfold_locales (simp_all add: same_bufs_def)

lemma bufs_prims [intro!, simp]:
  "keeps same_bufs (look f)" "keeps same_bufs (need v)" "keeps same_bufs (call m)"
  by (auto simp: keeps_def same_bufs_def call_def split: option.splits)

lemma bufs_put: "(\<And>s. same_bufs s (f s)) \<Longrightarrow> keeps same_bufs (put f)"
  by (simp add: keeps_def)

lemma bufs_parse_tbl: "keeps same_bufs (parse_tbl iconv pkt len pid)"
  unfolding parse_tbl_def parse_pat_def pat_apply_def pat_room_def parse_psip_mgt_def
    parse_psip_vct_def parse_vct_def parse_pmt_def
  by (auto intro!: bufs.keeps_intros bufs_put simp: same_bufs_def split: prod.splits)

text \<open>The size of the array of programs is right after every table.\<close>

definition pat_kept :: "mpgatsc \<Rightarrow> mpgatsc \<Rightarrow> bool" where
  "pat_kept s s' \<longleftrightarrow> (pat_inv s \<longrightarrow> pat_inv s')"

interpretation patk: state_order pat_kept
  by unfold_locales (simp_all add: pat_kept_def)

lemma patk_prims [intro!, simp]:
  "keeps pat_kept (look f)" "keeps pat_kept (need v)" "keeps pat_kept (call m)"
  by (auto simp: keeps_def pat_kept_def pat_inv_def call_def split: option.splits)

lemma patk_put: "(\<And>s. pat s = pat (f s) \<and> pat_max s = pat_max (f s)) \<Longrightarrow> keeps pat_kept (put f)"
  by (simp add: keeps_def pat_kept_def pat_inv_def)

lemma patk_entries: "keeps pat_kept (bindM (need (pat_entries pkt pos n)) pat_apply)"
  unfolding keeps_def pat_kept_def bindM_Some_iff
  using pat_apply_spec pat_entries_bound by fastforce

lemma patk_parse_tbl: "keeps pat_kept (parse_tbl iconv pkt len pid)"
  unfolding parse_tbl_def parse_pat_def parse_psip_mgt_def parse_psip_vct_def parse_vct_def parse_pmt_def
  by (auto intro!: patk.keeps_intros patk_put patk_entries split: prod.splits)

text \<open>The events the system still holds are among those it held before.\<close>

definition fewer :: "mpgatsc \<Rightarrow> mpgatsc \<Rightarrow> bool" where
  "fewer s s' \<longleftrightarrow> set (script (env s')) \<subseteq> set (script (env s))"

interpretation few: state_order fewer
  by unfold_locales (auto simp: fewer_def)

lemma few_prims [intro!, simp]:
  "keeps fewer (look f)" "keeps fewer (need v)"
  by (auto simp: keeps_def fewer_def split: option.splits)

lemma few_put: "(\<And>s. env (f s) = env s) \<Longrightarrow> keeps fewer (put f)"
  by (simp add: keeps_def fewer_def)

lemma few_call: "keeps extends m \<Longrightarrow> keeps fewer (call m)"
  by (fastforce simp: keeps_def fewer_def call_def extends_def split: option.splits)

lemmas few_calls [intro!, simp] = keeps_extends_calls [THEN few_call]

lemma few_start_at: "keeps fewer (start_at fresh pkt pid pos)"
  unfolding start_at_def buf_room_def store_def set_pktlen_def
  by (auto intro!: few.keeps_intros few_put)

lemma few_start: "keeps fewer (unit_start fresh pkt pid pos)"
  unfolding unit_start_def by (auto intro!: few.keeps_intros few_start_at)

lemma few_continue: "keeps fewer (unit_continue pkt pid pos)"
  unfolding unit_continue_def store_def set_pktlen_def Let_def
  by (auto intro!: few.keeps_intros few_put)

lemma few_dump: "keeps fewer (dump_packet pkt)"
  unfolding dump_packet_def close_dump_def by (auto intro!: few.keeps_intros few_put)

lemma few_deliver: "keeps fewer (deliver iconv pid)"
  unfolding deliver_def set_pktlen_def parse_tbl_def parse_pat_def pat_apply_def pat_room_def
    parse_psip_mgt_def parse_psip_vct_def parse_vct_def parse_pmt_def
  by (auto intro!: few.keeps_intros few_put split: prod.splits)

lemma few_demux: "keeps fewer (thread_demux iconv fresh pkt)"
  unfolding thread_demux_def
  by (auto intro!: few.keeps_intros few_start few_continue few_dump few_deliver split: option.splits)

abbreviation no_err :: "('s, 'a) cmd \<Rightarrow> bool" where
  "no_err m \<equiv> outcome (\<lambda>_. False) (\<lambda>_. True) m"

lemma no_err_prims [intro!, simp]:
  "no_err (look g)" "no_err (need v)" "no_err (put f)" "no_err (call malloc)" "no_err (call free_block)"
  "no_err (ret x)"
  by (auto simp: outcome_def)

lemma no_err_bind: "no_err m \<Longrightarrow> (\<And>x. no_err (f x)) \<Longrightarrow> no_err (bindM m f)"
  by (rule outcome_bind)

lemma no_err_then: "no_err m \<Longrightarrow> no_err k \<Longrightarrow> no_err (thenM m k)"
  by (rule outcome_then)

lemma no_err_if: "no_err m \<Longrightarrow> no_err k \<Longrightarrow> no_err (if p then m else k)"
  by simp

lemma no_err_parse_tbl: "no_err (parse_tbl iconv pkt len pid)"
  unfolding parse_tbl_def parse_pat_def pat_apply_def pat_room_def parse_psip_mgt_def
    parse_psip_vct_def parse_vct_def parse_pmt_def
  by (auto intro!: no_err_bind no_err_then no_err_if split: prod.splits)

lemma no_errD: "no_err m \<Longrightarrow> m s = Some (r, s') \<Longrightarrow> \<exists>x. r = Inr x"
  by (cases r) (auto dest: outcomeD)

subsection \<open>Collecting a section\<close>

text \<open>The bytes collected for a PID, and everything but the buffers.\<close>

definition collected :: "mpgatsc \<Rightarrow> u32 \<Rightarrow> u8 list option" where
  "collected s pid = (if pktlen s pid = 0 then None else map_option (take (pktlen s pid)) (pktlist s pid))"

definition tables :: "mpgatsc \<Rightarrow> mpgatsc" where
  "tables s = s\<lparr>pktlist := (\<lambda>_. None), pktlen := (\<lambda>_. 0), dumpfile := False,
     env := \<lparr>script = [], trace = [], blocks = 0\<rparr>\<rparr>"

abbreviation same_tables :: "mpgatsc \<Rightarrow> mpgatsc \<Rightarrow> bool" where
  "same_tables s s' \<equiv> tables s' = tables s"

lemma tables_updates [simp]:
  "tables (s\<lparr>pktlist := l\<rparr>) = tables s" "tables (s\<lparr>pktlen := n\<rparr>) = tables s"
  "tables (s\<lparr>dumpfile := d\<rparr>) = tables s" "tables (s\<lparr>env := w\<rparr>) = tables s"
  by (simp_all add: tables_def)

lemma put_slice_Some_iff:
  "put_slice buf i xs = Some b \<longleftrightarrow>
   i + length xs \<le> length buf \<and> b = take i buf @ xs @ drop (i + length xs) buf"
  by (auto simp: put_slice_def)

lemma store_iff:
  "store pid i xs s = Some (r, s') \<longleftrightarrow> (\<exists>buf. pktlist s pid = Some buf \<and> i + length xs \<le> length buf \<and>
     r = Inr () \<and> s' = s\<lparr>pktlist := (pktlist s)(pid := Some (take i buf @ xs @ drop (i + length xs) buf))\<rparr>)"
  by (auto simp: store_def bindM_Some_iff bind_eq_Some_conv put_slice_Some_iff)

lemma set_pktlen_iff [simp]:
  "set_pktlen pid n s = Some (r, s') \<longleftrightarrow> r = Inr () \<and> s' = s\<lparr>pktlen := (pktlen s)(pid := n)\<rparr>"
  by (auto simp: set_pktlen_def)

lemma start_at_cases:
  assumes "start_at fresh pkt pid pos s = Some (r, s')" and "length pkt = 188"
  shows "188 \<le> pos \<and> r = Inr (Some False) \<and> s' = s\<lparr>pktlen := (pktlen s)(pid := 0)\<rparr> \<or>
    pos < 188 \<and> r = Inr (Some True) \<and> pktlist s pid = None \<and>
      s' = s\<lparr>pktlen := (pktlen s)(pid := 0), env := env s'\<rparr> \<or>
    pos < 188 \<and> r = Inr None \<and>
      (\<exists>buf. (pktlist s pid = Some buf \<or> pktlist s pid = None \<and> buf = map fresh [0..<max_pkt_len]) \<and>
        188 - pos \<le> length buf \<and>
        s' = s\<lparr>pktlist := (pktlist s)(pid := Some (drop pos pkt @ drop (188 - pos) buf)),
          pktlen := (pktlen s)(pid := 188 - pos), env := env s'\<rparr>)"
proof (cases "pos < 188")
  case False
  with assms show ?thesis by (simp add: start_at_def cmd_iffs)
next
  case True
  have d: "take (188 - pos) (drop pos pkt) = drop pos pkt" using assms(2) by simp
  from True assms(1) show ?thesis
    by (auto simp: start_at_def buf_room_def cmd_iffs store_iff rd_slice_Some_iff d assms(2) split: if_splits)
qed

lemma section_len_bounds: "section_len buf = Some n \<Longrightarrow> 3 \<le> n \<and> n < max_pkt_len"
proof -
  assume "section_len buf = Some n"
  then obtain v where "rd16 buf 1 = Some v" and v: "n = unat ((v AND 0xfff) + 3)"
    by (auto simp: section_len_def bind_eq_Some_conv)
  have "(v AND 0xfff) \<le> 0xfff" by (rule word_and_le1)
  then have "unat (v AND 0xfff) \<le> 0xfff" by (simp add: word_le_nat_alt)
  then have "unat ((v AND 0xfff) + 3) = unat (v AND 0xfff) + 3" by (subst unat_add_lem [THEN iffD1]) simp_all
  with v \<open>unat (v AND 0xfff) \<le> 0xfff\<close> show ?thesis by (simp add: max_pkt_len_def)
qed

lemma section_len_take: "3 \<le> k \<Longrightarrow> k \<le> length buf \<Longrightarrow> section_len (take k buf) = section_len buf"
  by (simp add: section_len_def rd16_def rd_def)

lemma section_len_defined: "3 \<le> length buf \<Longrightarrow> \<exists>n. section_len buf = Some n"
  by (simp add: section_len_def rd16_def rd_def)

lemma section_len_short: "length buf < 3 \<Longrightarrow> section_len buf = None"
  by (simp add: section_len_def rd16_def rd_def)

text \<open>The section has arrived: as many bytes as its length field says.\<close>

definition complete :: "u8 list \<Rightarrow> bool" where
  "complete a \<longleftrightarrow> (case section_len a of None \<Rightarrow> False | Some n \<Rightarrow> n \<le> length a)"

lemma complete_iff:
  assumes "section_len buf = Some n" and "k \<le> length buf"
  shows "complete (take k buf) \<longleftrightarrow> n \<le> k"
  using assms section_len_bounds [OF assms(1)] section_len_take [of k buf] section_len_short [of "take k buf"]
  by (cases "3 \<le> k") (auto simp: complete_def)

lemma complete_max: "length a \<ge> max_pkt_len - 1 \<Longrightarrow> complete a"
  using section_len_defined [of a] section_len_bounds [of a]
  by (fastforce simp: complete_def max_pkt_len_def)

text \<open>The invariant: a collection in progress is incomplete.\<close>

definition collect_inv :: "mpgatsc \<Rightarrow> bool" where
  "collect_inv s \<longleftrightarrow> demux_inv s \<and> (\<forall>pid a. collected s pid = Some a \<longrightarrow> \<not> complete a)"

lemma demux_inv_buf:
  assumes "demux_inv s" and "pktlist s pid = Some buf"
  shows "length buf = max_pkt_len \<and> pktlen s pid \<le> max_pkt_len"
  using assms by (auto simp: demux_inv_def)

lemma demux_inv_update:
  assumes "demux_inv s" and "length buf = max_pkt_len" and "n \<le> max_pkt_len"
    and "pat_inv s'" and "pktlist s' = (pktlist s)(pid := Some buf)" and "pktlen s' = (pktlen s)(pid := n)"
  shows "demux_inv s'"
  using assms by (auto simp: demux_inv_def)

lemma demux_inv_cleared:
  assumes "demux_inv s" and "pat_inv s'" and "pktlist s' = pktlist s" and "pktlen s' = (pktlen s)(pid := 0)"
  shows "demux_inv s'"
  using assms by (auto simp: demux_inv_def)

lemma collected_in_progress:
  assumes "collect_inv s" and "pktlen s pid \<noteq> 0"
  obtains buf where "pktlist s pid = Some buf" and "length buf = max_pkt_len"
    and "collected s pid = Some (take (pktlen s pid) buf)" and "pktlen s pid + 1 < max_pkt_len"
proof -
  from assms obtain buf where b: "pktlist s pid = Some buf"
    by (cases "pktlist s pid") (auto simp: collect_inv_def demux_inv_def)
  with assms(1) have l: "length buf = max_pkt_len" "pktlen s pid \<le> max_pkt_len"
    using demux_inv_buf [of s pid buf] by (auto simp: collect_inv_def)
  have c: "collected s pid = Some (take (pktlen s pid) buf)"
    using b assms(2) by (simp add: collected_def)
  with assms(1) have "\<not> complete (take (pktlen s pid) buf)" by (simp add: collect_inv_def)
  then have "length (take (pktlen s pid) buf) < max_pkt_len - 1"
    using complete_max not_le by blast
  with l b c that show thesis by simp
qed

lemma unit_continue_none:
  "pktlen s pid = 0 \<Longrightarrow> unit_continue pkt pid pos s = Some (r, s') \<Longrightarrow>
    s' = s \<and> (r = Inr (Some False) \<or> r = Inr None)"
  by (auto simp: unit_continue_def cmd_iffs split: if_splits)

lemma unit_continue_collects:
  assumes inv: "collect_inv s" and n: "pktlen s pid \<noteq> 0" and "length pkt = 188" and "pos < 188"
    and a: "collected s pid = Some a"
  shows "\<exists>buf k. length buf = max_pkt_len \<and> k \<le> max_pkt_len \<and> k \<noteq> 0 \<and>
    take k buf = take max_pkt_len (a @ drop pos pkt) \<and>
    unit_continue pkt pid pos s =
      Some (Inr None, s\<lparr>pktlist := (pktlist s)(pid := Some buf), pktlen := (pktlen s)(pid := k)\<rparr>)"
proof -
  obtain buf where b: "pktlist s pid = Some buf" "length buf = max_pkt_len"
    "collected s pid = Some (take (pktlen s pid) buf)" "pktlen s pid + 1 < max_pkt_len"
    using collected_in_progress [OF inv n] .
  let ?n = "pktlen s pid"
  define m where "m = (if ?n + (188 - pos) \<ge> max_pkt_len then max_pkt_len - ?n else 188 - pos)"
  have u: "unat (of_nat max_pkt_len - of_nat ?n :: u32) = max_pkt_len - ?n"
    using b(4) by (simp add: max_pkt_len_def unat_sub_if' unsigned_of_nat take_bit_nat_eq_self)
  have m: "0 < m" "m \<le> 188 - pos" "?n + m \<le> max_pkt_len"
    using b(4) assms(4) by (auto simp: m_def)
  have eq: "unit_continue pkt pid pos s = bindM (need (rd_slice pkt pos m)) (\<lambda>xs.
      thenM (store pid ?n xs) (thenM (set_pktlen pid (?n + m)) (ret None))) s"
  proof (cases "?n + (188 - pos) \<ge> max_pkt_len")
    case True
    then have "m = max_pkt_len - ?n" by (simp add: m_def)
    then show ?thesis using True n b(1) m(1)
      by (simp add: unit_continue_def io_simps Let_def u)
  next
    case False
    then have "m = 188 - pos" by (simp add: m_def)
    then show ?thesis using False n b(1)
      by (simp add: unit_continue_def io_simps Let_def)
  qed
  define xs where "xs = take m (drop pos pkt)"
  have sl: "rd_slice pkt pos m = Some xs" and tl: "length xs = m"
    using m assms(3,4) by (simp_all add: rd_slice_def xs_def)
  let ?buf = "take ?n buf @ xs @ drop (?n + m) buf"
  have run: "unit_continue pkt pid pos s =
    Some (Inr None, s\<lparr>pktlist := (pktlist s)(pid := Some ?buf), pktlen := (pktlen s)(pid := ?n + m)\<rparr>)"
    unfolding eq using b(1,2) m(3) tl by (simp add: cmd_iffs store_iff sl)
  have a': "a = take ?n buf" using a b(3) by simp
  have x: "take (max_pkt_len - ?n) (drop pos pkt) = xs"
    using assms(3) by (auto simp: m_def xs_def)
  have la: "length a = ?n" using b(2,4) by (simp add: a')
  have "take max_pkt_len (a @ drop pos pkt) = a @ take (max_pkt_len - ?n) (drop pos pkt)"
    using la b(4) by simp
  then have "take (?n + m) ?buf = take max_pkt_len (a @ drop pos pkt)"
    unfolding x using la tl by (simp add: a' [symmetric])
  moreover have "length ?buf = max_pkt_len"
    using b(2) m tl by (simp add: min_def)
  ultimately show ?thesis using run m
    by (intro conjI exI [where x = ?buf] exI [where x = "?n + m"]) auto
qed

end
