(* ===== verification/Sez_Reassembly.thy ===== *)
theory Sez_Reassembly
  imports Sez_Demux
begin

text \<open>
  The demultiplexer against its specification: a packet refines an abstract reassembly of the
  PID it belongs to, no packet leads outside a buffer, and a section that is cut into packets
  reaches the parser whole; for a program association table this goes through to the map it
  leaves behind.
\<close>

lemma deliver_none: "pktlen s pid = 0 \<Longrightarrow> deliver iconv pid s = Some (r, s') \<Longrightarrow> r = Inr False \<and> s' = s"
  by (auto simp: deliver_def cmd_iffs)

lemma deliver_cases:
  assumes "pktlist s pid = Some buf" and "pktlen s pid \<le> length buf" and "pktlen s pid \<noteq> 0"
    and "deliver iconv pid s = Some (r, s')" and a: "a = take (pktlen s pid) buf"
  shows "r = Inr False \<and> (if complete a
    then \<exists>q s2. parse_tbl iconv buf (the (section_len a)) pid s = Some (q, s2) \<and>
      s' = s2\<lparr>pktlen := (pktlen s2)(pid := 0)\<rparr>
    else s' = s)"
proof -
  from assms(1,3,4) obtain slen where sl: "section_len buf = Some slen" and
    run: "(if pktlen s pid \<ge> slen then
        bindM (parse_tbl iconv buf slen pid) (\<lambda>r. thenM (set_pktlen pid 0) (ret False))
      else ret False) s = Some (r, s')"
    by (auto simp: deliver_def cmd_iffs)
  have c: "complete a \<longleftrightarrow> slen \<le> pktlen s pid"
    unfolding a by (rule complete_iff [OF sl assms(2)])
  show ?thesis
  proof (cases "slen \<le> pktlen s pid")
    case True
    then have "section_len a = Some slen"
      using section_len_bounds [OF sl] sl section_len_take [of "pktlen s pid" buf] assms(2) by (simp add: a)
    moreover obtain q s2 where "parse_tbl iconv buf slen pid s = Some (q, s2)" "r = Inr False"
      "s' = s2\<lparr>pktlen := (pktlen s2)(pid := 0)\<rparr>"
      using run True no_errD [OF no_err_parse_tbl] by (fastforce simp: cmd_iffs)
    ultimately show ?thesis using True c by auto
  qed (use run c in auto)
qed

text \<open>The payload of a packet that is not dropped, and whether it starts a unit.\<close>

definition payload :: "u8 list \<Rightarrow> (bool \<times> u8 list) option" where
  "payload pkt =
    (if pkt ! 0 \<noteq> 0x47 \<or> pkt ! 1 AND 0x80 \<noteq> 0 then None
     else case payload_pos pkt of None \<Rightarrow> None
     | Some pos \<Rightarrow> if pos \<ge> 188 then None
       else if pkt ! 1 AND 0x40 \<noteq> 0 then Some (True, drop (pos + unat (pkt ! pos) + 1) pkt)
       else Some (False, drop pos pkt))"

text \<open>The abstract reassembly: a unit start begins a collection, another payload continues it.\<close>

definition collect :: "u8 list option \<Rightarrow> (bool \<times> u8 list) option \<Rightarrow> u8 list option" where
  "collect acc p = (case p of None \<Rightarrow> acc
     | Some (start, xs) \<Rightarrow>
       if start then if xs = [] then None else Some xs
       else map_option (\<lambda>a. take max_pkt_len (a @ xs)) acc)"

text \<open>The section \<open>a\<close> was handed to the parser, at the start of a buffer, in a state with the
  tables of the first one; what the system still has to answer then it had to answer before.\<close>

definition handed_over :: "(u32 list \<Rightarrow> bool \<times> string) \<Rightarrow> u32 \<Rightarrow> u8 list \<Rightarrow> mpgatsc \<Rightarrow> mpgatsc \<Rightarrow> bool" where
  "handed_over iconv pid a s s' \<longleftrightarrow> (\<exists>buf s1 q s2.
     length buf = max_pkt_len \<and> take (length a) buf = a \<and> same_tables s s1 \<and> fewer s s1 \<and>
     parse_tbl iconv buf (the (section_len a)) pid s1 = Some (q, s2) \<and> same_tables s2 s')"

definition step_ok :: "(u32 list \<Rightarrow> bool \<times> string) \<Rightarrow> u32 \<Rightarrow> u8 list option \<Rightarrow> mpgatsc \<Rightarrow> err + bool \<Rightarrow>
  mpgatsc \<Rightarrow> bool" where
  "step_ok iconv pid acc s r s' \<longleftrightarrow>
    (case acc of None \<Rightarrow> same_tables s s' \<and> collected s' pid = None
     | Some a \<Rightarrow>
       if complete a then r = Inr False \<and> collected s' pid = None \<and> handed_over iconv pid a s s'
       else same_tables s s' \<and> collected s' pid = Some a)"

lemma after_payload:
  assumes inv: "demux_inv s1" and b: "pktlist s1 pid = Some buf" and n: "pktlen s1 pid \<noteq> 0"
    and a: "a = take (pktlen s1 pid) buf" and st: "same_tables s s1" "fewer s s1"
    and run: "deliver iconv pid s1 = Some (r, s')"
  shows "step_ok iconv pid (Some a) s r s' \<and> demux_inv s' \<and> r = Inr False \<and> pktlist s' = pktlist s1 \<and>
    (\<forall>q. q \<noteq> pid \<longrightarrow> pktlen s' q = pktlen s1 q)"
proof -
  have l: "length buf = max_pkt_len" "pktlen s1 pid \<le> length buf"
    using demux_inv_buf [OF inv b] by auto
  note d = deliver_cases [OF b l(2) n run a]
  show ?thesis
  proof (cases "complete a")
    case True
    with d obtain q s2 where p: "parse_tbl iconv buf (the (section_len a)) pid s1 = Some (q, s2)"
      and s': "s' = s2\<lparr>pktlen := (pktlen s2)(pid := 0)\<rparr>" and r: "r = Inr False" by auto
    have same: "pktlist s2 = pktlist s1" "pktlen s2 = pktlen s1"
      using keepsD [OF bufs_parse_tbl p] by (auto simp: same_bufs_def)
    have "pat_inv s2"
      using keepsD [OF patk_parse_tbl p] inv by (auto simp: pat_kept_def demux_inv_def)
    then have "demux_inv s'"
      using demux_inv_cleared [OF inv, of s' pid] same by (simp add: s' pat_inv_def)
    moreover have "handed_over iconv pid a s s'"
      unfolding handed_over_def using p l st by (intro exI [of _ buf]) (auto simp: a s')
    ultimately show ?thesis
      using True r same by (simp add: step_ok_def collected_def s')
  next
    case False
    with d have "s' = s1" "r = Inr False" by simp_all
    then show ?thesis using False inv st b n by (simp add: step_ok_def collected_def a)
  qed
qed

lemma step_idle:
  assumes "collect_inv s" and "same_tables s s'" and "pktlist s' = pktlist s" and "pktlen s' = pktlen s"
  shows "step_ok iconv pid (collected s pid) s r s'"
proof -
  have "collected s' pid = collected s pid" by (simp add: collected_def assms)
  with assms(1,2) show ?thesis by (auto simp: step_ok_def collect_inv_def split: option.splits)
qed

lemma collect_inv_step:
  assumes "collect_inv s" and "demux_inv s'"
    and "\<forall>q. q \<noteq> pid \<longrightarrow> pktlist s' q = pktlist s q \<and> pktlen s' q = pktlen s q"
    and "collected s' pid = None \<or> (\<exists>acc. step_ok iconv pid acc s r s')"
  shows "collect_inv s'"
proof -
  have "\<not> complete a" if "collected s' q = Some a" for q a
  proof (cases "q = pid")
    case True
    with that assms(4) show ?thesis by (auto simp: step_ok_def split: option.splits if_splits)
  next
    case False
    with assms(3) have "collected s' q = collected s q" by (simp add: collected_def)
    with that assms(1) show ?thesis by (simp add: collect_inv_def)
  qed
  with assms(2) show ?thesis by (simp add: collect_inv_def)
qed

lemma dump_packet_frame:
  "dump_packet pkt s = Some (r, s') \<Longrightarrow> s' = s\<lparr>env := env s', dumpfile := dumpfile s'\<rparr>"
  by (auto simp: dump_packet_def close_dump_def cmd_iffs call_def act_def ask_num_def
      split: if_splits option.splits list.splits os_event.splits)

lemma drop_pkt_ne: "length pkt = 188 \<Longrightarrow> drop p pkt \<noteq> [] \<longleftrightarrow> p < (188 :: nat)"
  by auto

lemma start_at_elim:
  assumes "start_at fresh pkt pid pos s = Some (r, s')" and "length pkt = 188"
  obtains (past) "188 \<le> pos" "r = Inr (Some False)" "s' = s\<lparr>pktlen := (pktlen s)(pid := 0)\<rparr>"
  | (full) w where "pos < 188" "r = Inr (Some True)" "pktlist s pid = None"
      "s' = s\<lparr>pktlen := (pktlen s)(pid := 0), env := w\<rparr>"
  | (begun) buf w where "pos < 188" "r = Inr None"
      "pktlist s pid = Some buf \<or> pktlist s pid = None \<and> buf = map fresh [0..<max_pkt_len]"
      "188 - pos \<le> length buf"
      "s' = s\<lparr>pktlist := (pktlist s)(pid := Some (drop pos pkt @ drop (188 - pos) buf)),
        pktlen := (pktlen s)(pid := 188 - pos), env := w\<rparr>"
  using start_at_cases [OF assms]
  by (elim disjE conjE exE)
    (erule (2) past | erule (3) full | (rule begun, assumption, assumption, simp, assumption, assumption))+

lemma start_at_inv:
  assumes inv: "demux_inv s" and l: "length pkt = 188"
    and run: "start_at fresh pkt pid pos s = Some (r, s')"
  shows "demux_inv s'"
  using run l
proof (cases rule: start_at_elim)
  case past
  have "pat_inv s'" using inv by (simp add: past(3) demux_inv_def pat_inv_def)
  then show ?thesis by (rule demux_inv_cleared [OF inv]) (simp_all add: past(3))
next
  case (full w)
  have p: "pktlist s' = pktlist s" "pktlen s' = (pktlen s)(pid := 0)" "pat_inv s' = pat_inv s"
    by (simp_all add: full(4) pat_inv_def)
  show ?thesis using demux_inv_cleared [OF inv _ p(1,2)] inv p(3) by (simp add: demux_inv_def)
next
  case (begun buf w)
  let ?buf = "drop pos pkt @ drop (188 - pos) buf"
  have p: "pktlist s' = (pktlist s)(pid := Some ?buf)" "pktlen s' = (pktlen s)(pid := 188 - pos)"
    "pat_inv s' = pat_inv s"
    by (simp_all add: begun(5) pat_inv_def)
  have lb: "length ?buf = max_pkt_len" using begun(3,4) inv l by (auto simp: demux_inv_def)
  have n: "188 - pos \<le> max_pkt_len" by (simp add: max_pkt_len_def)
  show ?thesis using demux_inv_update [OF inv lb n _ p(1,2)] inv p(3) by (simp add: demux_inv_def)
qed

text \<open>The two kinds of payload, from the state behind the dump.\<close>

lemma start_step:
  assumes inv: "demux_inv s" and l: "length pkt = 188" and st: "same_tables s0 s" "fewer s0 s"
    and run: "bindM (unit_start fresh pkt pid pos)
      (\<lambda>stop. case stop of Some r \<Rightarrow> ret r | None \<Rightarrow> deliver iconv pid) s = Some (r, s')"
  shows "demux_inv s' \<and> (\<forall>q. q \<noteq> pid \<longrightarrow> pktlist s' q = pktlist s q \<and> pktlen s' q = pktlen s q) \<and>
    (step_ok iconv pid (collect acc (Some (True, drop (pos + unat (pkt ! pos) + 1) pkt))) s0 r s' \<or>
     r = Inr True \<and> pktlist s pid = None \<and> same_tables s0 s' \<and> collected s' pid = None)"
proof -
  let ?p = "pos + unat (pkt ! pos) + 1"
  from run obtain q s1 where s1: "start_at fresh pkt pid ?p s = Some (q, s1)" and
    k: "(\<exists>x. q = Inr x \<and> (case x of Some r \<Rightarrow> ret r | None \<Rightarrow> deliver iconv pid) s1 = Some (r, s')) \<or>
      (\<exists>e. q = Inl e)"
    by (auto simp: unit_start_def bindM_Some_iff rd_Some_iff)
  note i1 = start_at_inv [OF inv l s1]
  have few: "fewer s0 s1"
    using few.trans [OF st(2) keepsD [OF few_start_at s1]] .
  from s1 l show ?thesis
  proof (cases rule: start_at_elim)
    case past
    with k have "s' = s1" by auto
    then show ?thesis using i1 st past(1) l
      by (auto simp: step_ok_def collect_def collected_def past(3))
  next
    case (full w)
    with k have r: "s' = s1" "r = Inr True" by auto
    have p: "pktlist s1 = pktlist s" "pktlen s1 = (pktlen s)(pid := 0)" "tables s1 = tables s"
      by (simp_all add: full(4))
    then show ?thesis using i1 st r full(3) by (auto simp: collected_def)
  next
    case (begun buf w)
    let ?buf = "drop ?p pkt @ drop (188 - ?p) buf"
    have p: "pktlist s1 = (pktlist s)(pid := Some ?buf)" "pktlen s1 = (pktlen s)(pid := 188 - ?p)"
      "tables s1 = tables s"
      by (simp_all add: begun(5))
    have d: "deliver iconv pid s1 = Some (r, s')" using k begun(2) by auto
    have b1: "pktlist s1 pid = Some ?buf" "pktlen s1 pid \<noteq> 0" "drop ?p pkt = take (pktlen s1 pid) ?buf"
      using p begun(1) l by simp_all
    have st1: "same_tables s0 s1" using st(1) p(3) by simp
    have c: "collect acc (Some (True, drop ?p pkt)) = Some (drop ?p pkt)"
      using begun(1) l by (simp add: collect_def)
    have o: "pktlist s1 q = pktlist s q" "pktlen s1 q = pktlen s q" if "q \<noteq> pid" for q
      using that p by simp_all
    from after_payload [OF i1 b1 st1 few d] o show ?thesis
      unfolding c by auto
  qed
qed

lemma continue_step:
  assumes inv: "collect_inv s" and l: "length pkt = 188" and st: "same_tables s0 s" "fewer s0 s" and pos: "pos < 188"
    and run: "bindM (unit_continue pkt pid pos)
      (\<lambda>stop. case stop of Some r \<Rightarrow> ret r | None \<Rightarrow> deliver iconv pid) s = Some (r, s')"
  shows "demux_inv s' \<and> (\<forall>q. q \<noteq> pid \<longrightarrow> pktlist s' q = pktlist s q \<and> pktlen s' q = pktlen s q) \<and>
    step_ok iconv pid (collect (collected s pid) (Some (False, drop pos pkt))) s0 r s'"
proof -
  from run obtain q s1 where s1: "unit_continue pkt pid pos s = Some (q, s1)" and
    k: "(\<exists>x. q = Inr x \<and> (case x of Some r \<Rightarrow> ret r | None \<Rightarrow> deliver iconv pid) s1 = Some (r, s')) \<or>
      (\<exists>e. q = Inl e)"
    by (auto simp: bindM_Some_iff)
  have di: "demux_inv s" using inv by (simp add: collect_inv_def)
  show ?thesis
  proof (cases "pktlen s pid = 0")
    case True
    from unit_continue_none [OF this s1] k deliver_none [of s1 pid iconv] True have "s' = s" by auto
    with True di st show ?thesis by (simp add: step_ok_def collect_def collected_def)
  next
    case False
    then obtain a where a: "collected s pid = Some a"
      using collected_in_progress [OF inv False] by metis
    from unit_continue_collects [OF inv False l pos a] obtain buf n where
      lb: "length buf = max_pkt_len" and n: "n \<le> max_pkt_len" "n \<noteq> 0"
      and t: "take n buf = take max_pkt_len (a @ drop pos pkt)"
      and eq: "unit_continue pkt pid pos s =
        Some (Inr None, s\<lparr>pktlist := (pktlist s)(pid := Some buf), pktlen := (pktlen s)(pid := n)\<rparr>)"
      by blast
    from eq s1 have q: "q = Inr None"
      and s1: "s1 = s\<lparr>pktlist := (pktlist s)(pid := Some buf), pktlen := (pktlen s)(pid := n)\<rparr>" by simp_all
    have i1: "demux_inv s1"
      using demux_inv_update [OF di lb n(1), of s1 pid] di by (simp add: s1 demux_inv_def pat_inv_def)
    have d: "deliver iconv pid s1 = Some (r, s')" using k q by auto
    have few: "fewer s0 s1" using st(2) by (simp add: s1 fewer_def)
    from after_payload [OF i1 _ _ _ _ few d, of buf "take n buf"] n s1 st(1)
    show ?thesis by (auto simp: collect_def a t)
  qed
qed


lemma demux_step:
  assumes "collect_inv s" and "length pkt = 188" and "pkt_pid pkt = Some pid"
    and "thread_demux iconv fresh pkt s = Some (r, s')"
  shows "collect_inv s' \<and>
    (\<forall>q. q \<noteq> pid \<longrightarrow> pktlist s' q = pktlist s q \<and> pktlen s' q = pktlen s q) \<and>
    (step_ok iconv pid (collect (collected s pid) (payload pkt)) s r s' \<or>
     r = Inr True \<and> pktlist s pid = None \<and> same_tables s s' \<and> collected s' pid = None)"
proof -
  have inv: "demux_inv s" using assms(1) by (simp add: collect_inv_def)
  have rd: "rd pkt 0 = Some (pkt ! 0)" "rd pkt 1 = Some (pkt ! 1)" "rd pkt (Suc 0) = Some (pkt ! 1)"
    by (simp_all add: rd_def assms(2))
  have "payload_pos pkt \<noteq> None" by (simp add: payload_pos_def rd_simps assms(2))
  then obtain pos where pos: "payload_pos pkt = Some pos" by blast
  have idle: ?thesis if "payload pkt = None" "same_tables s s'" "pktlist s' = pktlist s" "pktlen s' = pktlen s"
    "pat_inv s'"
  proof -
    have "demux_inv s'" using inv that(3-5) by (simp add: demux_inv_def)
    moreover have "step_ok iconv pid (collect (collected s pid) (payload pkt)) s r s'"
      using step_idle [OF assms(1) that(2-4)] by (simp add: collect_def that(1))
    ultimately show ?thesis using collect_inv_step [OF assms(1), of s' pid] that(3,4) by auto
  qed
  show ?thesis
  proof (cases "pkt ! 0 \<noteq> 0x47 \<or> pkt ! 1 AND 0x80 \<noteq> 0")
    case True
    with assms(4) have "s' = s" by (auto simp: thread_demux_def bindM_Some_iff rd split: if_splits)
    with True idle inv show ?thesis by (auto simp: payload_def demux_inv_def)
  next
    case False
    with assms(4) obtain q s1 where dump: "dump_packet pkt s = Some (q, s1)" and
      rest: "(if pos \<ge> 188 then ret False
        else bindM (if pkt ! 1 AND 0x40 \<noteq> 0 then unit_start fresh pkt pid pos else unit_continue pkt pid pos)
          (\<lambda>stop. case stop of Some r \<Rightarrow> ret r | None \<Rightarrow> deliver iconv pid)) s1 = Some (r, s') \<or>
        (\<exists>e. q = Inl e)"
      by (auto simp: thread_demux_def thenM_Some_iff bindM_Some_iff rd assms(3) pos simp del: One_nat_def)
    have s1: "s1 = s\<lparr>env := env s1, dumpfile := dumpfile s1\<rparr>" by (rule dump_packet_frame [OF dump])
    have p: "pktlist s1 = pktlist s" "pktlen s1 = pktlen s" "pat_inv s1 = pat_inv s" "same_tables s s1"
      by (subst s1, simp add: pat_inv_def)+
    have few: "fewer s s1" by (rule keepsD [OF few_dump dump])
    have c: "collected s1 = collected s" using p by (auto simp: collected_def)
    have i1: "collect_inv s1" "demux_inv s1"
      using assms(1) p c by (auto simp: collect_inv_def demux_inv_def)
    have "\<nexists>e. q = Inl e" using dump
      by (auto simp: dump_packet_def close_dump_def cmd_iffs call_def act_def ask_num_def
          split: if_splits option.splits list.splits os_event.splits)
    note rest = rest [simplified this, simplified]
    show ?thesis
    proof (cases "pos \<ge> 188")
      case True
      with rest p inv show ?thesis by (intro idle) (auto simp: payload_def pos demux_inv_def)
    next
      case inside: False
      have finish: ?thesis if "demux_inv s'"
        "\<forall>q. q \<noteq> pid \<longrightarrow> pktlist s' q = pktlist s1 q \<and> pktlen s' q = pktlen s1 q"
        "step_ok iconv pid (collect (collected s pid) (payload pkt)) s r s' \<or>
         r = Inr True \<and> pktlist s1 pid = None \<and> same_tables s s' \<and> collected s' pid = None"
        using that collect_inv_step [OF assms(1) that(1), of pid] p by auto
      show ?thesis
      proof (cases "pkt ! 1 AND 0x40 \<noteq> 0")
        case True
        then have "payload pkt = Some (True, drop (pos + unat (pkt ! pos) + 1) pkt)"
          using False inside by (simp add: payload_def pos)
        with start_step [OF i1(2) assms(2) p(4) few, of fresh pid pos iconv r s' "collected s pid"] rest True inside
        show ?thesis by (intro finish) auto
      next
        case cont: False
        then have "payload pkt = Some (False, drop pos pkt)"
          using False inside by (simp add: payload_def pos)
        with continue_step [OF i1(1) assms(2) p(4) few, of pos pid iconv r s'] rest cont inside
        show ?thesis by (intro finish) (auto simp: c)
      qed
    qed
  qed
qed

text \<open>C1: One packet refines the abstract reassembly of its PID: the collection is dropped, continued
  or begun as the payload says; as soon as it is as long as its length field says, exactly
  that section is handed to the parser, at the start of the PID's buffer, and the collection
  ends. The buffers of the other PIDs are untouched, and without a complete section the tables
  are. The one way out is a failing \<^verbatim>\<open>malloc\<close> for a PID's first buffer.\<close>

theorem demux_refines_reassembly:
  assumes "collect_inv s" and "length pkt = 188" and "pkt_pid pkt = Some pid"
    and "thread_demux iconv fresh pkt s = Some (r, s')"
  shows "collect_inv s' \<and>
    (\<forall>q. q \<noteq> pid \<longrightarrow> pktlist s' q = pktlist s q \<and> pktlen s' q = pktlen s q) \<and>
    (step_ok iconv pid (collect (collected s pid) (payload pkt)) s r s' \<or>
     r = Inr True \<and> pktlist s pid = None \<and> same_tables s s' \<and> collected s' pid = None)"
  by (rule demux_step [OF assms])

subsection \<open>Memory safety\<close>

lemma deliver_inside:
  assumes "demux_inv s" and "pid \<noteq> 0x1ffb" and "script (env s) = Ev_malloc a # evs"
  shows "\<exists>s'. deliver iconv pid s = Some (Inr False, s')"
proof (cases "pktlen s pid = 0")
  case True
  then show ?thesis by (simp add: deliver_def io_simps)
next
  case False
  with assms(1) obtain buf where b: "pktlist s pid = Some buf"
    by (cases "pktlist s pid") (auto simp: demux_inv_def)
  then have l: "length buf = max_pkt_len" using demux_inv_buf [OF assms(1)] by blast
  then obtain n where n: "section_len buf = Some n"
    using section_len_defined [of buf] by (auto simp: max_pkt_len_def)
  have "n \<le> length buf" using section_len_bounds [OF n] l by simp
  moreover have "8 \<le> length buf" using l by (simp add: max_pkt_len_def)
  moreover have "pat_inv s" using assms(1) by (simp add: demux_inv_def)
  ultimately obtain r s' where p: "parse_tbl iconv buf n pid s = Some (r, s')"
    using parse_tbl_inside assms(2,3) by blast
  obtain x where "r = Inr x" using no_errD [OF no_err_parse_tbl p] by blast
  with p b n False show ?thesis
    by (simp add: deliver_def io_simps thenM_def set_pktlen_def)
qed

lemma start_at_inside:
  assumes "demux_inv s" and "length pkt = 188" and "script (env s) = Ev_malloc a # Ev_malloc b # evs"
  shows "\<exists>q s1. start_at fresh pkt pid pos s = Some (Inr q, s1) \<and> (a \<longrightarrow> q \<noteq> Some True) \<and>
    (\<exists>c es. script (env s1) = Ev_malloc c # es)"
proof (cases "pos \<ge> 188")
  case True
  then show ?thesis using assms(3) by (simp add: start_at_def thenM_def io_simps set_pktlen_def)
next
  case False
  define xs where "xs = drop pos pkt"
  have sl: "rd_slice pkt pos (188 - pos) = Some xs" and lx: "length xs \<le> max_pkt_len"
    using False assms(2) by (simp_all add: rd_slice_def xs_def max_pkt_len_def)
  have p: "put_slice buf 0 xs = Some (xs @ drop (length xs) buf)" if "length buf = max_pkt_len" for buf
    using that lx by (simp add: put_slice_def)
  show ?thesis
  proof (cases "pktlist s pid")
    case None
    then show ?thesis using False assms(3) sl p
      by (cases a) (simp_all add: start_at_def buf_room_def thenM_def io_simps set_pktlen_def store_def call_def malloc_def)
  next
    case (Some buf)
    then have "length buf = max_pkt_len" using demux_inv_buf [OF assms(1)] by blast
    with Some False assms(3) sl p show ?thesis
      by (simp add: start_at_def buf_room_def thenM_def io_simps set_pktlen_def store_def)
  qed
qed

lemma payload_inside:
  assumes inv: "collect_inv s" and l: "length pkt = 188" and pos: "pos < 188" and pid: "pid \<noteq> 0x1ffb"
    and sc: "script (env s) = Ev_malloc a # Ev_malloc b # evs"
  shows "\<exists>r s'. bindM (if start then unit_start fresh pkt pid pos else unit_continue pkt pid pos)
      (\<lambda>stop. case stop of Some r \<Rightarrow> ret r | None \<Rightarrow> deliver iconv pid) s = Some (Inr r, s') \<and> (a \<longrightarrow> \<not> r)"
proof -
  have di: "demux_inv s" using inv by (simp add: collect_inv_def)
  obtain q s1 where q: "(if start then unit_start fresh pkt pid pos else unit_continue pkt pid pos) s = Some (Inr q, s1)"
    and a: "a \<longrightarrow> q \<noteq> Some True" and i1: "demux_inv s1" and sc1: "\<exists>c es. script (env s1) = Ev_malloc c # es"
  proof (cases start)
    case True
    have r: "rd pkt pos = Some (pkt ! pos)" using pos l by (simp add: rd_simps)
    obtain q s1 where s1: "start_at fresh pkt pid (pos + unat (pkt ! pos) + 1) s = Some (Inr q, s1)"
      "a \<longrightarrow> q \<noteq> Some True" "\<exists>c es. script (env s1) = Ev_malloc c # es"
      using start_at_inside [OF di l sc, of fresh pid "pos + unat (pkt ! pos) + 1"]
      by (elim exE conjE) (rule that, assumption+, blast)
    have "(if start then unit_start fresh pkt pid pos else unit_continue pkt pid pos) s = Some (Inr q, s1)"
      using True r s1(1) by (simp add: unit_start_def io_simps)
    from that [OF this s1(2) start_at_inv [OF di l s1(1)] s1(3)] show thesis .
  next
    case cont: False
    show thesis
    proof (cases "pktlen s pid = 0")
      case True
      with cont sc di that show thesis
        by (cases "pktlist s pid") (simp_all add: unit_continue_def io_simps)
    next
      case False
      obtain x where "collected s pid = Some x" using collected_in_progress [OF inv False] by metis
      from unit_continue_collects [OF inv False l pos this] obtain buf k where
        u: "length buf = max_pkt_len" "k \<le> max_pkt_len"
        "unit_continue pkt pid pos s =
          Some (Inr None, s\<lparr>pktlist := (pktlist s)(pid := Some buf), pktlen := (pktlen s)(pid := k)\<rparr>)" by blast
      have "demux_inv (s\<lparr>pktlist := (pktlist s)(pid := Some buf), pktlen := (pktlen s)(pid := k)\<rparr>)"
        by (rule demux_inv_update [OF di u(1,2)]) (use di in \<open>simp_all add: demux_inv_def pat_inv_def\<close>)
      moreover have "(if start then unit_start fresh pkt pid pos else unit_continue pkt pid pos) s =
          Some (Inr None, s\<lparr>pktlist := (pktlist s)(pid := Some buf), pktlen := (pktlen s)(pid := k)\<rparr>)"
        using cont u(3) by simp
      ultimately show thesis using that sc by fastforce
    qed
  qed
  show ?thesis
  proof (cases q)
    case (Some r)
    with q a show ?thesis by (intro exI [of _ r] exI [of _ s1]) (auto simp: io_simps)
  next
    case None
    from sc1 obtain c es where "script (env s1) = Ev_malloc c # es" by blast
    from deliver_inside [OF i1 pid this] obtain s' where "deliver iconv pid s1 = Some (Inr False, s')" by blast
    with q None show ?thesis by (intro exI [of _ False] exI [of _ s']) (simp add: io_simps)
  qed
qed

lemma demux_inside:
  assumes inv: "collect_inv s" and l: "length pkt = 188" and pid: "pkt_pid pkt = Some pid" "pid \<noteq> 0x1ffb"
    and sc: "script (env s) = (if dumpfile s then [Ev_num n] else []) @ Ev_malloc a # Ev_malloc b # evs"
  shows "\<exists>r s'. thread_demux iconv fresh pkt s = Some (Inr r, s') \<and> (a \<and> pkt ! 0 = 0x47 \<longrightarrow> \<not> r)"
proof -
  have rd: "rd pkt 0 = Some (pkt ! 0)" "rd pkt 1 = Some (pkt ! 1)"
    by (simp_all add: rd_def l)
  have "payload_pos pkt \<noteq> None" by (simp add: payload_pos_def rd_simps l)
  then obtain pos where pos: "payload_pos pkt = Some pos" by blast
  obtain s1 where s1: "dump_packet pkt s = Some (Inr (), s1)" "pktlist s1 = pktlist s" "pktlen s1 = pktlen s"
    "pat_inv s1 = pat_inv s" "script (env s1) = Ev_malloc a # Ev_malloc b # evs"
    using sc by (cases "dumpfile s"; cases "n = 188") (auto simp: dump_packet_def close_dump_def thenM_def io_simps
        call_def act_def ask_num_def pat_inv_def)
  have c: "collected s1 = collected s" using s1 by (auto simp: collected_def)
  have i1: "collect_inv s1" using inv s1 c by (auto simp: collect_inv_def demux_inv_def)
  show ?thesis
  proof (cases "pkt ! 0 = 0x47 \<and> pkt ! 1 AND 0x80 = 0 \<and> pos < 188")
    case True
    with payload_inside [OF i1 l _ pid(2) s1(5), of pos "pkt ! 1 AND 0x40 \<noteq> 0" fresh iconv]
    obtain r s' where "bindM (if pkt ! 1 AND 0x40 \<noteq> 0 then unit_start fresh pkt pid pos else unit_continue pkt pid pos)
      (\<lambda>stop. case stop of Some r \<Rightarrow> ret r | None \<Rightarrow> deliver iconv pid) s1 = Some (Inr r, s')" "a \<longrightarrow> \<not> r" by blast
    with True s1(1) show ?thesis
      by (intro exI [of _ r] exI [of _ s'])
        (simp add: thread_demux_def thenM_def io_simps rd pos pid(1) del: One_nat_def)
  next
    case False
    then show ?thesis using s1(1)
      by (cases "pkt ! 0 = 0x47"; cases "pkt ! 1 AND 0x80 = 0")
        (auto simp: thread_demux_def thenM_def io_simps rd pos pid(1) not_less simp del: One_nat_def)
  qed
qed

subsection \<open>A section over several packets\<close>

text \<open>The packets of a datagram in order, as long as \<^verbatim>\<open>thread_demux\<close> returns 0.\<close>

fun feed :: "(u32 list \<Rightarrow> bool \<times> string) \<Rightarrow> (nat \<Rightarrow> u8) \<Rightarrow> u8 list list \<Rightarrow> bool atsc_cmd" where
  "feed iconv fresh [] = ret False"
| "feed iconv fresh (p # ps) =
    bindM (thread_demux iconv fresh p) (\<lambda>r. if r then ret True else feed iconv fresh ps)"

text \<open>Packets of one PID that carry the pieces of a section, the first of them a unit start.\<close>

definition carries :: "u32 \<Rightarrow> bool \<Rightarrow> u8 list \<Rightarrow> u8 list \<Rightarrow> bool" where
  "carries pid start pkt xs \<longleftrightarrow> length pkt = 188 \<and> pkt_pid pkt = Some pid \<and> payload pkt = Some (start, xs)"

lemma section_len_prefix: "3 \<le> length a \<Longrightarrow> section_len (a @ b) = section_len a"
  using section_len_take [of "length a" "a @ b"] by simp

lemma incomplete_prefix:
  assumes "section_len (a @ b) = Some n" and "length a < n"
  shows "\<not> complete a"
  using assms section_len_prefix [of a b] section_len_short [of a]
  by (cases "3 \<le> length a") (auto simp: complete_def)

lemma handed_over_trans:
  "same_tables s s1 \<Longrightarrow> fewer s s1 \<Longrightarrow> handed_over iconv pid a s1 s' \<Longrightarrow> handed_over iconv pid a s s'"
  unfolding handed_over_def fewer_def by fastforce

text \<open>One packet from a state in which the outcome cannot be a failing \<^verbatim>\<open>malloc\<close>.\<close>

lemma packet_step:
  assumes "collect_inv s" and "carries pid start pkt xs"
    and "thread_demux iconv fresh pkt s = Some (Inr False, s')"
  shows "collect_inv s' \<and> step_ok iconv pid (collect (collected s pid) (Some (start, xs))) s (Inr False) s'"
  using demux_step [OF assms(1) _ _ assms(3), of pid] assms(2) by (auto simp: carries_def)

lemma continue_all:
  assumes "collect_inv s" and "collected s pid = Some a" and "list_all2 (carries pid False) pkts xss"
    and "xss \<noteq> []" and "section_len (a @ concat xss) = Some n" and "length (a @ concat (butlast xss)) < n"
    and "n \<le> length (a @ concat xss)" and "length (a @ concat xss) \<le> max_pkt_len"
    and "feed iconv fresh pkts s = Some (Inr False, s')"
  shows "collect_inv s' \<and> handed_over iconv pid (a @ concat xss) s s' \<and> collected s' pid = None"
  using assms
proof (induction xss arbitrary: pkts s a)
  case (Cons xs xss)
  from Cons.prems(3) obtain p ps where pk: "pkts = p # ps" "carries pid False p xs"
    "list_all2 (carries pid False) ps xss" by (auto simp: list_all2_Cons2)
  from Cons.prems(9) pk(1) obtain s1 where s1: "thread_demux iconv fresh p s = Some (Inr False, s1)"
    and rest: "feed iconv fresh ps s1 = Some (Inr False, s')"
    by (auto simp: bindM_Inr_iff split: if_splits)
  have le: "length (a @ xs) \<le> max_pkt_len" using Cons.prems(8) by simp
  have few: "fewer s s1" by (rule keepsD [OF few_demux s1])
  from packet_step [OF Cons.prems(1) pk(2) s1]
  have st: "collect_inv s1" "step_ok iconv pid (Some (a @ xs)) s (Inr False) s1"
    using le by (simp_all add: collect_def Cons.prems(2))
  show ?case
  proof (cases "xss = []")
    case True
    then have "complete (a @ xs)" using Cons.prems(5,7) by (simp add: complete_def)
    moreover have "s' = s1" using rest pk(3) True by simp
    ultimately show ?thesis using st True by (simp add: step_ok_def)
  next
    case False
    then have "length (a @ xs) < n" using Cons.prems(6) by simp
    then have "\<not> complete (a @ xs)"
      using incomplete_prefix [of "a @ xs" "concat xss" n] Cons.prems(5) by simp
    with st(2) have s1: "same_tables s s1" "collected s1 pid = Some (a @ xs)" by (simp_all add: step_ok_def)
    from Cons.IH [OF st(1) s1(2) pk(3) False _ _ _ _ rest] Cons.prems(5-8) False
    have "collect_inv s' \<and> handed_over iconv pid ((a @ xs) @ concat xss) s1 s' \<and> collected s' pid = None"
      by simp
    with handed_over_trans [OF s1(1) few] show ?thesis by simp
  qed
qed simp

lemma feed_section:
  assumes inv: "collect_inv s" and p: "carries pid True p x" "x \<noteq> []"
    and ps: "list_all2 (carries pid False) ps xss"
    and n: "section_len (x @ concat xss) = Some n" "length (x @ concat (butlast xss)) < n \<or> xss = []"
    and le: "n \<le> length (x @ concat xss)" "length (x @ concat xss) \<le> max_pkt_len"
    and run: "feed iconv fresh (p # ps) s = Some (Inr False, s')"
  shows "collect_inv s' \<and> handed_over iconv pid (x @ concat xss) s s' \<and> collected s' pid = None"
proof -
  from run obtain s1 where s1: "thread_demux iconv fresh p s = Some (Inr False, s1)"
    and rest: "feed iconv fresh ps s1 = Some (Inr False, s')"
    by (auto simp: bindM_Inr_iff split: if_splits)
  have few: "fewer s s1" by (rule keepsD [OF few_demux s1])
  from packet_step [OF inv p(1) s1]
  have st: "collect_inv s1" "step_ok iconv pid (Some x) s (Inr False) s1"
    using p(2) by (simp_all add: collect_def)
  show ?thesis
  proof (cases "xss = []")
    case True
    then have "complete x" using n(1) le by (simp add: complete_def)
    moreover have "s' = s1" using rest ps True by simp
    ultimately show ?thesis using st True by (simp add: step_ok_def)
  next
    case False
    then have l: "length (x @ concat (butlast xss)) < n" using n(2) by simp
    then have "\<not> complete x" using incomplete_prefix [OF n(1)] by simp
    with st(2) have s1: "same_tables s s1" "collected s1 pid = Some x" by (simp_all add: step_ok_def)
    from continue_all [OF st(1) s1(2) ps False n(1) l le rest] handed_over_trans [OF s1(1) few]
    show ?thesis by blast
  qed
qed

lemma rd16_unat:
  assumes "rd16 buf i = Some v"
  shows "unat v = 256 * unat (buf ! i) + unat (buf ! (i + 1))"
proof -
  let ?a = "buf ! i" and ?b = "buf ! (i + 1)"
  have "unat ?a < 256" "unat ?b < 256"
    using unsigned_less [of ?a, where ?'a = nat] unsigned_less [of ?b, where ?'a = nat] by simp_all
  moreover have "v = push_bit 8 (ucast ?a) + ucast ?b" using assms by (simp add: rd16_Some_iff)
  ultimately show ?thesis
    by (simp add: push_bit_eq_mult unat_word_ariths unsigned_ucast_eq take_bit_nat_eq_self)
qed

lemma marked_length:
  assumes "d < 16"
  shows "unat ((0xb0 :: u8) OR of_nat d) = 0xb0 + d"
proof -
  have e: "(0xb0 :: u8) = push_bit 4 0xb" by simp
  have u: "unat (of_nat d :: u8) = d" using assms by (simp add: unsigned_of_nat take_bit_nat_eq_self)
  have "\<not> bit (0xb0 :: u8) n \<or> \<not> bit (of_nat d :: u8) n" for n
  proof (cases "n < 4")
    case True
    then show ?thesis unfolding e bit_push_bit_iff by simp
  next
    case False
    have "uint (of_nat d :: u8) = int d" using u of_nat_unat [of "of_nat d :: u8", where ?'a = int] by simp
    then have "uint (of_nat d :: u8) < 2 ^ 4" using assms by simp
    then show ?thesis using no_high_bit [of "of_nat d :: u8" 4 n] False by simp
  qed
  then have "(0xb0 :: u8) OR of_nat d = 0xb0 + of_nat d" by (simp add: disjunctive_add)
  then show ?thesis using assms u by (simp add: unat_word_ariths)
qed

lemma section_len_bytes:
  assumes "length p + 9 < 4096"
  shows "section_len (section_bytes t e v p @ junk) = Some (length p + 12)"
proof -
  let ?n = "length p + 9" and ?s = "section_bytes t e v p @ junk"
  have b: "?s ! 1 = 0xb0 OR of_nat (?n div 256)" "?s ! 2 = of_nat (?n mod 256)"
    by (simp_all add: nth_append section_bytes_def Let_def)
  obtain w where w: "rd16 ?s 1 = Some w" by (simp add: rd_simps)
  have "?n div 256 < 16" using assms by (simp add: less_mult_imp_div_less)
  then have "unat (?s ! 1) = 0xb0 + ?n div 256" unfolding b by (rule marked_length)
  moreover have "unat (?s ! 2) = ?n mod 256" unfolding b by (simp add: unsigned_of_nat take_bit_nat_eq_self)
  ultimately have "unat w = 0xb000 + ?n"
    using rd16_unat [OF w] by (simp add: numeral_2_eq_2 [symmetric])
  moreover have m: "(0xfff :: u32) = mask 12" by (simp add: mask_eq_exp_minus_1)
  moreover have "(0xb000 + ?n) mod 4096 = ?n"
    using assms mod_mult_self1 [of ?n 11 4096] by (simp add: add.commute)
  ultimately have "unat (w AND 0xfff) = ?n"
    using assms unfolding m take_bit_eq_mask [symmetric] by (simp add: unsigned_take_bit_eq take_bit_eq_mod unat_mod_distrib)
  then have "unat ((w AND 0xfff) + 3) = ?n + 3" using assms by (simp add: unat_word_ariths)
  then show ?thesis using w by (simp add: section_len_def)
qed

lemma same_tables_fields:
  assumes "same_tables s s'"
  shows "pat_curver s' = pat_curver s" "pat_tsid s' = pat_tsid s" "pmt_pid s' = pmt_pid s"
    "pat s' = pat s" "pat_max s' = pat_max s" "pat_use s' = pat_use s" "pat_inv s' = pat_inv s"
    "pat_lookup s' = pat_lookup s" "pat_after es s' = pat_after es s"
proof -
  have "pat_curver (tables s') = pat_curver (tables s)" "pat_tsid (tables s') = pat_tsid (tables s)"
    "pmt_pid (tables s') = pmt_pid (tables s)" "pat (tables s') = pat (tables s)"
    "pat_max (tables s') = pat_max (tables s)" "pat_use (tables s') = pat_use (tables s)"
    using assms by simp_all
  then have f: "pat_curver s' = pat_curver s" "pat_tsid s' = pat_tsid s" "pmt_pid s' = pmt_pid s"
    "pat s' = pat s" "pat_max s' = pat_max s" "pat_use s' = pat_use s"
    by (simp_all add: tables_def)
  show "pat_curver s' = pat_curver s" "pat_tsid s' = pat_tsid s" "pmt_pid s' = pmt_pid s"
    "pat s' = pat s" "pat_max s' = pat_max s" "pat_use s' = pat_use s" by (rule f)+
  show "pat_inv s' = pat_inv s" "pat_lookup s' = pat_lookup s" "pat_after es s' = pat_after es s"
    by (simp_all only: pat_inv_def pat_lookup_def pat_after_def f fun_eq_iff) simp_all
qed

text \<open>C2: A program association table that arrives in transport packets, cut into pieces in any
  way and followed by stuffing, ends up as the map it encodes; the packets may follow anything
  that the demultiplexer has seen before. The one way out is the array of programs for which
  \<^verbatim>\<open>malloc\<close> returns nothing; the table is then empty, its version and id recorded.\<close>

theorem pat_from_packets:
  assumes "collect_inv s" and "length es \<le> 1000"
    and "vb AND 1 \<noteq> 0" and "version_next (pat_curver s) (rx_version vb)" and "tsid < 65536"
    and "\<forall>(p, c) \<in> set es. p < 65536 \<and> c < 0x2000"
    and "carries 0 True p x" and "x \<noteq> []" and "list_all2 (carries 0 False) ps xss"
    and "x @ concat xss = section_bytes 0 tsid vb (pat_bytes es) @ stuffing"
    and "length (x @ concat (butlast xss)) < 4 * length es + 12 \<or> xss = []"
    and "length (x @ concat xss) \<le> max_pkt_len"
    and "feed iconv fresh (p # ps) s = Some (Inr False, s')"
  shows "collect_inv s' \<and> collected s' 0 = None \<and> pat_curver s' = rx_version vb \<and>
    pat_tsid s' = (if tsid = 0 then pat_tsid s else tsid) \<and> pmt_pid s' = pat_pmt (pmt_pid s) es \<and>
    (pat s' = None \<and> Ev_malloc False \<in> set (script (env s)) \<or>
     (\<forall>p. pat_lookup s' p = pat_after es s p))"
proof -
  let ?n = "4 * length es + 12" and ?sec = "section_bytes 0 tsid vb (pat_bytes es)"
  have n: "section_len (x @ concat xss) = Some ?n"
    unfolding assms(10) using section_len_bytes [of "pat_bytes es" 0 tsid vb stuffing] assms(2) by simp
  have le: "?n \<le> length (x @ concat xss)" unfolding assms(10) by simp
  from feed_section [OF assms(1,7,8,9) n assms(11) le assms(12,13)]
  have post: "collect_inv s'" "handed_over iconv 0 (x @ concat xss) s s'" "collected s' 0 = None" by auto
  then obtain buf s1 q s2 where buf: "take (length (x @ concat xss)) buf = x @ concat xss"
    and st: "same_tables s s1" "same_tables s2 s'" and few: "fewer s s1"
    and run: "parse_tbl iconv buf ?n 0 s1 = Some (q, s2)"
    unfolding handed_over_def n by auto
  define j where "j = drop (length (x @ concat xss)) buf"
  have "buf = (x @ concat xss) @ j" by (metis append_take_drop_id buf j_def)
  then have b: "buf = ?sec @ stuffing @ j" by (simp add: assms(10))
  have run: "parse_pat (?sec @ stuffing @ j) ?n s1 = Some (q, s2)"
    using run b by (simp add: parse_tbl_def)
  note f1 = same_tables_fields [OF st(1)] and f2 = same_tables_fields [OF st(2)]
  have "pat_inv s1" using assms(1) f1(7) by (simp add: collect_inv_def demux_inv_def)
  from pat_section_cases [OF this assms(3) _ assms(5,6) run] assms(4) post(1,3) few
  show ?thesis unfolding f1 f2 fewer_def by auto
qed

theorem pat_from_packets_witness:
  "\<exists>s'. feed (\<lambda>_. (True, [])) (\<lambda>_. 0)
     [[0x47, 0x40, 0, 0x10, 0] @ section_bytes 0 0x17 0xc1 (pat_bytes [(3, 0x31)]) @ replicate 167 0xff]
     (new_mpgatsc \<lparr>script = [Ev_malloc True, Ev_malloc True], trace = [], blocks = 0\<rparr>) = Some (Inr False, s') \<and>
     pat_lookup s' 0 = Some 0 \<and> pat_lookup s' 3 = Some 0x31 \<and> pat_lookup s' 4 = None \<and> pmt_pid s' = 0x31"
proof -
  let ?es = "[(3, 0x31)] :: (u32 \<times> u32) list"
  let ?x = "section_bytes 0 0x17 0xc1 (pat_bytes ?es) @ replicate 167 0xff"
  let ?p = "[0x47, 0x40, 0, 0x10, 0] @ ?x"
  let ?s = "new_mpgatsc \<lparr>script = [Ev_malloc True, Ev_malloc True], trace = [], blocks = 0\<rparr>"
  have inv: "collect_inv ?s"
    by (simp add: collect_inv_def demux_inv_def new_mpgatsc_def pat_inv_def collected_def)
  have l: "length ?p = 188" by simp
  have pid: "pkt_pid ?p = Some 0" by (simp add: pkt_pid_def rd_simps)
  have pl: "payload ?p = Some (True, ?x)"
    by (simp add: payload_def payload_pos_def rd_simps)
  have car: "carries 0 True ?p ?x" by (simp only: carries_def l pid pl)
  obtain r s' where r: "thread_demux (\<lambda>_. (True, [])) (\<lambda>_. 0) ?p ?s = Some (Inr r, s')" and "\<not> r"
    using demux_inside [OF inv l pid, of 0 True True "[]" "\<lambda>_. (True, [])" "\<lambda>_. 0"]
    by (auto simp: new_mpgatsc_def)
  then have f: "feed (\<lambda>_. (True, [])) (\<lambda>_. 0) [?p] ?s = Some (Inr False, s')"
    by (simp add: io_simps)
  have v: "rx_version 0xc1 = 0" by (simp add: rx_version_def)
  have ver: "version_next (pat_curver ?s) (rx_version 0xc1)" by (simp add: new_mpgatsc_def version_next_def)
  have lk: "pat_after ?es ?s 0 = Some 0" "pat_after ?es ?s 3 = Some 0x31" "pat_after ?es ?s 4 = None"
    by (simp_all add: pat_after_def pat_limit_def new_mpgatsc_def)
  have all: "Ev_malloc False \<notin> set (script (env ?s))" by (simp add: new_mpgatsc_def)
  have pm: "pat_pmt (pmt_pid ?s) ?es = 0x31" by (simp add: pat_pmt_def)
  have le: "length ?x \<le> max_pkt_len" by (simp add: max_pkt_len_def)
  from pat_from_packets [where es = "[(3, 0x31)]" and tsid = "0x17" and stuffing = "replicate 167 0xff" and xss = "[]", OF inv _ _ ver _ _ car _ _ _ _ _ f] le lk pm all
  show ?thesis using f by (intro exI [of _ s']) (auto simp del: feed.simps)
qed

theorem demux_refines_reassembly_witness:
  "\<exists>r s' a. thread_demux (\<lambda>_. (True, [])) (\<lambda>_. 0) ([0x47, 0x40, 0x31, 0x10, 0, 2, 0xb0, 0xff] @ replicate 180 1)
     (new_mpgatsc \<lparr>script = [Ev_malloc True, Ev_malloc True], trace = [], blocks = 0\<rparr>) = Some (r, s') \<and>
     collected s' 0x31 = Some a \<and> length a = 183"
proof -
  let ?s = "new_mpgatsc \<lparr>script = [Ev_malloc True, Ev_malloc True], trace = [], blocks = 0\<rparr>"
  let ?p = "[0x47, 0x40, 0x31, 0x10, 0, 2, 0xb0, 0xff] @ replicate 180 1 :: u8 list"
  have inv: "collect_inv ?s"
    by (simp add: collect_inv_def demux_inv_def new_mpgatsc_def pat_inv_def collected_def)
  have pid: "pkt_pid ?p = Some 0x31" by code_simp
  have pl: "payload ?p = Some (True, [2, 0xb0, 0xff] @ replicate 180 1)" by code_simp
  have c: "\<not> complete ([2, 0xb0, 0xff] @ replicate 180 1)" by code_simp
  obtain s' where r: "thread_demux (\<lambda>_. (True, [])) (\<lambda>_. 0) ?p ?s = Some (Inr False, s')"
    using demux_inside [OF inv _ pid, of 0 True True "[]" "\<lambda>_. (True, [])" "\<lambda>_. 0"]
    by (auto simp: new_mpgatsc_def)
  have l: "length ?p = 188" by simp
  have cl: "collect (collected ?s 0x31) (payload ?p) = Some ([2, 0xb0, 0xff] @ replicate 180 1)"
    unfolding pl by (simp add: collect_def)
  from demux_refines_reassembly [OF inv l pid r] have "collected s' 0x31 = Some ([2, 0xb0, 0xff] @ replicate 180 1)"
    unfolding cl step_ok_def using c by simp
  with r show ?thesis by (intro exI conjI) (assumption | simp)+
qed

text \<open>C12: Every packet of 188 bytes on a PID other than that of the PSIP tables is handled inside the
  packet, inside the buffers and inside the array of programs, whatever its bytes and whatever
  came before; only a wrong sync byte or a failing \<^verbatim>\<open>malloc\<close> is reported.\<close>

theorem packet_stays_inside:
  assumes "collect_inv s" and "length pkt = 188" and "pkt_pid pkt = Some pid" and "pid \<noteq> 0x1ffb"
    and "script (env s) = (if dumpfile s then [Ev_num n] else []) @ Ev_malloc a # Ev_malloc b # evs"
  shows "\<exists>r s'. thread_demux iconv fresh pkt s = Some (Inr r, s') \<and> (a \<and> pkt ! 0 = 0x47 \<longrightarrow> \<not> r)"
  by (rule demux_inside [OF assms])

theorem packet_stays_inside_witness:
  "\<exists>r s'. thread_demux (\<lambda>_. (True, [])) (\<lambda>_. 0) (0x47 # replicate 187 0x7f)
     (new_mpgatsc \<lparr>script = [Ev_malloc True, Ev_malloc True], trace = [], blocks = 0\<rparr>) = Some (Inr r, s')"
proof -
  let ?s = "new_mpgatsc \<lparr>script = [Ev_malloc True, Ev_malloc True], trace = [], blocks = 0\<rparr>"
  have inv: "collect_inv ?s"
    by (simp add: collect_inv_def demux_inv_def new_mpgatsc_def pat_inv_def collected_def)
  have pid: "pkt_pid (0x47 # replicate 187 0x7f) = Some 0x1f7f" by code_simp
  from packet_stays_inside [OF inv _ pid, of 0 True True "[]" "\<lambda>_. (True, [])" "\<lambda>_. 0"]
  show ?thesis by (auto simp: new_mpgatsc_def)
qed

end
