(* ===== verification/Sez_Lifetime.thy ===== *)
theory Sez_Lifetime
  imports Sez_Reassembly
begin

text \<open>
  The heap of a demultiplexer: what an object holds, what every call changes of it, and that
  the destructor frees all of it.
\<close>

subsection \<open>Life time\<close>

text \<open>The blocks an object holds, and the number of blocks in use that it does not hold.\<close>

definition held :: "mpgatsc \<Rightarrow> int" where
  "held s = of_bool (vctstr s \<noteq> None) + of_bool (pat s \<noteq> None) + int (card (dom (pktlist s)))"

definition foreign :: "mpgatsc \<Rightarrow> int" where
  "foreign s = blocks (env s) - held s"

definition balanced :: "mpgatsc \<Rightarrow> mpgatsc \<Rightarrow> bool" where
  "balanced s s' \<longleftrightarrow> foreign s' = foreign s"

interpretation bal: state_order balanced
  by unfold_locales (simp_all add: balanced_def)

lemmas bal_defs = balanced_def foreign_def held_def

lemma bal_quiet [simp]:
  "keeps balanced (look g)" "keeps balanced (need v)" "keeps balanced (call ask_ok)"
  "keeps balanced (call ask_num)" "keeps balanced (call (act a))" "keeps balanced (set_pktlen pid n)"
  by (auto simp: keeps_def bal_defs call_def ask_ok_def ask_num_def act_def set_pktlen_def
      split: option.splits list.splits os_event.splits)

lemma bal_put:
  "(\<And>s. vctstr (f s) = vctstr s \<and> pat (f s) = pat s \<and> pktlist (f s) = pktlist s \<and> env (f s) = env s) \<Longrightarrow>
   keeps balanced (put f)"
  by (simp add: keeps_def bal_defs)

lemma bal_free_vct: "keeps balanced free_vct"
  by (auto simp: keeps_def free_vct_def cmd_iffs bal_defs split: if_splits)

lemma bal_pat_room: "keeps balanced pat_room"
  unfolding keeps_def
proof (intro allI impI)
  fix s r s' assume "pat_room s = Some (r, s')"
  then show "balanced s s'"
    by (cases "pat s"; cases "pat_max s \<le> pat_use s")
      (auto simp: pat_room_def cmd_iffs bal_defs split: if_splits)
qed

lemma bal_pat_apply: "keeps balanced (pat_apply es)"
proof -
  have "balanced s s'" if "pat_apply es s = Some (r, s')" for s r s'
  proof -
    let ?s0 = "s\<lparr>pat_use := pat_limit es + 1, pmt_pid := pat_pmt (pmt_pid s) es\<rparr>"
    from that obtain q s1 where room: "pat_room ?s0 = Some (q, s1)" and
      rest: "s' = s1 \<or> (\<exists>arr. q = Inr True \<and> s' = s1\<lparr>pat := Some arr\<rparr>)"
      by (auto simp: pat_apply_def cmd_iffs split: if_splits)
    have "balanced s ?s0" by (simp add: bal_defs)
    moreover have "balanced ?s0 s1" using keepsD [OF bal_pat_room room] .
    moreover have "pat s1 \<noteq> None" if "q = Inr True"
      using room that by (auto simp: pat_room_def cmd_iffs split: if_splits)
    then have "balanced s1 s'" using rest by (auto simp: bal_defs)
    ultimately show ?thesis by (simp add: balanced_def)
  qed
  then show ?thesis by (simp add: keeps_def)
qed

lemma bal_parse_vct: "keeps balanced (parse_vct iconv pkt len pos snl)"
  by (auto simp: keeps_def parse_vct_def cmd_iffs bal_defs split: if_splits)

lemma bal_parse_tbl: "keeps balanced (parse_tbl iconv pkt len pid)"
  unfolding parse_tbl_def parse_pat_def parse_psip_mgt_def parse_psip_vct_def parse_pmt_def
  by (auto intro!: bal.keeps_intros bal_put bal_pat_apply bal_parse_vct split: prod.splits)

lemma card_dom_upd:
  fixes m :: "u32 \<Rightarrow> 'a option"
  shows "card (insert k (dom m)) = card (dom m) + (if m k = None then 1 else 0)"
    and "card (dom m - {k}) = card (dom m) - (if m k = None then 0 else 1)"
proof -
  have "finite (dom m)" by simp
  then show "card (insert k (dom m)) = card (dom m) + (if m k = None then 1 else 0)"
    by (simp add: card_insert_if domIff)
  show "card (dom m - {k}) = card (dom m) - (if m k = None then 0 else 1)"
    by (simp add: card_Diff_singleton_if domIff)
qed

lemma bal_store: "keeps balanced (store pid i xs)"
  by (auto simp: keeps_def store_iff bal_defs card_dom_upd)

lemma bal_buf_room: "keeps balanced (buf_room fresh pid)"
  by (auto simp: keeps_def buf_room_def cmd_iffs bal_defs card_dom_upd split: if_splits)

lemma bal_start_at: "keeps balanced (start_at fresh pkt pid pos)"
  unfolding start_at_def by (auto intro!: bal.keeps_intros bal_store bal_buf_room)

lemma bal_unit_continue: "keeps balanced (unit_continue pkt pid pos)"
  unfolding unit_continue_def Let_def
  by (auto intro!: bal.keeps_intros bal_store)

lemma bal_deliver: "keeps balanced (deliver iconv pid)"
  unfolding deliver_def by (auto intro!: bal.keeps_intros bal_parse_tbl)

lemma bal_close_dump: "keeps balanced close_dump"
  unfolding close_dump_def by (auto intro!: bal.keeps_intros bal_put)

lemma bal_thread_demux: "keeps balanced (thread_demux iconv fresh pkt)"
  unfolding thread_demux_def dump_packet_def unit_start_def
  by (auto intro!: bal.keeps_intros bal_start_at bal_unit_continue bal_deliver bal_close_dump bal_put
      split: option.splits)

lemma bal_init: "keeps balanced atsc_init"
  unfolding atsc_init_def open_iconv_def restart_dump_def
  by (auto intro!: bal.keeps_intros bal_free_vct bal_close_dump bal_put)

lemma bal_open_dump: "keeps balanced (open_dump f)"
  unfolding open_dump_def by (auto intro!: bal.keeps_intros bal_put)

lemma bal_free_buf: "keeps balanced (free_buf i)"
  unfolding keeps_def
proof (intro allI impI)
  fix s r s' assume run: "free_buf i s = Some (r, s')"
  have "\<exists>n. card (dom (pktlist s)) = Suc n" if "pktlist s i \<noteq> None"
    by (rule not0_implies_Suc) (use that in \<open>auto simp: card_eq_0_iff\<close>)
  with run show "balanced s s'"
    by (cases "pktlist s i") (auto simp: free_buf_def cmd_iffs bal_defs card_dom_upd)
qed

lemma bal_free_bufs: "keeps balanced (free_bufs is)"
  by (induction "is" rule: free_bufs.induct) (auto intro: bal.keeps_intros bal_free_buf)

lemma bal_free_pat: "keeps balanced free_pat"
  by (auto simp: keeps_def free_pat_def cmd_iffs bal_defs split: if_splits)

lemma bal_destroy: "keeps balanced atsc_destroy"
  unfolding atsc_destroy_def
  by (auto intro!: bal.keeps_intros bal_free_vct bal_free_pat bal_free_bufs bal_put bal_close_dump)

text \<open>The calls of a client, between the constructor and the destructor.\<close>

datatype client_call = Init | Packet "u8 list" | Open_dump string

fun client_run :: "(u32 list \<Rightarrow> bool \<times> string) \<Rightarrow> (nat \<Rightarrow> u8) \<Rightarrow> client_call list \<Rightarrow> unit atsc_cmd" where
  "client_run iconv fresh [] = ret ()"
| "client_run iconv fresh (c # cs) =
    thenM (case c of Init \<Rightarrow> atsc_init | Packet p \<Rightarrow> thread_demux iconv fresh p | Open_dump f \<Rightarrow> open_dump f)
      (client_run iconv fresh cs)"

lemma bal_client_run: "keeps balanced (client_run iconv fresh cs)"
  by (induction cs rule: client_run.induct)
    (auto intro: bal.keeps_intros bal_init bal_thread_demux bal_open_dump split: client_call.splits)

text \<open>Buffers exist for PIDs below 0x2000 only.\<close>

definition pids_bounded :: "mpgatsc \<Rightarrow> bool" where
  "pids_bounded s \<longleftrightarrow> (\<forall>p. pktlist s p \<noteq> None \<longrightarrow> p \<in> set pids)"

definition bounded_kept :: "mpgatsc \<Rightarrow> mpgatsc \<Rightarrow> bool" where
  "bounded_kept s s' \<longleftrightarrow> (pids_bounded s \<longrightarrow> pids_bounded s')"

interpretation bnd: state_order bounded_kept
  by unfold_locales (simp_all add: bounded_kept_def)

lemma set_pids: "set pids = {p. p < 0x2000}"
proof -
  have "p \<in> of_nat ` {0..<0x2000}" if "p < 0x2000" for p :: u32
    by (rule image_eqI [of _ _ "unat p"]) (use that in \<open>simp_all add: word_less_nat_alt\<close>)
  moreover have "(of_nat n :: u32) < 0x2000" if "n < 0x2000" for n
    using that by (simp add: word_less_nat_alt unsigned_of_nat take_bit_nat_eq_self)
  ultimately show ?thesis by (auto simp: pids_def)
qed

lemma bnd_quiet [simp]:
  "keeps bounded_kept (look g)" "keeps bounded_kept (need v)" "keeps bounded_kept (call m)"
  "keeps bounded_kept (set_pktlen pid n)"
  by (auto simp: keeps_def bounded_kept_def pids_bounded_def call_def set_pktlen_def split: option.splits)

lemma bnd_put: "(\<And>s. pktlist (f s) = pktlist s) \<Longrightarrow> keeps bounded_kept (put f)"
  by (simp add: keeps_def bounded_kept_def pids_bounded_def)

lemma bnd_parse_tbl: "keeps bounded_kept (parse_tbl iconv pkt len pid)"
  using bufs_parse_tbl [of iconv pkt len pid]
  by (auto simp: keeps_def same_bufs_def bounded_kept_def pids_bounded_def)

lemma bnd_store: "keeps bounded_kept (store pid i xs)"
  by (auto simp: keeps_def store_iff bounded_kept_def pids_bounded_def split: if_splits)

lemma bnd_buf_room: "pid \<in> set pids \<Longrightarrow> keeps bounded_kept (buf_room fresh pid)"
  by (auto simp: keeps_def buf_room_def cmd_iffs bounded_kept_def pids_bounded_def split: if_splits)

lemma pkt_pid_bound: "pkt_pid pkt = Some pid \<Longrightarrow> pid \<in> set pids"
proof -
  assume "pkt_pid pkt = Some pid"
  then obtain v where "pid = v AND 0x1fff" by (auto simp: pkt_pid_def bind_eq_Some_conv)
  moreover have "v AND 0x1fff \<le> 0x1fff" by (rule word_and_le1)
  ultimately show ?thesis unfolding set_pids by (auto intro: order.strict_trans1)
qed

lemma keeps_needI: "(\<And>x. v = Some x \<Longrightarrow> keeps R (f x)) \<Longrightarrow> keeps R (bindM (need v) f)"
  by (auto simp: keeps_def bindM_Some_iff)

lemma bnd_thread_demux: "keeps bounded_kept (thread_demux iconv fresh pkt)"
proof -
  have dump: "keeps bounded_kept (dump_packet pkt)"
    unfolding dump_packet_def close_dump_def by (auto intro!: bnd.keeps_intros bnd_put)
  have payload: "keeps bounded_kept (unit_continue pkt pid pos)" "keeps bounded_kept (deliver iconv pid)"
    "pid \<in> set pids \<Longrightarrow> keeps bounded_kept (unit_start fresh pkt pid pos)" for pid pos
    unfolding unit_start_def start_at_def unit_continue_def deliver_def Let_def
    by (auto intro!: bnd.keeps_intros bnd_store bnd_buf_room bnd_parse_tbl)
  have tail: "keeps bounded_kept (bindM (need (pkt_pid pkt)) (\<lambda>pid. bindM (need (payload_pos pkt)) (\<lambda>pos.
      if pos \<ge> 188 then ret False
      else bindM (if b then unit_start fresh pkt pid pos else unit_continue pkt pid pos)
        (\<lambda>stop. case stop of Some r \<Rightarrow> ret r | None \<Rightarrow> deliver iconv pid))))" for b
    by (rule keeps_needI)
      (auto intro!: bnd.keeps_intros payload dest: pkt_pid_bound split: option.splits)
  show ?thesis unfolding thread_demux_def
    by (intro bnd.ret bnd.ifI bnd.thenI dump tail bnd_quiet | rule bnd.bindI)+
qed

lemma bnd_init: "keeps bounded_kept atsc_init" and bnd_open_dump: "keeps bounded_kept (open_dump f)"
  unfolding atsc_init_def open_iconv_def free_vct_def restart_dump_def close_dump_def open_dump_def
  by (auto intro!: bnd.keeps_intros bnd_put)

lemma bnd_client_run: "keeps bounded_kept (client_run iconv fresh cs)"
  by (induction cs rule: client_run.induct)
    (auto intro: bnd.keeps_intros bnd_thread_demux bnd_init bnd_open_dump split: client_call.splits)

lemma free_bufs_empty:
  "free_bufs is s = Some (r, s') \<Longrightarrow> dom (pktlist s') = dom (pktlist s) - set is \<and> vctstr s' = vctstr s \<and> pat s' = pat s"
proof (induction "is" arbitrary: s)
  case (Cons i "is")
  from Cons.prems obtain s1 where 1: "free_buf i s = Some (Inr (), s1)" and 2: "free_bufs is s1 = Some (r, s')"
    by (auto simp: thenM_Some_iff free_buf_def cmd_iffs split: if_splits)
  from 1 have "dom (pktlist s1) = dom (pktlist s) - {i} \<and> vctstr s1 = vctstr s \<and> pat s1 = pat s"
    by (auto simp: free_buf_def cmd_iffs split: if_splits)
  with Cons.IH [OF 2] show ?case by auto
qed simp

lemma no_err_destroy_parts:
  "no_err free_vct" "no_err free_pat" "no_err (free_bufs is)"
proof -
  show "no_err free_vct" "no_err free_pat"
    unfolding free_vct_def free_pat_def by (auto intro!: no_err_bind no_err_then)
  have "no_err (free_buf i)" for i
    unfolding free_buf_def by (auto intro!: no_err_bind no_err_then)
  then show "no_err (free_bufs is)"
    by (induction "is" rule: free_bufs.induct) (auto intro!: no_err_then)
qed

lemma destroy_empties:
  assumes "atsc_destroy s = Some (r, s')" and "pids_bounded s"
  shows "held s' = 0"
proof -
  have unit: "\<exists>s1. m s = Some (Inr (), s1) \<and> k s1 = Some (r, s')"
    if "thenM m k s = Some (r, s')" and "no_err m" for m k and s :: mpgatsc
    using that by (auto simp: thenM_Some_iff dest: no_errD)
  from unit [OF assms(1) [unfolded atsc_destroy_def] no_err_destroy_parts(1)] obtain s1 where
    s1: "free_vct s = Some (Inr (), s1)" and k1: "thenM free_pat (thenM (free_bufs pids)
      (thenM (put (\<lambda>s. s\<lparr>iconv_hnd := 0\<rparr>))
        (bindM (look dumpfile) (\<lambda>d. if d then close_dump else ret ())))) s1 = Some (r, s')" by blast
  from unit [OF k1 no_err_destroy_parts(2)] obtain s2 where
    s2: "free_pat s1 = Some (Inr (), s2)" and k2: "thenM (free_bufs pids)
      (thenM (put (\<lambda>s. s\<lparr>iconv_hnd := 0\<rparr>))
        (bindM (look dumpfile) (\<lambda>d. if d then close_dump else ret ()))) s2 = Some (r, s')" by blast
  from unit [OF k2 no_err_destroy_parts(3)] obtain s3 where 2: "free_bufs pids s2 = Some (Inr (), s3)"
    and k3: "thenM (put (\<lambda>s. s\<lparr>iconv_hnd := 0\<rparr>))
        (bindM (look dumpfile) (\<lambda>d. if d then close_dump else ret ())) s3 = Some (r, s')" by blast
  from k3 have 3: "bindM (look dumpfile) (\<lambda>d. if d then close_dump else ret ()) (s3\<lparr>iconv_hnd := 0\<rparr>) = Some (r, s')"
    by (auto simp: thenM_Some_iff)
  have "pktlist s1 = pktlist s" "vctstr s1 = None" "pat s2 = None" "pktlist s2 = pktlist s1" "vctstr s2 = vctstr s1"
    using s1 s2 by (auto simp: free_vct_def free_pat_def cmd_iffs split: if_splits)
  with free_bufs_empty [OF 2] assms(2) have "dom (pktlist s3) = {}" "vctstr s3 = None" "pat s3 = None"
    by (auto simp: pids_bounded_def)
  moreover have "pktlist s' = pktlist s3" "vctstr s' = vctstr s3" "pat s' = pat s3"
    using 3 by (auto simp: close_dump_def cmd_iffs call_def act_def split: if_splits)
  ultimately show ?thesis by (simp add: held_def)
qed

text \<open>C3: Over the life of an object, with any calls of \<^verbatim>\<open>init\<close>, \<^verbatim>\<open>thread_demux\<close> and \<^verbatim>\<open>open_dump\<close> between
  its construction and its destruction, on any packets and with any outcome of every
  \<^verbatim>\<open>malloc\<close>, each block that was allocated is freed exactly once.\<close>

theorem lifetime_frees_all:
  assumes "client_run iconv fresh cs (new_mpgatsc w) = Some (r, s)" and "atsc_destroy s = Some (q, s')"
  shows "blocks (env s') = blocks w"
proof -
  have "pids_bounded (new_mpgatsc w)" by (simp add: pids_bounded_def new_mpgatsc_def)
  then have "held s' = 0"
    using destroy_empties [OF assms(2)] keepsD [OF bnd_client_run assms(1)] by (simp add: bounded_kept_def)
  moreover have "foreign s' = foreign (new_mpgatsc w)"
    using keepsD [OF bal_client_run assms(1)] keepsD [OF bal_destroy assms(2)] by (simp add: balanced_def)
  ultimately show ?thesis by (simp add: foreign_def held_def new_mpgatsc_def)
qed

lemma free_bufs_runs: "\<exists>s'. free_bufs is s = Some (Inr (), s')"
proof (induction "is" arbitrary: s)
  case (Cons i "is")
  obtain s1 where "free_buf i s = Some (Inr (), s1)"
    by (cases "pktlist s i") (auto simp: free_buf_def thenM_def io_simps call_def free_block_def)
  with Cons.IH [of s1] show ?case by (auto simp: thenM_def io_simps)
qed (simp add: io_simps)

lemma destroy_runs: "\<exists>s'. atsc_destroy s = Some (Inr (), s')"
proof -
  obtain s1 where 1: "free_vct s = Some (Inr (), s1)"
    by (cases "vctstr s") (auto simp: free_vct_def thenM_def io_simps call_def free_block_def)
  obtain s2 where 2: "free_pat s1 = Some (Inr (), s2)"
    by (cases "pat s1") (auto simp: free_pat_def thenM_def io_simps call_def free_block_def)
  obtain s3 where 3: "free_bufs pids s2 = Some (Inr (), s3)" using free_bufs_runs by blast
  show ?thesis using 1 2 3
    by (cases "dumpfile s3")
      (simp_all add: atsc_destroy_def thenM_def io_simps close_dump_def call_def act_def)
qed

theorem lifetime_frees_all_witness:
  "\<exists>r s q s'. client_run (\<lambda>_. (True, [])) (\<lambda>_. 0) [Packet ([0x47, 0x40, 0x31, 0x10, 0, 2, 0xb0, 0xff] @ replicate 180 1)]
     (new_mpgatsc \<lparr>script = [Ev_malloc True, Ev_malloc True], trace = [], blocks = 5\<rparr>) = Some (r, s) \<and>
     atsc_destroy s = Some (q, s') \<and> blocks (env s') = 5"
proof -
  let ?s = "new_mpgatsc \<lparr>script = [Ev_malloc True, Ev_malloc True], trace = [], blocks = 5\<rparr>"
  let ?p = "[0x47, 0x40, 0x31, 0x10, 0, 2, 0xb0, 0xff] @ replicate 180 1 :: u8 list"
  have inv: "collect_inv ?s"
    by (simp add: collect_inv_def demux_inv_def new_mpgatsc_def pat_inv_def collected_def)
  have pid: "pkt_pid ?p = Some 0x31" by code_simp
  obtain s where r0: "thread_demux (\<lambda>_. (True, [])) (\<lambda>_. 0) ?p ?s = Some (Inr False, s)"
    using demux_inside [OF inv _ pid, of 0 True True "[]" "\<lambda>_. (True, [])" "\<lambda>_. 0"]
    by (auto simp: new_mpgatsc_def)
  have r: "client_run (\<lambda>_. (True, [])) (\<lambda>_. 0) [Packet ?p] ?s = Some (Inr (), s)"
    unfolding client_run.simps client_call.case 
    by (simp only: thenM_def bindM_def tryM_def r0 option.case prod.case sum.case ret_def)
  obtain s' where d: "atsc_destroy s = Some (Inr (), s')" using destroy_runs by blast
  have "blocks (env s') = 5" using lifetime_frees_all [OF r d] by simp
  with r d show ?thesis by blast
qed

end
