(* ===== verification/Sez_Socket.thy ===== *)
theory Sez_Socket
  imports Sez_Crc Sez_World
begin

text \<open>
  The TCP control channel of \<^verbatim>\<open>socket.cpp\<close>: \<^verbatim>\<open>pkt_add_crc\<close>, and \<^verbatim>\<open>open\<close>, \<^verbatim>\<open>close\<close>,
  \<^verbatim>\<open>write\<close>, \<^verbatim>\<open>read\<close> and \<^verbatim>\<open>write_then_read\<close> of the class \<^verbatim>\<open>socket\<close>. A frame is two
  bytes of type, two bytes of payload length, the payload, and the CRC of all of it, low byte
  first.
\<close>

subsection \<open>Frames\<close>

text \<open>
  \<^verbatim>\<open>pkt_add_crc\<close> fills in the header and the trailer of a packet whose payload stands
  between 4 reserved bytes on either side. On fewer than 8 bytes \<^verbatim>\<open>len -= 8\<close> wraps and the
  stores leave the buffer.
\<close>

definition pkt_add_crc :: "u8 list \<Rightarrow> u8 \<Rightarrow> u8 list option" where
  "pkt_add_crc pkt0 pkt_type =
    (if length pkt0 < 8 then None
     else let pkt = pkt0[0 := 0, 1 := pkt_type];
              len = length pkt0 - 8;
              pkt = pkt[2 := of_nat (len div 256), 3 := of_nat (len mod 256)];
              crc = tuner_calc_crc (take (len + 4) pkt)
          in Some (pkt[len + 4 := ucast crc, len + 5 := ucast (drop_bit 8 crc),
                       len + 6 := ucast (drop_bit 16 crc), len + 7 := ucast (drop_bit 24 crc)]))"

text \<open>The frame that carries a payload, and the space a caller reserves around it.\<close>

definition frame_head :: "u8 \<Rightarrow> u8 list \<Rightarrow> u8 list" where
  "frame_head pkt_type body =
    [0, pkt_type, of_nat (length body div 256), of_nat (length body mod 256)]"

definition frame :: "u8 \<Rightarrow> u8 list \<Rightarrow> u8 list" where
  "frame pkt_type body =
    frame_head pkt_type body @ body @ le32 (tuner_calc_crc (frame_head pkt_type body @ body))"

definition unframed :: "u8 list \<Rightarrow> u8 list" where
  "unframed body = [0, 0, 0, 0] @ body @ [0, 0, 0, 0]"

subsection \<open>Writing\<close>

text \<open>
  The loop of \<^verbatim>\<open>socket::write\<close>: it offers what is left until all is taken. A result larger
  than what was offered is no outcome of \<^verbatim>\<open>::write\<close>. The third component is what went out.
\<close>

fun write_loop :: "u8 list \<Rightarrow> os_event list \<Rightarrow> ((err + unit) \<times> os_event list \<times> u8 list) option" where
  "write_loop [] es = Some (Inr (), es, [])"
| "write_loop pkt (Ev_write r # es) =
    (if r < 0 then Some (Inl Sys_Error, es, [])
     else if length pkt < nat r then None
     else case write_loop (drop (nat r) pkt) es of
            None \<Rightarrow> None
          | Some (q, es', out) \<Rightarrow> Some (q, es', take (nat r) pkt @ out))"
| "write_loop pkt es = None"

definition socket_write :: "u8 list \<Rightarrow> u8 \<Rightarrow> unit io" where
  "socket_write pkt pkt_type w =
    (case pkt_add_crc pkt pkt_type of
       None \<Rightarrow> None
     | Some p \<Rightarrow>
       (case write_loop p (script w) of
          None \<Rightarrow> None
        | Some (r, es, out) \<Rightarrow> Some (r, emit (Sent out) (w\<lparr>script := es\<rparr>))))"

subsection \<open>Reading\<close>

text \<open>
  A loop of \<^verbatim>\<open>socket::read\<close>: \<open>n\<close> bytes are to come, each \<^verbatim>\<open>::read\<close> delivers at most what
  is asked. A \<^verbatim>\<open>::read\<close> that delivers nothing (end of the stream) is repeated. The third
  component is what came in, also when the loop fails.
\<close>

fun read_loop :: "nat \<Rightarrow> os_event list \<Rightarrow> ((err + unit) \<times> os_event list \<times> u8 list) option" where
  "read_loop 0 es = Some (Inr (), es, [])"
| "read_loop n (Ev_read None # es) = Some (Inl Sys_Error, es, [])"
| "read_loop n (Ev_read (Some bs) # es) =
    (if n < length bs then None
     else case read_loop (n - length bs) es of
            None \<Rightarrow> None
          | Some (q, es', inp) \<Rightarrow> Some (q, es', bs @ inp))"
| "read_loop n es = None"

definition read_bytes :: "nat \<Rightarrow> ((err + unit) \<times> u8 list) io" where
  "read_bytes n w =
    (case read_loop n (script w) of
       None \<Rightarrow> None
     | Some (r, es, inp) \<Rightarrow> Some (Inr (r, inp), w\<lparr>script := es\<rparr>))"

definition fionread :: "nat io" where
  "fionread w = (case script w of
     Ev_fionread (Some n) # es \<Rightarrow> Some (Inr n, w\<lparr>script := es\<rparr>)
   | Ev_fionread None # es \<Rightarrow> Some (Inl Sys_Error, w\<lparr>script := es\<rparr>)
   | _ \<Rightarrow> None)"

text \<open>
  \<^verbatim>\<open>socket::read(pkt, pktlen)\<close> for a buffer of \<open>cap\<close> bytes (\<^verbatim>\<open>*pktlen\<close> on entry). The result
  is what the buffer holds and \<^verbatim>\<open>*pktlen\<close> on return. The length field of the frame decides how
  many bytes are stored, \<open>cap\<close> does not: the trace records a store past the end.
\<close>

text \<open>The comparison of the four trailer bytes with a checksum, as the readers write it.\<close>

definition trailer_is :: "u8 list \<Rightarrow> nat \<Rightarrow> u32 \<Rightarrow> bool" where
  "trailer_is buf n crc \<longleftrightarrow>
     buf ! n = ucast crc \<and> buf ! (n + 1) = ucast (drop_bit 8 crc) \<and>
     buf ! (n + 2) = ucast (drop_bit 16 crc) \<and> buf ! (n + 3) = ucast (drop_bit 24 crc)"

definition payload_len :: "u8 list \<Rightarrow> nat" where
  "payload_len hdr = 256 * unat (hdr ! 2) + unat (hdr ! 3)"

definition socket_read :: "nat \<Rightarrow> (u8 list \<times> nat) io" where
  "socket_read cap =
    bindM fionread (\<lambda>nread.
    if min nread cap < 4 then ret ([], 0)
    else bindM (read_bytes 4) (\<lambda>(r1, hdr).
      thenM (note_store cap (length hdr))
      (case r1 of Inl e \<Rightarrow> fail e
       | Inr _ \<Rightarrow>
         (let n = payload_len hdr + 4 in
          bindM (read_bytes n) (\<lambda>(r2, rest).
          thenM (note_store cap (4 + length rest))
          (case r2 of Inl e \<Rightarrow> fail e
           | Inr _ \<Rightarrow>
             (let buf = hdr @ rest in
              if \<not> trailer_is buf n (tuner_calc_crc (take n buf)) then fail Bad_Crc
              else ret (buf, n))))))))"

subsection \<open>Request and response\<close>

text \<open>
  The \<^verbatim>\<open>do\<close> loop of \<^verbatim>\<open>write_then_read\<close>: wait until the socket is readable, for at most 400
  milliseconds since \<open>t0\<close>. The elapsed time is an \<^verbatim>\<open>unsigned long\<close>: it wraps when the clock
  was set back.
\<close>

fun select_wait :: "int \<Rightarrow> os_event list \<Rightarrow> ((err + unit) \<times> os_event list) option" where
  "select_wait t0 (Ev_clock t # es) =
    (if (word_of_int (t - t0) :: 64 word) > 400 * 1000 then Some (Inl Timed_Out, es)
     else case es of
       Ev_select n ready # es' \<Rightarrow>
         if n < 0 then Some (Inl Sys_Error, es')
         else if n = 0 \<or> \<not> ready then select_wait t0 es'
         else Some (Inr (), es')
     | _ \<Rightarrow> None)"
| "select_wait t0 es = None"

definition wait_readable :: "int \<Rightarrow> unit io" where
  "wait_readable t0 w =
    (case select_wait t0 (script w) of
       None \<Rightarrow> None | Some (r, es) \<Rightarrow> Some (r, w\<lparr>script := es\<rparr>))"

text \<open>
  \<^verbatim>\<open>write_then_read(pkt, pktlen, &rxlen)\<close>. The value is the block \<^verbatim>\<open>rx\<close>, which the caller frees,
  up to the returned \<^verbatim>\<open>*rxlen\<close>: header and payload of the response. \<open>take_reply\<close> is the part
  that runs once the block is allocated.
\<close>

definition take_reply :: "nat \<Rightarrow> u8 list io" where
  "take_reply rxlen =
    tryM (socket_read (rxlen + 4)) (\<lambda>r.
      case r of
        Inl e \<Rightarrow> thenM free_block (fail e)
      | Inr (rx, n) \<Rightarrow>
          if n = 0 then thenM free_block (fail Empty_Read)
          else if n < 4 then thenM free_block (fail Short_Read)
          else if rx ! 0 \<noteq> 0 \<or> rx ! 1 \<noteq> 0x0d
          then thenM free_block (fail (Bad_Reply (rx ! 0) (rx ! 1)))
          else ret (take n rx))"

definition write_then_read :: "u8 list \<Rightarrow> nat \<Rightarrow> u8 list io" where
  "write_then_read pkt rxlen =
    thenM (socket_write pkt 0x0c)
    (bindM gettimeofday (\<lambda>t0.
    thenM (wait_readable t0)
    (bindM malloc (\<lambda>ok.
    if \<not> ok then fail No_Memory else take_reply rxlen))))"

subsection \<open>Framing\<close>

lemma length_frame_head [simp]: "length (frame_head t b) = 4"
  by (simp add: frame_head_def)

lemma length_frame [simp]: "length (frame t b) = length b + 8"
  by (simp add: frame_def)

lemma length_unframed [simp]: "length (unframed b) = length b + 8"
  by (simp add: unframed_def)

lemma update_tail4:
  "(xs @ [a, b, d, e])[length xs := a', length xs + 1 := b', length xs + 2 := d', length xs + 3 := e']
   = xs @ [a', b', d', e']"
  by (simp add: list_update_append)

lemma pkt_add_crc_unframed: "pkt_add_crc (unframed body) t = Some (frame t body)"
proof -
  let ?h = "frame_head t body @ body"
  have head: "(unframed body)[0 := 0, 1 := t, 2 := of_nat (length body div 256),
      3 := of_nat (length body mod 256)] = ?h @ [0, 0, 0, 0]"
    by (simp add: unframed_def frame_head_def numeral_2_eq_2 numeral_3_eq_3)
  have crc: "take (length body + 4) (?h @ [0, 0, 0, 0]) = ?h"
    by simp
  show ?thesis
    using update_tail4 [of ?h 0 0 0 0]
    by (simp add: pkt_add_crc_def Let_def head [unfolded One_nat_def] crc frame_def le32_def add.commute
      add.left_commute)
qed

lemma of_nat_len_u8:
  "L < 65536 \<Longrightarrow> 256 * unat (of_nat (L div 256) :: u8) + unat (of_nat (L mod 256) :: u8) = L"
  by (simp add: unat_of_nat less_mult_imp_div_less)

text \<open>The receiver reads the length the sender wrote, for every payload up to 64 KiB.\<close>

lemma payload_len_head: "length body < 65536 \<Longrightarrow> payload_len (frame_head t body) = length body"
  by (simp add: payload_len_def frame_head_def of_nat_len_u8)

subsection \<open>The loops around write and read\<close>

text \<open>One turn of each loop.\<close>

lemma write_loop_turn:
  "write_loop (p # ps) (Ev_write n # es) = Some (r, es', out) \<longleftrightarrow>
   (n < 0 \<and> r = Inl Sys_Error \<and> es' = es \<and> out = []) \<or>
   (0 \<le> n \<and> nat n \<le> length (p # ps) \<and>
    (\<exists>o1. write_loop (drop (nat n) (p # ps)) es = Some (r, es', o1) \<and>
          out = take (nat n) (p # ps) @ o1))"
  by (auto split: option.splits)

lemma read_loop_turn:
  "read_loop (Suc n) (Ev_read (Some bs) # es) = Some (r, es', inp) \<longleftrightarrow>
   length bs \<le> Suc n \<and>
   (\<exists>i1. read_loop (Suc n - length bs) es = Some (r, es', i1) \<and> inp = bs @ i1)"
  by (auto split: option.splits)

lemma write_loop_prefix:
  "write_loop pkt es = Some (r, es', out) \<Longrightarrow>
   \<exists>rest us. pkt = out @ rest \<and> (r = Inr () \<longrightarrow> rest = []) \<and> es = us @ es'"
proof (induction pkt es arbitrary: r es' out rule: write_loop.induct)
  case (2 v va n es)
  from "2.prems" consider "n < 0" "r = Inl Sys_Error" "es' = es" "out = []"
    | o1 where "0 \<le> n" "nat n \<le> length (v # va)"
      "write_loop (drop (nat n) (v # va)) es = Some (r, es', o1)"
      "out = take (nat n) (v # va) @ o1"
    unfolding write_loop_turn by blast
  then show ?case
  proof cases
    case 1
    then show ?thesis by auto
  next
    case (2 o1)
    then obtain rest us where "drop (nat n) (v # va) = o1 @ rest" "r = Inr () \<longrightarrow> rest = []"
      "es = us @ es'"
      using "2.IH" by fastforce
    then have "v # va = out @ rest" "Ev_write n # es = (Ev_write n # us) @ es'"
      using 2(4) by (simp_all, metis append_take_drop_id)
    then show ?thesis using \<open>r = Inr () \<longrightarrow> rest = []\<close> by blast
  qed
qed auto

lemma read_loop_shape:
  "read_loop n es = Some (r, es', inp) \<Longrightarrow>
   length inp \<le> n \<and> (r = Inr () \<longrightarrow> length inp = n) \<and> (\<exists>us. es = us @ es')"
proof (induction n es arbitrary: r es' inp rule: read_loop.induct)
  case (3 v bs es)
  then obtain i1 where "length bs \<le> Suc v" "read_loop (Suc v - length bs) es = Some (r, es', i1)"
    "inp = bs @ i1"
    unfolding read_loop_turn by blast
  note parts = this
  with "3.IH" [of r es' i1] have "length i1 \<le> Suc v - length bs"
    "r = Inr () \<longrightarrow> length i1 = Suc v - length bs" "\<exists>us. es = us @ es'"
    by simp_all
  moreover from this(3) have "\<exists>us. Ev_read (Some bs) # es = us @ es'"
    by (metis append_Cons)
  ultimately show ?case using parts by simp
qed auto

text \<open>The events by which the system delivers some bytes in the given pieces, and takes some
  bytes in pieces of the given sizes.\<close>

definition delivers :: "u8 list list \<Rightarrow> os_event list" where
  "delivers cs = map (\<lambda>c. Ev_read (Some c)) cs"

definition takes :: "nat list \<Rightarrow> os_event list" where
  "takes ns = map (\<lambda>n. Ev_write (int n)) ns"

lemma delivers_simps [simp]: "delivers [] = []" "delivers (c # cs) = Ev_read (Some c) # delivers cs"
  by (simp_all add: delivers_def)

lemma takes_simps [simp]: "takes [] = []" "takes (n # ns) = Ev_write (int n) # takes ns"
  by (simp_all add: takes_def)

text \<open>Whatever the pieces in which the stream arrives, the buffer holds their concatenation.\<close>

lemma read_loop_chunks:
  "length (concat cs) = n \<Longrightarrow> [] \<notin> set cs \<Longrightarrow>
   read_loop n (delivers cs @ es) = Some (Inr (), es, concat cs)"
proof (induction cs arbitrary: n)
  case (Cons c cs)
  then obtain m where n: "n = Suc m" by (cases c) auto
  with Cons.prems have "length (concat cs) = Suc m - length c" "length c \<le> Suc m" by auto
  with Cons.IH [OF this(1)] Cons.prems show ?case by (simp add: n)
qed simp

text \<open>The stream at its end: every further \<^verbatim>\<open>::read\<close> delivers nothing.\<close>

lemma read_loop_eof: "0 < n \<Longrightarrow> read_loop n (replicate k (Ev_read (Some []))) = None"
proof (induction k)
  case 0 then show ?case by (cases n) auto
next
  case (Suc k) then show ?case by (cases n) auto
qed

lemma read_loop_closed:
  "length (concat cs) < n \<Longrightarrow> [] \<notin> set cs \<Longrightarrow>
   read_loop n (delivers cs @ replicate k (Ev_read (Some []))) = None"
proof (induction cs arbitrary: n)
  case Nil then show ?case by (simp add: read_loop_eof)
next
  case (Cons c cs)
  then obtain m where n: "n = Suc m" by (cases n) auto
  with Cons.prems have "length (concat cs) < Suc m - length c" by auto
  with Cons.IH [OF this] Cons.prems show ?case by (simp add: n)
qed

text \<open>Such reads may also be followed by others: each is a turn of the loop that changes nothing.\<close>

lemma read_loop_empty:
  "0 < m \<Longrightarrow> read_loop m (replicate n (Ev_read (Some [])) @ es) = read_loop m es"
proof (induction n)
  case (Suc n)
  from Suc.prems obtain k where k: "m = Suc k" by (cases m) auto
  show ?case using Suc by (simp add: k split: option.splits)
qed simp

lemma read_loop_spins:
  assumes "length (concat bs) < m" and "[] \<notin> set bs"
  shows "read_loop m (delivers bs @ replicate n (Ev_read (Some [])) @ es) = read_loop m (delivers bs @ es)"
  using assms
proof (induction bs arbitrary: m)
  case (Cons b bs)
  from Cons.prems obtain k where k: "m = Suc k" by (cases m) auto
  from Cons.prems have "read_loop (m - length b) (delivers bs @ replicate n (Ev_read (Some [])) @ es) =
      read_loop (m - length b) (delivers bs @ es)"
    by (intro Cons.IH) auto
  then show ?case by (simp add: k split: option.splits)
qed (simp add: read_loop_empty)

subsection \<open>What a read returns\<close>

definition overrun_if :: "nat \<Rightarrow> nat \<Rightarrow> action list" where
  "overrun_if cap n = (if cap < n then [Overrun cap n] else [])"

lemma note_store_run: "note_store cap n w = Some (Inr (), w\<lparr>trace := trace w @ overrun_if cap n\<rparr>)"
  by (simp add: note_store_def overrun_if_def emit_def)

lemma note_store_Some [simp]:
  "note_store cap n w = Some (r, w') \<longleftrightarrow> r = Inr () \<and> w' = w\<lparr>trace := trace w @ overrun_if cap n\<rparr>"
  by (auto simp: note_store_run)

lemma fionread_Some:
  "fionread w = Some (r, w') \<longleftrightarrow>
   (\<exists>n es. script w = Ev_fionread n # es \<and> w' = w\<lparr>script := es\<rparr> \<and>
        r = (case n of None \<Rightarrow> Inl Sys_Error | Some k \<Rightarrow> Inr k))"
  by (auto simp: fionread_def split: list.splits os_event.splits option.splits)

lemma read_bytes_Some:
  "read_bytes n w = Some (r, w') \<longleftrightarrow>
   (\<exists>q es inp. read_loop n (script w) = Some (q, es, inp) \<and> r = Inr (q, inp) \<and>
      w' = w\<lparr>script := es\<rparr>)"
  by (auto simp: read_bytes_def split: option.splits)

lemma word_list4: "length xs = 4 \<Longrightarrow> [xs ! 0, xs ! 1, xs ! 2, xs ! 3] = xs"
  by (cases xs; cases "tl xs"; cases "tl (tl xs)"; cases "tl (tl (tl xs))")
    (auto simp: numeral_2_eq_2 numeral_3_eq_3)

lemma trailer_check:
  assumes "length buf = n + 4"
  shows "trailer_is buf n crc \<longleftrightarrow> drop n buf = le32 crc"
proof -
  have "length (drop n buf) = 4" using assms by simp
  from word_list4 [OF this] have "drop n buf = [buf ! n, buf ! (n + 1), buf ! (n + 2), buf ! (n + 3)]"
    using assms by simp
  then show ?thesis by (simp add: le32_def trailer_is_def)
qed

text \<open>The checksum test, on a buffer that holds header, payload and trailer.\<close>

definition crc_ok :: "u8 list \<Rightarrow> bool" where
  "crc_ok buf \<longleftrightarrow> (let n = length buf - 4 in drop n buf = le32 (tuner_calc_crc (take n buf)))"

lemma socket_read_run:
  assumes "read_loop 4 es = Some (Inr (), es1, hdr)"
    and "read_loop (payload_len hdr + 4) es1 = Some (Inr (), es2, rest)"
    and "script w = Ev_fionread (Some k) # es" and "4 \<le> k" and "4 \<le> cap"
  shows "socket_read cap w =
    Some (if crc_ok (hdr @ rest) then Inr (hdr @ rest, payload_len hdr + 4) else Inl Bad_Crc,
      w\<lparr>script := es2, trace := trace w @ overrun_if cap (payload_len hdr + 8)\<rparr>)"
proof -
  let ?n = "payload_len hdr + 4"
  let ?buf = "hdr @ rest"
  from assms(1,2) have len: "length hdr = 4" "length rest = ?n"
    using read_loop_shape by blast+
  then have buf: "length ?buf = ?n + 4" by simp
  have no: "overrun_if cap 4 = []" using assms(5) by (simp add: overrun_if_def)
  have n: "length ?buf - 4 = ?n" using buf by simp
  have ok: "trailer_is ?buf ?n (tuner_calc_crc (take ?n ?buf)) \<longleftrightarrow> crc_ok ?buf"
    unfolding trailer_check [OF buf] crc_ok_def Let_def n ..
  have k: "\<not> min k cap < 4" using assms(4,5) by simp
  show ?thesis
    by (simp add: k socket_read_def bindM_def thenM_def tryM_def fionread_def assms(1-3)
        read_bytes_def note_store_run no len Let_def ok ret_def fail_def add.commute
        del: drop_append take_append)
qed

text \<open>Conversely, whatever \<^verbatim>\<open>socket::read\<close> accepts is one whole frame with a good checksum.\<close>

lemma socket_read_Inr:
  assumes "socket_read cap w = Some (Inr (buf, n), w')"
  shows "(buf = [] \<and> n = 0 \<and> trace w' = trace w \<and> blocks w' = blocks w) \<or>
    (4 \<le> cap \<and> n = payload_len buf + 4 \<and> length buf = n + 4 \<and> crc_ok buf \<and>
     trace w' = trace w @ overrun_if cap (n + 4) \<and> blocks w' = blocks w)"
proof -
  from assms obtain nread w1 where f: "fionread w = Some (Inr nread, w1)"
    and rest: "(if min nread cap < 4 then ret ([], 0) else bindM (read_bytes 4) (\<lambda>(r1, hdr).
      thenM (note_store cap (length hdr))
      (case r1 of Inl e \<Rightarrow> fail e
       | Inr _ \<Rightarrow>
         (let n = payload_len hdr + 4 in
          bindM (read_bytes n) (\<lambda>(r2, rest).
          thenM (note_store cap (4 + length rest))
          (case r2 of Inl e \<Rightarrow> fail e
           | Inr _ \<Rightarrow>
             (let buf = hdr @ rest in
              if \<not> trailer_is buf n (tuner_calc_crc (take n buf)) then fail Bad_Crc
              else ret (buf, n)))))))) w1 = Some (Inr (buf, n), w')"
    unfolding socket_read_def bindM_Inr_iff by blast
  from f obtain es where w: "script w = Ev_fionread (Some nread) # es" and w1: "w1 = w\<lparr>script := es\<rparr>"
    by (auto simp: fionread_Some split: option.splits)
  show ?thesis
  proof (cases "min nread cap < 4")
    case True
    with rest w1 show ?thesis by auto
  next
    case False
    with rest obtain r1 es1 hdr w2 where 1: "read_loop 4 es = Some (r1, es1, hdr)"
      and rest2: "(case r1 of Inl e \<Rightarrow> fail e
       | Inr _ \<Rightarrow>
         (let n = payload_len hdr + 4 in
          bindM (read_bytes n) (\<lambda>(r2, rest).
          thenM (note_store cap (4 + length rest))
          (case r2 of Inl e \<Rightarrow> fail e
           | Inr _ \<Rightarrow>
             (let buf = hdr @ rest in
              if \<not> trailer_is buf n (tuner_calc_crc (take n buf)) then fail Bad_Crc
              else ret (buf, n)))))) w2 = Some (Inr (buf, n), w')" and "script w2 = es1"
      by (auto simp: w1 bindM_Inr_iff thenM_Inr_iff read_bytes_Some)
    then have r1: "r1 = Inr ()" by (cases r1) auto
    with rest2 \<open>script w2 = es1\<close> obtain r2 es2 q w3
      where 2: "read_loop (payload_len hdr + 4) es1 = Some (r2, es2, q)"
        and "(case r2 of Inl e \<Rightarrow> fail e
           | Inr _ \<Rightarrow>
             (let buf = hdr @ q in
              if \<not> trailer_is buf (payload_len hdr + 4)
                (tuner_calc_crc (take (payload_len hdr + 4) buf)) then fail Bad_Crc
              else ret (buf, payload_len hdr + 4))) w3 = Some (Inr (buf, n), w')"
      by (auto simp: bindM_Inr_iff thenM_Inr_iff read_bytes_Some Let_def)
    then have r2: "r2 = Inr ()" by (cases r2) auto
    note 1 = 1 [unfolded r1] and 2 = 2 [unfolded r2]
    have "length hdr = 4" "length q = payload_len hdr + 4"
      using 1 2 read_loop_shape by blast+
    then have "payload_len (hdr @ q) = payload_len hdr" "length (hdr @ q) = payload_len hdr + 8"
      by (simp_all add: payload_len_def nth_append)
    moreover have "4 \<le> nread" "4 \<le> cap" using False by simp_all
    from socket_read_run [OF 1 2 w this] have "crc_ok (hdr @ q)" "buf = hdr @ q"
      "n = payload_len hdr + 4"
      "w' = w\<lparr>script := es2, trace := trace w @ overrun_if cap (payload_len hdr + 8)\<rparr>"
      unfolding assms by (auto split: if_splits)
    ultimately show ?thesis using \<open>4 \<le> cap\<close> by (simp add: add.commute)
  qed
qed


lemma keeps_fionread: "keeps extends fionread"
  by (auto simp: keeps_def extends_def fionread_Some)

lemma keeps_read_bytes: "keeps extends (read_bytes n)"
  by (auto simp: keeps_def extends_def read_bytes_Some dest!: read_loop_shape)

lemma keeps_note_store: "keeps extends (note_store cap n)"
  by (simp add: keeps_extends_calls)

lemma keeps_socket_read: "keeps extends (socket_read cap)"
  unfolding socket_read_def Let_def
  by (auto intro!: ext.keeps_intros keeps_fionread keeps_read_bytes keeps_note_store
      split: sum.split prod.split)

subsection \<open>What an exchange returns\<close>

lemma socket_write_Some:
  "socket_write (unframed body) t w = Some (r, w') \<longleftrightarrow>
   (\<exists>es out. write_loop (frame t body) (script w) = Some (r, es, out) \<and>
      w' = w\<lparr>script := es, trace := trace w @ [Sent out]\<rparr>)"
  by (auto simp: socket_write_def pkt_add_crc_unframed emit_def split: option.splits)

lemma keeps_socket_write: "keeps extends (socket_write pkt t)"
  by (auto simp: keeps_def extends_def socket_write_def emit_def split: option.splits
      dest!: write_loop_prefix)

lemma select_wait_script: "select_wait t0 es = Some (r, es') \<Longrightarrow> \<exists>us. es = us @ es'"
proof (induction t0 es arbitrary: r es' rule: select_wait.induct)
  case (1 t0 t es)
  show ?case
  proof (cases "(word_of_int (t - t0) :: 64 word) > 400 * 1000")
    case True
    with "1.prems" show ?thesis by auto
  next
    case False
    with "1.prems" obtain n b es1 where es: "es = Ev_select n b # es1"
      by (auto split: list.splits os_event.splits)
    with False "1.prems" consider "es' = es1" | "select_wait t0 es1 = Some (r, es')"
      "\<not> n < 0" "n = 0 \<or> \<not> b"
      by (auto split: if_splits)
    then show ?thesis
    proof cases
      case 2
      then obtain us where "es1 = us @ es'" using "1.IH" [OF False es] es by blast
      then show ?thesis by (simp add: es)
    qed (simp add: es)
  qed
qed simp_all

lemma wait_readable_Some:
  "wait_readable t0 w = Some (r, w') \<longleftrightarrow>
   (\<exists>es. select_wait t0 (script w) = Some (r, es) \<and> w' = w\<lparr>script := es\<rparr>)"
  by (auto simp: wait_readable_def split: option.splits)

lemma keeps_wait_readable: "keeps extends (wait_readable t0)"
  by (auto simp: keeps_def extends_def wait_readable_Some dest!: select_wait_script)

lemma gettimeofday_Some:
  "gettimeofday w = Some (r, w') \<longleftrightarrow>
   (\<exists>t es. script w = Ev_clock t # es \<and> w' = w\<lparr>script := es\<rparr> \<and> r = Inr t)"
  by (auto simp: gettimeofday_def split: list.splits os_event.splits)

lemma malloc_Some:
  "malloc w = Some (r, w') \<longleftrightarrow>
   (\<exists>ok es. script w = Ev_malloc ok # es \<and> r = Inr ok \<and>
      w' = w\<lparr>script := es, blocks := blocks w + (if ok then 1 else 0)\<rparr>)"
  by (auto simp: malloc_def split: list.splits os_event.splits)

lemma free_block_Some [simp]:
  "free_block w = Some (r, w') \<longleftrightarrow> r = Inr () \<and> w' = w\<lparr>blocks := blocks w - 1\<rparr>"
  by (auto simp: free_block_def)

lemma keeps_write_then_read: "keeps extends (write_then_read pkt n)"
  unfolding write_then_read_def take_reply_def
  by (auto intro!: ext.keeps_intros ext.tryI keeps_socket_write keeps_wait_readable
      keeps_socket_read keeps_extends_calls split: sum.split prod.split)

lemma take_reply_Inr:
  assumes "take_reply rxlen w = Some (Inr rx, w')"
  shows "4 \<le> length rx \<and> rx ! 0 = 0 \<and> rx ! 1 = 0x0d \<and> length rx = payload_len rx + 4 \<and>
    trace w' = trace w @ overrun_if (rxlen + 4) (length rx + 4) \<and> blocks w' = blocks w"
proof -
  from assms obtain q w1 where q: "socket_read (rxlen + 4) w = Some (q, w1)"
    and h: "(case q of
        Inl e \<Rightarrow> thenM free_block (fail e)
      | Inr (rx, n) \<Rightarrow>
          if n = 0 then thenM free_block (fail Empty_Read)
          else if n < 4 then thenM free_block (fail Short_Read)
          else if rx ! 0 \<noteq> 0 \<or> rx ! 1 \<noteq> 0x0d
          then thenM free_block (fail (Bad_Reply (rx ! 0) (rx ! 1)))
          else ret (take n rx)) w1 = Some (Inr rx, w')"
    unfolding take_reply_def tryM_Some_iff by blast
  from h obtain buf n where qn: "q = Inr (buf, n)"
    by (cases q) (auto simp: thenM_Inr_iff)
  with h have n: "4 \<le> n" "buf ! 0 = 0" "buf ! 1 = 0x0d" "rx = take n buf" "w1 = w'"
    by (auto simp: thenM_Inr_iff split: if_splits)
  from socket_read_Inr [OF q [unfolded qn]] n have "n = payload_len buf + 4" "length buf = n + 4"
    "trace w' = trace w @ overrun_if (rxlen + 4) (n + 4)" "blocks w' = blocks w"
    by auto
  moreover from this n have "payload_len (take n buf) = payload_len buf"
    by (simp add: payload_len_def)
  ultimately show ?thesis using n by simp
qed

lemma write_then_read_Inr:
  assumes "write_then_read (unframed body) rxlen w = Some (Inr rx, w')"
  shows "4 \<le> length rx \<and> rx ! 0 = 0 \<and> rx ! 1 = 0x0d \<and> length rx = payload_len rx + 4 \<and>
    trace w' = trace w @ Sent (frame 0x0c body) # overrun_if (rxlen + 4) (length rx + 4) \<and>
    blocks w' = blocks w + 1"
proof -
  from assms obtain u w1 t w2 v w3 ok w4
    where "socket_write (unframed body) 0x0c w = Some (Inr u, w1)"
      and "gettimeofday w1 = Some (Inr t, w2)" and "wait_readable t w2 = Some (Inr v, w3)"
      and m: "malloc w3 = Some (Inr ok, w4)"
      and k: "(if \<not> ok then fail No_Memory else take_reply rxlen) w4 = Some (Inr rx, w')"
    unfolding write_then_read_def thenM_Inr_iff bindM_Inr_iff by blast
  moreover from k have ok: "ok" by (cases ok) auto
  ultimately have "trace w4 = trace w @ [Sent (frame 0x0c body)]" "blocks w4 = blocks w + 1"
    by (auto simp: socket_write_Some gettimeofday_Some wait_readable_Some malloc_Some
        dest!: write_loop_prefix)
  with k ok take_reply_Inr [of rxlen w4 rx w'] show ?thesis by simp
qed

text \<open>An exchange that fails leaves no block behind.\<close>

lemma same_blocks_calls:
  "keeps same_blocks fionread" "keeps same_blocks (read_bytes n)" "keeps same_blocks (note_store c n)"
  "keeps same_blocks (socket_write pkt t)" "keeps same_blocks gettimeofday"
  "keeps same_blocks (wait_readable t0)" "keeps same_blocks (usleep us)"
  by (auto simp: keeps_def same_blocks_def fionread_Some read_bytes_Some socket_write_def
      gettimeofday_Some wait_readable_Some usleep_def split: option.splits)

lemma same_blocks_socket_read: "keeps same_blocks (socket_read cap)"
  unfolding socket_read_def Let_def
  by (auto intro!: heap.keeps_intros same_blocks_calls split: sum.split prod.split)

lemma take_reply_Inl:
  assumes "take_reply rxlen w = Some (Inl e, w')"
  shows "blocks w' = blocks w - 1"
proof -
  from assms obtain q w1 where q: "socket_read (rxlen + 4) w = Some (q, w1)"
    and h: "(case q of
        Inl e \<Rightarrow> thenM free_block (fail e)
      | Inr (rx, n) \<Rightarrow>
          if n = 0 then thenM free_block (fail Empty_Read)
          else if n < 4 then thenM free_block (fail Short_Read)
          else if rx ! 0 \<noteq> 0 \<or> rx ! 1 \<noteq> 0x0d
          then thenM free_block (fail (Bad_Reply (rx ! 0) (rx ! 1)))
          else ret (take n rx)) w1 = Some (Inl e, w')"
    unfolding take_reply_def tryM_Some_iff by blast
  from q have "blocks w1 = blocks w"
    using keepsD [OF same_blocks_socket_read] by (auto simp: same_blocks_def)
  with h show ?thesis
    by (auto simp: thenM_Some_iff split: sum.splits if_splits)
qed

lemma write_then_read_Inl:
  assumes "write_then_read pkt rxlen w = Some (Inl e, w')"
  shows "blocks w' = blocks w"
proof -
  have pre: "blocks b = blocks a" if "keeps same_blocks m" "m a = Some (r, b)" for m :: "'x io" and a r b
    using keepsD [OF that] by (simp add: same_blocks_def)
  show ?thesis
    using assms
    by (auto simp: write_then_read_def thenM_Some_iff bindM_Some_iff malloc_Some
        dest!: pre [OF same_blocks_calls(4)] pre [OF same_blocks_calls(5)]
        pre [OF same_blocks_calls(6)] take_reply_Inl split: if_splits)
qed

subsection \<open>Runs that succeed\<close>

lemma write_loop_chunks:
  "sum_list ns = length pkt \<Longrightarrow> 0 \<notin> set ns \<Longrightarrow>
   write_loop pkt (takes ns @ es) = Some (Inr (), es, pkt)"
proof (induction ns arbitrary: pkt)
  case (Cons n ns)
  then obtain p ps where pkt: "pkt = p # ps" by (cases pkt) auto
  have "write_loop (drop n pkt) (takes ns @ es) = Some (Inr (), es, drop n pkt)"
    using Cons by (intro Cons.IH) simp_all
  then have "write_loop pkt (Ev_write (int n) # takes ns @ es) =
    Some (Inr (), es, take n pkt @ drop n pkt)"
    unfolding pkt write_loop_turn using Cons.prems pkt by auto
  then show ?case by simp
qed simp

text \<open>A buffer passes the checksum test exactly when feeding all of it, trailer included,
  leaves one fixed residue in the register.\<close>

lemma crc_ok_residue:
  assumes "4 \<le> length buf"
  shows "crc_ok buf \<longleftrightarrow> foldl tuner_crc_byte (-1) buf = (lsb_adv ^^ 4) (-1)"
proof -
  let ?n = "length buf - 4"
  let ?reg = "foldl tuner_crc_byte (-1) (take ?n buf)"
  have t: "length (drop ?n buf) = 4" using assms by simp
  have "foldl tuner_crc_byte (-1) buf = foldl tuner_crc_byte (-1) (take ?n buf @ drop ?n buf)"
    by simp
  also have "\<dots> = (lsb_adv ^^ 4) (?reg XOR tuner.pack 0 (drop ?n buf))"
    unfolding foldl_append using tuner.feed_few [of "drop ?n buf" ?reg] t by simp
  finally have "foldl tuner_crc_byte (-1) buf = (lsb_adv ^^ 4) (-1) \<longleftrightarrow>
    ?reg XOR tuner.pack 0 (drop ?n buf) = -1"
    by (simp only: tuner.funpow_adv_inj)
  also have "\<dots> \<longleftrightarrow> ?reg XOR tuner.pack 0 (drop ?n buf) = ?reg XOR NOT ?reg"
    by simp
  also have "\<dots> \<longleftrightarrow> tuner.pack 0 (drop ?n buf) = tuner.pack 0 (le32 (NOT ?reg))"
    by (simp only: xor_cancel_left pack_le32)
  also have "\<dots> \<longleftrightarrow> drop ?n buf = le32 (NOT ?reg)"
    using tuner.pack_inj [of "drop ?n buf" "le32 (NOT ?reg)"] t by auto
  finally show ?thesis by (simp add: crc_ok_def Let_def tuner_calc_crc_def)
qed

lemma crc_ok_frame: "crc_ok (frame t body)"
proof -
  have n: "length (frame t body) - 4 = length (frame_head t body @ body)" by simp
  show ?thesis
    unfolding crc_ok_def Let_def n unfolding frame_def append_assoc [symmetric]
    by (simp del: append_assoc)
qed

lemma crc_ok_damage:
  assumes "p @ e @ s = frame t body" and "length e = length e'" and "length e \<le> 4" and "e \<noteq> e'"
  shows "\<not> crc_ok (p @ e' @ s)"
proof -
  have len: "length (p @ e' @ s) = length body + 8"
    using assms(1,2) length_frame [of t body] by (metis length_append)
  have "foldl tuner_crc_byte (-1) (p @ e @ s) = (lsb_adv ^^ 4) (-1)"
    using crc_ok_frame [of t body] crc_ok_residue [of "frame t body"] by (simp add: assms(1))
  with tuner.burst_detected [OF assms(2-4), of "-1" p s]
  have "foldl tuner_crc_byte (-1) (p @ e' @ s) \<noteq> (lsb_adv ^^ 4) (-1)" by simp
  with len show ?thesis by (simp add: crc_ok_residue del: foldl_append)
qed

lemma socket_read_takes_frame:
  assumes "length body < 65536" and "4 \<le> k" and "4 \<le> cap"
    and "concat hs = frame_head t body" and "concat hs @ concat bs = frame t body"
    and "[] \<notin> set hs" and "[] \<notin> set bs"
    and "script w = Ev_fionread (Some k) # delivers hs @ delivers bs @ es"
  shows "socket_read cap w = Some (Inr (frame t body, length body + 4),
    w\<lparr>script := es, trace := trace w @ overrun_if cap (length (frame t body))\<rparr>)"
proof -
  have pl: "payload_len (concat hs) = length body"
    using payload_len_head [OF assms(1)] by (simp add: assms(4))
  have l1: "length (concat hs) = 4" by (simp add: assms(4))
  have "length (concat hs) + length (concat bs) = length body + 8"
    using assms(5) length_frame by (metis length_append)
  then have l2: "length (concat bs) = payload_len (concat hs) + 4"
    by (simp add: l1 pl)
  from socket_read_run [OF read_loop_chunks [OF l1 assms(6)] read_loop_chunks [OF l2 assms(7)]
      assms(8) assms(2) assms(3)]
  show ?thesis
    unfolding pl assms(5) by (simp add: crc_ok_frame)
qed

text \<open>C13: A frame with any payload below 64 KiB that arrives on the stream, in whatever
  pieces the system delivers header and rest, is what \<^verbatim>\<open>socket::read\<close> returns, with
  \<^verbatim>\<open>*pktlen\<close> counting header and payload; the only side effect beyond the consumed events is
  the recorded overrun when the caller's buffer is smaller than the frame.\<close>

theorem socket_read_frame:
  assumes "length body < 65536" and "4 \<le> k" and "4 \<le> cap"
    and "concat hs = frame_head t body" and "concat hs @ concat bs = frame t body"
    and "[] \<notin> set hs" and "[] \<notin> set bs"
    and "script w = Ev_fionread (Some k) # delivers hs @ delivers bs @ es"
  shows "socket_read cap w = Some (Inr (frame t body, length body + 4),
    w\<lparr>script := es, trace := trace w @ overrun_if cap (length (frame t body))\<rparr>)"
  by (rule socket_read_takes_frame [OF assms])

theorem socket_read_frame_witness:
  "socket_read 5 \<lparr>script = Ev_fionread (Some 9) # delivers [[0], [0x0d, 0, 1]] @
      delivers [[7], le32 (tuner_calc_crc [0, 0x0d, 0, 1, 7])] @ [], trace = [], blocks = 0\<rparr> =
    Some (Inr (frame 0x0d [7], 5), \<lparr>script = [], trace = [Overrun 5 9], blocks = 0\<rparr>)"
  using socket_read_frame [where body = "[7]" and k = 9 and cap = 5 and t = "0x0d" and w = "\<lparr>script = Ev_fionread (Some 9) # delivers [[0], [0x0d, 0, 1]] @
      delivers [[7], le32 (tuner_calc_crc [0, 0x0d, 0, 1, 7])] @ [], trace = [], blocks = 0\<rparr>"
      and hs = "[[0], [0x0d, 0, 1]]" and es = "[]"
      and bs = "[[7], le32 (tuner_calc_crc [0, 0x0d, 0, 1, 7])]"]
  by (simp add: frame_def frame_head_def le32_def overrun_if_def)

text \<open>C29: A frame damaged on the way, in up to four neighbouring bytes that leave its length
  field alone, is never accepted: \<^verbatim>\<open>socket::read\<close> fails its checksum test.\<close>

theorem socket_read_rejects_damage:
  assumes "p @ e @ s = frame t body" and "length e = length e'" and "length e \<le> 4" and "e \<noteq> e'"
    and "payload_len (p @ e' @ s) = length body" and "4 \<le> k" and "4 \<le> cap"
    and "length (concat hs) = 4" and "concat hs @ concat bs = p @ e' @ s"
    and "[] \<notin> set hs" and "[] \<notin> set bs"
    and "script w = Ev_fionread (Some k) # delivers hs @ delivers bs @ es"
  shows "\<exists>w'. socket_read cap w = Some (Inl Bad_Crc, w')"
proof -
  have "payload_len (concat hs @ concat bs) = payload_len (concat hs)"
    using assms(8) by (simp add: payload_len_def nth_append)
  then have pl: "payload_len (concat hs) = length body" by (simp add: assms(5,9))
  have "length (p @ e' @ s) = length body + 8"
    using assms(1,2) length_frame [of t body] by (metis length_append)
  then have "length (concat hs) + length (concat bs) = length body + 8"
    using assms(9) by (metis length_append)
  then have l2: "length (concat bs) = payload_len (concat hs) + 4"
    by (simp add: assms(8) pl)
  from socket_read_run [OF read_loop_chunks [OF assms(8,10)] read_loop_chunks [OF l2 assms(11)]
      assms(12,6,7)] crc_ok_damage [OF assms(1-4)]
  show ?thesis by (simp add: assms(9))
qed

theorem socket_read_rejects_damage_witness:
  "\<exists>w'. socket_read 12 \<lparr>script = Ev_fionread (Some 9) # delivers [[0, 0x0d, 0, 1]] @
      delivers [8 # le32 (tuner_calc_crc [0, 0x0d, 0, 1, 7])] @ [], trace = [], blocks = 0\<rparr> = Some (Inl Bad_Crc, w')"
  using socket_read_rejects_damage [where body = "[7]" and k = 9 and cap = 12 and t = "0x0d" and w = "\<lparr>script = Ev_fionread (Some 9) # delivers [[0, 0x0d, 0, 1]] @
      delivers [8 # le32 (tuner_calc_crc [0, 0x0d, 0, 1, 7])] @ [], trace = [], blocks = 0\<rparr>"
      and p = "[0, 0x0d, 0, 1]" and e = "[7]" and e' = "[8]"
      and s = "le32 (tuner_calc_crc [0, 0x0d, 0, 1, 7])"
      and hs = "[[0, 0x0d, 0, 1]]" and es = "[]"
      and bs = "[8 # le32 (tuner_calc_crc [0, 0x0d, 0, 1, 7])]"]
  by (simp add: frame_def frame_head_def payload_len_def)

text \<open>C40: When the tuner closes the connection inside a frame, \<^verbatim>\<open>::read\<close> delivers
  nothing, at once, whenever it is called, and \<^verbatim>\<open>socket::read\<close> calls it again for ever: the empty
  reads do not end its loop, neither with a frame nor with an error. However many of them the
  system delivers, the call is where it was before the first one and goes on with whatever comes
  next (the rest of the frame, a failing read), exactly as if they had not been there; so
  long as nothing else comes there is no number of them after which it returns.\<close>

theorem socket_read_spins_at_eof:
  assumes "4 \<le> avail" and "4 \<le> cap" and "length (concat hs) = 4"
    and "length (concat bs) < payload_len (concat hs) + 4" and "[] \<notin> set hs" and "[] \<notin> set bs"
  shows "socket_read cap \<lparr>script = Ev_fionread (Some avail) # delivers hs @ delivers bs @
        replicate n (Ev_read (Some [])) @ es, trace = tr, blocks = b\<rparr> =
      socket_read cap \<lparr>script = Ev_fionread (Some avail) # delivers hs @ delivers bs @ es,
        trace = tr, blocks = b\<rparr>
    \<and> socket_read cap \<lparr>script = Ev_fionread (Some avail) # delivers hs @ delivers bs @
        replicate n (Ev_read (Some [])), trace = tr, blocks = b\<rparr> = None"
proof -
  have m: "\<not> min avail cap < 4" using assms(1,2) by simp
  have 1: "read_loop 4 (delivers hs @ xs) = Some (Inr (), xs, concat hs)" for xs
    by (rule read_loop_chunks [OF assms(3,5)])
  have 2: "read_loop (payload_len (concat hs) + 4) (delivers bs @ replicate n (Ev_read (Some [])) @ es) =
      read_loop (payload_len (concat hs) + 4) (delivers bs @ es)"
    by (rule read_loop_spins [OF assms(4,6)])
  have 3: "read_loop (payload_len (concat hs) + 4) (delivers bs @ replicate n (Ev_read (Some []))) = None"
    by (rule read_loop_closed [OF assms(4,6)])
  show ?thesis using m
    by (simp add: socket_read_def bindM_def thenM_def tryM_def fionread_def read_bytes_def
        note_store_run Let_def 1 2 3 split: option.split)
qed

theorem socket_read_spins_at_eof_witness:
  "socket_read 12 \<lparr>script = Ev_fionread (Some 4) # delivers [[0, 0x0d, 0, 1]] @ delivers [[7]] @
     replicate 1000000 (Ev_read (Some [])) @ delivers [le32 (tuner_calc_crc [0, 0x0d, 0, 1, 7])],
     trace = [], blocks = 0\<rparr> =
   Some (Inr (frame 0x0d [7], 5), \<lparr>script = [], trace = [], blocks = 0\<rparr>) \<and>
   socket_read 12 \<lparr>script = Ev_fionread (Some 4) # delivers [[0, 0x0d, 0, 1]] @ delivers [[7]] @
     replicate 1000000 (Ev_read (Some [])) @ [Ev_read None], trace = [], blocks = 0\<rparr> =
   Some (Inl Sys_Error, \<lparr>script = [], trace = [], blocks = 0\<rparr>) \<and>
   socket_read 12 \<lparr>script = Ev_fionread (Some 4) # delivers [[0, 0x0d, 0, 1]] @ delivers [[7]] @
     replicate 1000000 (Ev_read (Some [])), trace = [], blocks = 0\<rparr> = None"
proof -
  let ?crc = "le32 (tuner_calc_crc [0, 0x0d, 0, 1, 7])"
  note spin = socket_read_spins_at_eof [of 4 12 "[[0, 0x0d, 0, 1]]" "[[7]]" 1000000]
  have 1: "socket_read 12 \<lparr>script = Ev_fionread (Some 4) # delivers [[0, 0x0d, 0, 1]] @ delivers [[7]] @
      delivers [?crc], trace = [], blocks = 0\<rparr> =
    Some (Inr (frame 0x0d [7], 5), \<lparr>script = [], trace = [], blocks = 0\<rparr>)"
    using socket_read_takes_frame [of "[7]" 4 12 "[[0, 0x0d, 0, 1]]" "0x0d" "[[7], ?crc]"
        "\<lparr>script = Ev_fionread (Some 4) # delivers [[0, 0x0d, 0, 1]] @ delivers [[7], ?crc] @ [],
          trace = [], blocks = 0\<rparr>" "[]"]
    by (simp add: frame_def frame_head_def le32_def overrun_if_def)
  have 2: "socket_read 12 \<lparr>script = Ev_fionread (Some 4) # delivers [[0, 0x0d, 0, 1]] @ delivers [[7]] @
      [Ev_read None], trace = [], blocks = 0\<rparr> = Some (Inl Sys_Error, \<lparr>script = [], trace = [], blocks = 0\<rparr>)"
    by code_simp
  from spin [of "delivers [?crc]" "[]" 0] spin [of "[Ev_read None]" "[]" 0] show ?thesis
    unfolding 1 2 by (simp add: payload_len_def del: delivers_simps)
qed
subsection \<open>Waiting for the response\<close>

text \<open>The events of \<open>select_wait\<close> while nothing arrives, at the given times.\<close>

definition idle :: "int list \<Rightarrow> os_event list" where
  "idle ts = concat (map (\<lambda>t. [Ev_clock t, Ev_select 0 False]) ts)"

lemma idle_simps [simp]: "idle [] = []" "idle (t # ts) = Ev_clock t # Ev_select 0 False # idle ts"
  by (simp_all add: idle_def)

lemma elapsed_small: "0 \<le> d \<Longrightarrow> d \<le> 400000 \<Longrightarrow> \<not> (word_of_int d :: 64 word) > 400 * 1000"
  by (simp add: word_less_def uint_word_of_int take_bit_int_eq_self)

lemma elapsed_large:
  "400000 < d \<Longrightarrow> d < 2 ^ 64 \<Longrightarrow> (word_of_int d :: 64 word) > 400 * 1000"
  by (simp add: word_less_def uint_word_of_int take_bit_int_eq_self)

lemma elapsed_negative:
  "d < 0 \<Longrightarrow> - (2 ^ 63) \<le> d \<Longrightarrow> (word_of_int d :: 64 word) > 400 * 1000"
proof -
  assume d: "d < 0" "- (2 ^ 63) \<le> d"
  have "word_of_int d = (word_of_int (d + 2 ^ 64) :: 64 word)"
    by simp
  also have "\<dots> > 400 * 1000" using d by (intro elapsed_large) simp_all
  finally show ?thesis .
qed

lemma select_wait_idle:
  "\<forall>t \<in> set ts. t0 \<le> t \<and> t - t0 \<le> 400000 \<Longrightarrow>
   select_wait t0 (idle ts @ es) = select_wait t0 es"
proof (induction ts)
  case (Cons t ts)
  then have "\<not> (word_of_int (t - t0) :: 64 word) > 400 * 1000"
    by (intro elapsed_small) simp_all
  then have "select_wait t0 (Ev_clock t # Ev_select 0 False # idle ts @ es) =
      select_wait t0 (idle ts @ es)"
    by (subst select_wait.simps) (simp only: if_False list.case os_event.case, simp)
  with Cons show ?case by simp
qed simp

text \<open>C36: The wait of \<^verbatim>\<open>write_then_read\<close> is bounded: however often \<^verbatim>\<open>pselect\<close> reports nothing
  in the first 400 ms, the first look at the clock after them ends it with a timeout. A clock
  set back has the same effect, since the elapsed time is unsigned.\<close>

theorem select_wait_bounded:
  assumes "\<forall>t \<in> set ts. t0 \<le> t \<and> t - t0 \<le> 400000"
    and "t0 + 400000 < late \<and> late < t0 + 2 ^ 64 \<or> late < t0 \<and> t0 - 2 ^ 63 \<le> late"
  shows "select_wait t0 (idle ts @ Ev_clock late # es) = Some (Inl Timed_Out, es)"
proof -
  have "(word_of_int (late - t0) :: 64 word) > 400 * 1000"
    using assms(2) elapsed_large [of "late - t0"] elapsed_negative [of "late - t0"] by auto
  then show ?thesis
    unfolding select_wait_idle [OF assms(1)] by simp
qed

theorem select_wait_bounded_witness:
  "select_wait 1000 (idle [1000, 250000, 401000] @ Ev_clock 401001 # []) = Some (Inl Timed_Out, [])"
  by (rule select_wait_bounded) simp_all

subsection \<open>The exchange as a whole\<close>

text \<open>
  A response in time: the request is taken in pieces of sizes \<open>ns\<close>, the clock reads \<open>t0\<close> and
  then \<open>t\<close>, the socket becomes readable with \<open>k\<close> bytes, and a frame arrives in pieces.
\<close>

definition responds :: "nat list \<Rightarrow> int \<Rightarrow> int \<Rightarrow> nat \<Rightarrow> u8 list list \<Rightarrow> u8 list list \<Rightarrow> os_event list" where
  "responds ns t0 t k hs bs =
     takes ns @ Ev_clock t0 # Ev_clock t # Ev_select 1 True # Ev_malloc True #
     Ev_fionread (Some k) # delivers hs @ delivers bs"

lemma frame_parts:
  "take (length body + 4) (frame t body) = frame_head t body @ body"
  "frame t body ! 0 = 0" "frame t body ! Suc 0 = t"
  by (simp add: frame_def) (simp_all add: frame_def frame_head_def)

lemma write_then_read_reply:
  assumes "sum_list ns = length (frame 0x0c req)" and "0 \<notin> set ns"
    and "t0 \<le> t" and "t - t0 \<le> 400000" and "4 \<le> k" and "length body < 65536"
    and "concat hs = frame_head 0x0d body" and "concat hs @ concat bs = frame 0x0d body"
    and "[] \<notin> set hs" and "[] \<notin> set bs"
    and "script w = responds ns t0 t k hs bs @ es"
  shows "write_then_read (unframed req) rxlen w =
    Some (Inr (frame_head 0x0d body @ body),
      w\<lparr>script := es, blocks := blocks w + 1,
        trace := trace w @ Sent (frame 0x0c req) # overrun_if (rxlen + 4) (length body + 8)\<rparr>)"
proof -
  define es1 where "es1 = Ev_fionread (Some k) # delivers hs @ delivers bs @ es"
  define es2 where "es2 = Ev_clock t # Ev_select 1 True # Ev_malloc True # es1"
  define w4 where "w4 = w\<lparr>trace := trace w @ [Sent (frame 0x0c req)], script := es1,
    blocks := blocks w + 1\<rparr>"
  have w: "script w = takes ns @ Ev_clock t0 # es2"
    unfolding assms(11) by (simp add: responds_def es1_def es2_def)
  have wr: "write_loop (frame 0x0c req) (script w) = Some (Inr (), Ev_clock t0 # es2, frame 0x0c req)"
    unfolding w by (rule write_loop_chunks [OF assms(1,2)])
  have "\<not> (word_of_int (t - t0) :: 64 word) > 400 * 1000"
    using assms(3,4) by (intro elapsed_small) simp_all
  then have wait: "select_wait t0 es2 = Some (Inr (), Ev_malloc True # es1)"
    unfolding es2_def by (subst select_wait.simps) (simp only: if_False list.case os_event.case, simp)
  have "socket_read (rxlen + 4) w4 = Some (Inr (frame 0x0d body, length body + 4),
    w4\<lparr>script := es, trace := trace w4 @ overrun_if (rxlen + 4) (length (frame 0x0d body))\<rparr>)"
    using assms by (intro socket_read_takes_frame [where k = k and hs = hs and bs = bs])
      (simp_all add: w4_def es1_def)
  then have reply: "take_reply rxlen w4 = Some (Inr (take (length body + 4) (frame 0x0d body)),
    w4\<lparr>script := es, trace := trace w4 @ overrun_if (rxlen + 4) (length body + 8)\<rparr>)"
    by (simp add: take_reply_def tryM_def frame_parts ret_def)
  have "write_then_read (unframed req) rxlen w = take_reply rxlen w4"
    by (simp add: write_then_read_def thenM_def bindM_def tryM_def socket_write_def
        pkt_add_crc_unframed wr gettimeofday_def wait_readable_def wait malloc_def w4_def emit_def)
  also have "\<dots> = Some (Inr (frame_head 0x0d body @ body),
      w\<lparr>script := es, blocks := blocks w + 1,
        trace := trace w @ Sent (frame 0x0c req) # overrun_if (rxlen + 4) (length body + 8)\<rparr>)"
    unfolding reply by (simp add: w4_def frame_parts)
  finally show ?thesis .
qed

text \<open>C30: A request that the system takes in any pieces and the tuner answers within 400 ms
  with a well-formed response frame succeeds: the caller gets header and payload of the
  response, exactly the request's frame has been sent, one block is handed to the caller, and
  the block was overrun exactly when the response frame is longer than the block.\<close>

theorem write_then_read_answered:
  assumes "sum_list ns = length (frame 0x0c req)" and "0 \<notin> set ns"
    and "t0 \<le> t" and "t - t0 \<le> 400000" and "4 \<le> k" and "length body < 65536"
    and "concat hs = frame_head 0x0d body" and "concat hs @ concat bs = frame 0x0d body"
    and "[] \<notin> set hs" and "[] \<notin> set bs"
    and "script w = responds ns t0 t k hs bs @ es"
  shows "write_then_read (unframed req) rxlen w =
    Some (Inr (frame_head 0x0d body @ body),
      w\<lparr>script := es, blocks := blocks w + 1,
        trace := trace w @ Sent (frame 0x0c req) # overrun_if (rxlen + 4) (length body + 8)\<rparr>)"
  by (rule write_then_read_reply [OF assms])

text \<open>The simplest such run, which concrete examples use.\<close>

definition answered :: "u8 list \<Rightarrow> u8 list \<Rightarrow> os_event list" where
  "answered req body = responds [length (frame 0x0c req)] 0 0 (length (frame 0x0d body))
     [frame_head 0x0d body] [body @ le32 (tuner_calc_crc (frame_head 0x0d body @ body))]"

lemma write_then_read_eval:
  assumes "script w = answered req body @ es" and "length body < 65536"
  shows "write_then_read (unframed req) rxlen w =
    Some (Inr (frame_head 0x0d body @ body),
      w\<lparr>script := es, blocks := blocks w + 1,
        trace := trace w @ Sent (frame 0x0c req) # overrun_if (rxlen + 4) (length body + 8)\<rparr>)"
  by (rule write_then_read_reply [OF _ _ _ _ _ _ _ _ _ _ assms(1) [unfolded answered_def]])
    (simp_all add: assms(2) frame_def frame_head_def)

theorem write_then_read_answered_witness:
  "write_then_read (unframed [1, 0xb3, 1, 0, 2]) 1
     \<lparr>script = responds [5, 8] 0 3000 4 [[0, 0x0d], [0, 1]]
       [[0x2a], le32 (tuner_calc_crc [0, 0x0d, 0, 1, 0x2a])] @ [], trace = [], blocks = 0\<rparr> =
   Some (Inr [0, 0x0d, 0, 1, 0x2a],
     \<lparr>script = [], trace = [Sent (frame 0x0c [1, 0xb3, 1, 0, 2]), Overrun 5 9], blocks = 1\<rparr>)"
  using write_then_read_answered [where req = "[1, 0xb3, 1, 0, 2]" and rxlen = 1 and es = "[]"
      and body = "[0x2a]" and ns = "[5, 8]" and ?t0.0 = 0 and t = 3000 and k = 4
      and hs = "[[0, 0x0d], [0, 1]]" and bs = "[[0x2a], le32 (tuner_calc_crc [0, 0x0d, 0, 1, 0x2a])]"
      and w = "\<lparr>script = responds [5, 8] 0 3000 4 [[0, 0x0d], [0, 1]]
       [[0x2a], le32 (tuner_calc_crc [0, 0x0d, 0, 1, 0x2a])] @ [], trace = [], blocks = 0\<rparr>"]
  by (simp add: frame_head_def overrun_if_def) (simp add: frame_def frame_head_def le32_def)

text \<open>After the request nothing else goes out, whether the exchange succeeds or fails; a failure
  may have cut the request short.\<close>

definition only_overruns :: "world \<Rightarrow> world \<Rightarrow> bool" where
  "only_overruns w w' \<longleftrightarrow> (\<exists>as. trace w' = trace w @ as \<and> (\<forall>a\<in>set as. \<exists>c n. a = Overrun c n))"

interpretation over: state_order only_overruns
proof
  fix s t u
  assume "only_overruns s t" and "only_overruns t u"
  then obtain as bs where "trace t = trace s @ as" "\<forall>a\<in>set as. \<exists>c n. a = Overrun c n"
    "trace u = trace t @ bs" "\<forall>a\<in>set bs. \<exists>c n. a = Overrun c n"
    unfolding only_overruns_def by blast
  then have "trace u = trace s @ as @ bs" "\<forall>a\<in>set (as @ bs). \<exists>c n. a = Overrun c n" by auto
  then show "only_overruns s u" unfolding only_overruns_def by blast
qed (simp add: only_overruns_def)

lemma only_overruns_same: "trace w' = trace w \<Longrightarrow> only_overruns w w'"
  by (simp add: only_overruns_def)

lemma only_overruns_calls:
  "keeps only_overruns fionread" "keeps only_overruns (read_bytes n)"
  "keeps only_overruns (note_store c n)" "keeps only_overruns gettimeofday"
  "keeps only_overruns malloc" "keeps only_overruns free_block" "keeps only_overruns (wait_readable t0)"
  by (auto simp: keeps_def only_overruns_def overrun_if_def fionread_Some read_bytes_Some
      gettimeofday_Some malloc_Some wait_readable_Some split: option.splits)

lemma only_overruns_reply: "keeps only_overruns (take_reply n)"
  unfolding take_reply_def socket_read_def Let_def
  by (auto intro!: over.keeps_intros over.tryI only_overruns_calls split: sum.split prod.split)

lemma write_then_read_trace:
  assumes "write_then_read (unframed req) n w = Some (r, w')"
  shows "\<exists>k as. trace w' = trace w @ Sent (take k (frame 0x0c req)) # as \<and>
    (\<forall>a\<in>set as. \<exists>c j. a = Overrun c j)"
proof -
  let ?k = "bindM gettimeofday (\<lambda>t0. thenM (wait_readable t0)
    (bindM malloc (\<lambda>ok. if \<not> ok then fail No_Memory else take_reply n)))"
  from assms obtain q w1 where s: "socket_write (unframed req) 0x0c w = Some (q, w1)"
    and k: "(q = Inr () \<and> ?k w1 = Some (r, w')) \<or> (w' = w1)"
    unfolding write_then_read_def thenM_Some_iff by (elim disjE exE conjE) auto
  from s obtain es out where l: "write_loop (frame 0x0c req) (script w) = Some (q, es, out)"
    and w1: "trace w1 = trace w @ [Sent out]" by (auto simp: socket_write_Some)
  from write_loop_prefix [OF l] have p: "out = take (length out) (frame 0x0c req)"
    by (metis append_eq_conv_conj)
  have kk: "keeps only_overruns ?k"
    by (auto intro!: over.keeps_intros only_overruns_calls only_overruns_reply)
  from k have "only_overruns w1 w'"
  proof
    assume "q = Inr () \<and> ?k w1 = Some (r, w')"
    then show ?thesis by (blast intro: keepsD [OF kk])
  qed (simp add: over.refl)
  then obtain as where "trace w' = trace w1 @ as" "\<forall>a\<in>set as. \<exists>c j. a = Overrun c j"
    unfolding only_overruns_def by blast
  with w1 have "trace w' = trace w @ Sent (take (length out) (frame 0x0c req)) # as"
    using p by simp
  with \<open>\<forall>a\<in>set as. \<exists>c j. a = Overrun c j\<close> show ?thesis by blast
qed

text \<open>C8: Whatever the system and the tuner do, a return of \<^verbatim>\<open>write_then_read\<close> with a block
  means: exactly the request's frame was sent, the response has type 000d and the length its
  header announces, the block was overrun exactly when the response frame is longer than it,
  and one block has been handed over. A return without one leaves no block allocated.\<close>

theorem write_then_read_contract:
  assumes "write_then_read (unframed req) rxlen w = Some (r, w')"
  shows "case r of
    Inl e \<Rightarrow> blocks w' = blocks w
  | Inr rx \<Rightarrow> 4 \<le> length rx \<and> rx ! 0 = 0 \<and> rx ! 1 = 0x0d \<and> length rx = payload_len rx + 4 \<and>
      trace w' = trace w @ Sent (frame 0x0c req) # overrun_if (rxlen + 4) (length rx + 4) \<and>
      blocks w' = blocks w + 1"
  using assms by (cases r) (auto dest: write_then_read_Inl write_then_read_Inr)

theorem write_then_read_contract_witness:
  "case write_then_read (unframed [0x0f, 0xf2, 4, 0, 0]) 8
     \<lparr>script = answered [0x0f, 0xf2, 4, 0, 0] [] @ [], trace = [], blocks = 3\<rparr> of
     Some (Inr rx, w') \<Rightarrow> trace w' = [Sent (frame 0x0c [0x0f, 0xf2, 4, 0, 0])] \<and> blocks w' = 4
   | _ \<Rightarrow> False"
proof -
  let ?w = "\<lparr>script = answered [0x0f, 0xf2, 4, 0, 0] [] @ [], trace = [], blocks = 3\<rparr>"
  obtain w' where r: "write_then_read (unframed [0x0f, 0xf2, 4, 0, 0]) 8 ?w =
      Some (Inr (frame_head 0x0d [] @ []), w')"
    using write_then_read_eval [of ?w "[0x0f, 0xf2, 4, 0, 0]" "[]" "[]" 8] by simp
  from write_then_read_contract [OF r] show ?thesis
    unfolding r by (simp add: overrun_if_def)
qed

subsection \<open>The exchange as an interface\<close>

text \<open>
  What the commands built on \<^verbatim>\<open>write_then_read\<close> rely on: a response means the request was
  sent once and a block is now owned by the caller; a failure means no block is.
\<close>

locale exchange_bus =
  fixes exchange :: "u8 list \<Rightarrow> nat \<Rightarrow> u8 list io"
  assumes response: "exchange req n w = Some (Inr rx, w') \<Longrightarrow>
      4 \<le> length rx \<and> blocks w' = blocks w + 1 \<and>
      trace w' = trace w @ Sent (frame 0x0c req) # overrun_if (n + 4) (length rx + 4)"
    and failure: "exchange req n w = Some (Inl e, w') \<Longrightarrow> blocks w' = blocks w"
    and no_fault: "exchange req n w = Some (Inl e, w') \<Longrightarrow> e \<noteq> Fault m"
    and grows: "keeps extends (exchange req n)"

subsection \<open>The descriptor\<close>

text \<open>
  The fields of the class that do not change while it is used, and its constructor. The
  address bytes are copied, the first four as one word.
\<close>

record socket_id =
  mac :: "u8 list"
  ip :: u32
  host_ip :: u32

definition new_socket :: "u32 \<Rightarrow> u8 list \<Rightarrow> u32 \<Rightarrow> socket_id option" where
  "new_socket ip0 mac0 myip0 =
    (if length mac0 < 6 then None
     else Some \<lparr>mac = take 4 mac0 @ [mac0 ! 4, mac0 ! 5], ip = ip0, host_ip = myip0\<rparr>)"

text \<open>
  \<^verbatim>\<open>open\<close>: the value is its result with the new value of the member \<^verbatim>\<open>sock\<close>. A failed
  \<^verbatim>\<open>::socket\<close> returns a negative number, which \<^verbatim>\<open>sock\<close> keeps.
\<close>

definition socket_open :: "((err + unit) \<times> int) io" where
  "socket_open w = (case script w of
     Ev_socket fd # es \<Rightarrow>
       if fd < 0 then Some (Inr (Inl Sys_Error, fd), w\<lparr>script := es\<rparr>)
       else (case es of
         Ev_connect ok # es' \<Rightarrow>
           if \<not> ok then Some (Inr (Inl Sys_Error, -1), emit (Closed fd) (w\<lparr>script := es'\<rparr>))
           else Some (Inr (Inr (), fd), w\<lparr>script := es'\<rparr>)
       | _ \<Rightarrow> None)
   | _ \<Rightarrow> None)"

definition socket_close :: "int \<Rightarrow> int io" where
  "socket_close fd w =
    (if fd = -1 then Some (Inr (-1), w) else Some (Inr (-1), emit (Closed fd) w))"

text \<open>Descriptors are balanced. If \<^verbatim>\<open>open\<close> fails, the descriptor it got, if any, is closed
  and \<^verbatim>\<open>sock\<close> is negative; if it succeeds, nothing is closed and \<^verbatim>\<open>close\<close> closes exactly that
  descriptor, once: a second \<^verbatim>\<open>close\<close> does nothing.\<close>

theorem socket_descriptor_balanced:
  assumes "socket_open w = Some (Inr (r, fd), w')"
  shows "case r of
    Inl e \<Rightarrow> fd < 0 \<and> ((\<exists>d es. script w = Ev_socket d # es \<and> d < 0 \<and> trace w' = trace w) \<or>
      (\<exists>d es. script w = Ev_socket d # Ev_connect False # es \<and> 0 \<le> d \<and>
         trace w' = trace w @ [Closed d]))
  | Inr _ \<Rightarrow> 0 \<le> fd \<and> (\<exists>es. script w = Ev_socket fd # Ev_connect True # es) \<and> trace w' = trace w \<and>
      bindM (socket_close fd) socket_close w' = Some (Inr (-1), emit (Closed fd) w')"
  using assms
  by (auto simp: socket_open_def socket_close_def bindM_def tryM_def
      split: list.splits os_event.splits if_splits)

theorem socket_descriptor_balanced_witness:
  "case socket_open \<lparr>script = [Ev_socket 5, Ev_connect True], trace = [], blocks = 0\<rparr> of
     Some (Inr (Inr u, fd), w') \<Rightarrow> fd = 5 \<and>
       bindM (socket_close fd) socket_close w' = Some (Inr (-1), emit (Closed 5) w')
   | _ \<Rightarrow> False"
proof -
  let ?w = "\<lparr>script = [Ev_socket 5, Ev_connect True], trace = [], blocks = 0\<rparr>"
  obtain w' where r: "socket_open ?w = Some (Inr (Inr (), 5), w')"
    by (simp add: socket_open_def)
  from socket_descriptor_balanced [OF r] show ?thesis unfolding r by simp
qed

lemma socket_close_run:
  "socket_close fd w = Some (r, w') \<longleftrightarrow>
   r = Inr (-1) \<and> w' = (if fd = -1 then w else emit (Closed fd) w)"
  by (auto simp: socket_close_def)

end
