(* ===== verification/Sez_Registers.thy ===== *)
theory Sez_Registers
  imports Sez_Socket
begin

text \<open>
  The commands of the class \<^verbatim>\<open>socket\<close> that address the tuner's CPU bus and the registers of
  its two LG DT3305 demodulators. Each sends one request payload and checks the length of the
  response. A getter's value stands in the payload, behind the 4-byte header.
\<close>

subsection \<open>The code\<close>

text \<open>
  The common tail: the response must carry exactly \<open>k\<close> payload bytes. On a response of another
  length the commands return without freeing it.
\<close>

definition reply :: "nat \<Rightarrow> (u8 list \<Rightarrow> 'a) \<Rightarrow> u8 list \<Rightarrow> 'a io" where
  "reply k f rx =
    (if length rx \<noteq> k + 4 then fail (Fault (length rx)) else thenM free_block (ret (f rx)))"

definition get_gpio :: "u32 io" where
  "get_gpio = bindM (write_then_read (unframed [0x0f, 0xf3, 2, 4]) 2)
     (reply 2 (\<lambda>rx. push_bit 8 (ucast (rx ! 4)) OR ucast (rx ! 5)))"

definition set_gpio :: "u32 \<Rightarrow> unit io" where
  "set_gpio val =
    (if val AND NOT 0xffff \<noteq> 0 then fail Invalid_Arg
     else bindM (write_then_read (unframed [0x0f, 0xf2, 4, ucast (drop_bit 8 val), ucast val]) 8)
       (reply 0 (\<lambda>_. ())))"

definition bad_address :: "u8 \<Rightarrow> u32 \<Rightarrow> bool" where
  "bad_address ch addr \<longleftrightarrow> addr AND NOT 0xffff \<noteq> 0 \<or> ch > 2"

definition read_request :: "u8 \<Rightarrow> u32 \<Rightarrow> u8 \<Rightarrow> u8 list" where
  "read_request ch addr n = [ch, 0xb3, n, ucast (drop_bit 8 addr), ucast addr]"

definition write_request :: "u8 \<Rightarrow> u32 \<Rightarrow> u8 list \<Rightarrow> u8 list" where
  "write_request ch addr bytes = [ch, 0xb2, ucast (drop_bit 8 addr), ucast addr] @ bytes"

definition get_demod8 :: "u8 \<Rightarrow> u32 \<Rightarrow> u8 io" where
  "get_demod8 ch addr =
    (if bad_address ch addr then fail Invalid_Arg
     else bindM (write_then_read (unframed (read_request ch addr 1)) 1) (reply 1 (\<lambda>rx. rx ! 4)))"

definition set_demod8 :: "u8 \<Rightarrow> u32 \<Rightarrow> u8 \<Rightarrow> unit io" where
  "set_demod8 ch addr val =
    (if bad_address ch addr then fail Invalid_Arg
     else bindM (write_then_read (unframed (write_request ch addr [val])) 8) (reply 0 (\<lambda>_. ())))"

definition get_demod16 :: "u8 \<Rightarrow> u32 \<Rightarrow> u32 io" where
  "get_demod16 ch addr =
    (if bad_address ch addr then fail Invalid_Arg
     else bindM (write_then_read (unframed (read_request ch addr 2)) 2)
       (reply 2 (\<lambda>rx. push_bit 8 (ucast (rx ! 4)) OR ucast (rx ! 5))))"

definition set_demod16 :: "u8 \<Rightarrow> u32 \<Rightarrow> u32 \<Rightarrow> unit io" where
  "set_demod16 ch addr val =
    (if bad_address ch addr \<or> val AND NOT 0xffff \<noteq> 0 then fail Invalid_Arg
     else bindM (write_then_read
         (unframed (write_request ch addr [ucast (drop_bit 8 val), ucast val])) 8)
       (reply 0 (\<lambda>_. ())))"

definition get_demod24 :: "u8 \<Rightarrow> u32 \<Rightarrow> u32 io" where
  "get_demod24 ch addr =
    (if bad_address ch addr then fail Invalid_Arg
     else bindM (write_then_read (unframed (read_request ch addr 3)) 3)
       (reply 3 (\<lambda>rx. push_bit 16 (ucast (rx ! 4)) OR push_bit 8 (ucast (rx ! 5)) OR
         ucast (rx ! 6))))"

definition set_demod24 :: "u8 \<Rightarrow> u32 \<Rightarrow> u32 \<Rightarrow> unit io" where
  "set_demod24 ch addr val =
    (if bad_address ch addr \<or> val AND NOT 0xffffff \<noteq> 0 then fail Invalid_Arg
     else bindM (write_then_read (unframed (write_request ch addr
         [ucast (drop_bit 16 val), ucast (drop_bit 8 val), ucast val])) 8)
       (reply 0 (\<lambda>_. ())))"

definition get_demod32 :: "u8 \<Rightarrow> u32 \<Rightarrow> u32 io" where
  "get_demod32 ch addr =
    (if bad_address ch addr then fail Invalid_Arg
     else bindM (write_then_read (unframed (read_request ch addr 4)) 4)
       (reply 4 (\<lambda>rx. push_bit 24 (ucast (rx ! 4)) OR push_bit 16 (ucast (rx ! 5)) OR
         push_bit 8 (ucast (rx ! 6)) OR ucast (rx ! 7))))"

definition set_demod32 :: "u8 \<Rightarrow> u32 \<Rightarrow> u32 \<Rightarrow> unit io" where
  "set_demod32 ch addr val =
    (if bad_address ch addr then fail Invalid_Arg
     else bindM (write_then_read (unframed (write_request ch addr
         [ucast (drop_bit 24 val), ucast (drop_bit 16 val), ucast (drop_bit 8 val), ucast val])) 8)
       (reply 0 (\<lambda>_. ())))"

text \<open>\<^verbatim>\<open>get_demodN\<close> asks for \<open>len\<close> bytes but announces room for 4.\<close>

definition get_demodN :: "u8 \<Rightarrow> u32 \<Rightarrow> u8 \<Rightarrow> u8 list io" where
  "get_demodN ch addr len =
    (if bad_address ch addr \<or> len = 0 then fail Invalid_Arg
     else bindM (write_then_read (unframed (read_request ch addr len)) 4)
       (reply (unat len) (\<lambda>rx. take (unat len) (drop 4 rx))))"

text \<open>\<^verbatim>\<open>set_demodN\<close> copies \<open>len\<close> bytes of the array; a shorter array is read out of bounds.\<close>

definition set_demodN :: "u8 \<Rightarrow> u32 \<Rightarrow> u8 list \<Rightarrow> u8 \<Rightarrow> unit io" where
  "set_demodN ch addr arr len =
    (if bad_address ch addr \<or> len = 0 then fail Invalid_Arg
     else if length arr < unat len then (\<lambda>_. None)
     else bindM (write_then_read (unframed (write_request ch addr (take (unat len) arr))) 8)
       (reply 0 (\<lambda>_. ())))"

text \<open>Clear bit 0 of demodulator register 2, wait, set it again.\<close>

definition reset_demod :: "u8 \<Rightarrow> u32 \<Rightarrow> unit io" where
  "reset_demod ch reset_ms =
    (if ch > 2 then fail Invalid_Arg
     else bindM (get_demod8 ch 2) (\<lambda>b0.
       let b = b0 AND NOT 1 in
       thenM (set_demod8 ch 2 b)
       (thenM (usleep (unat (reset_ms * 1000)))
       (let b = b OR 1 in set_demod8 ch 2 b))))"

subsection \<open>Every command is one exchange\<close>

context exchange_bus
begin

lemma command_ok:
  assumes "bindM (exchange req n) (reply k f) w = Some (Inr x, w')"
  shows "blocks w' = blocks w \<and>
    trace w' = trace w @ Sent (frame 0x0c req) # overrun_if (n + 4) (k + 8) \<and>
    (\<exists>rx. length rx = k + 4 \<and> x = f rx)"
proof -
  from assms obtain rx w1 where 1: "exchange req n w = Some (Inr rx, w1)"
    and 2: "reply k f rx w1 = Some (Inr x, w')"
    unfolding bindM_Inr_iff by blast
  from 2 have "length rx = k + 4" "x = f rx" "w' = w1\<lparr>blocks := blocks w1 - 1\<rparr>"
    by (auto simp: reply_def thenM_Inr_iff split: if_splits)
  with response [OF 1] show ?thesis by (auto simp: add.commute)
qed

lemma command_error:
  assumes "bindM (exchange req n) (reply k f) w = Some (Inl e, w')"
  shows "blocks w' = blocks w + (case e of Fault m \<Rightarrow> 1 | _ \<Rightarrow> 0)"
proof -
  from assms consider "exchange req n w = Some (Inl e, w')"
    | rx w1 where "exchange req n w = Some (Inr rx, w1)" "reply k f rx w1 = Some (Inl e, w')"
    by (auto simp: bindM_Some_iff)
  then show ?thesis
  proof cases
    case 1
    with failure [OF 1] no_fault [OF 1] show ?thesis by (auto split: err.splits)
  next
    case 2
    then have "e = Fault (length rx)" "w' = w1"
      by (auto simp: reply_def thenM_Some_iff split: if_splits)
    with response [OF 2(1)] show ?thesis by simp
  qed
qed

lemma command_grows: "keeps extends (bindM (exchange req n) (reply k f))"
  unfolding reply_def
  by (intro ext.bindI grows) (auto intro!: ext.keeps_intros keeps_extends_calls)

end

text \<open>\<open>Fault\<close>, the wrong response length, is an error of the commands only.\<close>

definition no_fault :: "err \<Rightarrow> bool" where
  "no_fault e \<longleftrightarrow> (\<forall>m. e \<noteq> Fault m)"

definition pure_ok :: "err + 'a \<Rightarrow> bool" where
  "pure_ok r \<longleftrightarrow> (\<forall>e. r = Inl e \<longrightarrow> no_fault e)"

lemma write_loop_no_fault: "write_loop pkt es = Some (Inl e, q) \<Longrightarrow> no_fault e"
  by (induction pkt es arbitrary: q rule: write_loop.induct)
    (auto simp: no_fault_def split: if_splits option.splits)

lemma read_loop_no_fault: "read_loop n es = Some (Inl e, q) \<Longrightarrow> no_fault e"
  by (induction n es arbitrary: q rule: read_loop.induct)
    (auto simp: no_fault_def split: if_splits option.splits)

lemma select_wait_no_fault: "select_wait t0 es = Some (Inl e, q) \<Longrightarrow> no_fault e"
  by (induction t0 es arbitrary: q rule: select_wait.induct)
    (auto simp: no_fault_def split: if_splits list.splits os_event.splits)

lemma no_fault_calls:
  "outcome no_fault (\<lambda>_. True) fionread"
  "outcome no_fault (\<lambda>(r, _). pure_ok r) (read_bytes n)"
  "outcome no_fault (\<lambda>_. True) (note_store c n)"
  "outcome no_fault (\<lambda>_. True) free_block"
  "outcome no_fault (\<lambda>_. True) (socket_write pkt t)"
  "outcome no_fault (\<lambda>_. True) gettimeofday"
  "outcome no_fault (\<lambda>_. True) (wait_readable t0)"
  "outcome no_fault (\<lambda>_. True) malloc"
  by (auto simp: outcome_def fionread_Some read_bytes_Some socket_write_def gettimeofday_Some
      wait_readable_Some malloc_Some pure_ok_def split: option.splits sum.splits
      dest: write_loop_no_fault read_loop_no_fault select_wait_no_fault) (simp_all add: no_fault_def)

lemma no_fault_errs [simp]:
  "no_fault Bad_Crc" "no_fault Empty_Read" "no_fault Short_Read" "no_fault (Bad_Reply a b)"
  "no_fault No_Memory"
  by (simp_all add: no_fault_def)

lemma no_fault_socket_read: "outcome no_fault (\<lambda>_. True) (socket_read cap)"
  unfolding socket_read_def Let_def
  by (intro outcome_bind [OF no_fault_calls(1)] outcome_if outcome_ret TrueI
      outcome_bind [OF no_fault_calls(2)])
    (auto intro!: outcome_then [OF no_fault_calls(3)] outcome_bind [OF no_fault_calls(2)]
      outcome_ret outcome_fail split: sum.split simp: pure_ok_def)

lemma no_fault_write_then_read: "outcome no_fault (\<lambda>_. True) (write_then_read pkt n)"
  unfolding write_then_read_def take_reply_def
  by (intro outcome_then [OF no_fault_calls(5)] outcome_bind [OF no_fault_calls(6)]
      outcome_then [OF no_fault_calls(7)] outcome_bind [OF no_fault_calls(8)] outcome_if
      outcome_fail outcome_try [OF no_fault_socket_read])
    (auto intro!: outcome_then [OF no_fault_calls(4)] outcome_fail outcome_ret)

interpretation bus: exchange_bus "\<lambda>req. write_then_read (unframed req)"
proof unfold_locales
  fix req n w rx w'
  assume "write_then_read (unframed req) n w = Some (Inr rx, w')"
  from write_then_read_Inr [OF this] show "4 \<le> length rx \<and> blocks w' = blocks w + 1 \<and>
      trace w' = trace w @ Sent (frame 0x0c req) # overrun_if (n + 4) (length rx + 4)" by blast
next
  fix req n w e w' m
  assume "write_then_read (unframed req) n w = Some (Inl e, w')"
  from outcomeD(1) [OF no_fault_write_then_read this] show "e \<noteq> Fault m"
    by (simp add: no_fault_def)
qed (blast intro: write_then_read_Inl keeps_write_then_read)+

subsection \<open>Runs and properties\<close>

lemmas command_defs = get_gpio_def set_gpio_def get_demod8_def set_demod8_def get_demod16_def
  set_demod16_def get_demod24_def set_demod24_def get_demod32_def set_demod32_def get_demodN_def
  set_demodN_def

text \<open>A command whose request is answered at once.\<close>

lemma command_eval:
  assumes "script w = answered req body @ es" and "length body = k" and "k < 65536"
  shows "bindM (write_then_read (unframed req) n) (reply k f) w =
    Some (Inr (f (frame_head 0x0d body @ body)),
      w\<lparr>script := es, trace := trace w @ Sent (frame 0x0c req) # overrun_if (n + 4) (k + 8)\<rparr>)"
  using write_then_read_eval [OF assms(1), of n] assms(2,3)
  by (simp add: io_simps reply_def thenM_def free_block_def)

lemma get_demod8_eval:
  assumes "script w = answered (read_request ch addr 1) [b] @ es" and "\<not> bad_address ch addr"
  shows "get_demod8 ch addr w = Some (Inr b,
    w\<lparr>script := es, trace := trace w @ [Sent (frame 0x0c (read_request ch addr 1)), Overrun 5 9]\<rparr>)"
  using command_eval [OF assms(1), where k = 1 and n = 1 and f = "\<lambda>rx. rx ! 4"] assms(2)
  by (simp add: get_demod8_def frame_head_def overrun_if_def)

lemma set_demod8_eval:
  assumes "script w = answered (write_request ch addr [v]) [] @ es" and "\<not> bad_address ch addr"
  shows "set_demod8 ch addr v w = Some (Inr (),
    w\<lparr>script := es, trace := trace w @ [Sent (frame 0x0c (write_request ch addr [v]))]\<rparr>)"
  using command_eval [OF assms(1), where k = 0 and n = 8 and f = "\<lambda>rx. ()"] assms(2)
  by (simp add: set_demod8_def overrun_if_def)

lemma set_gpio_eval:
  assumes "script w = answered [0x0f, 0xf2, 4, ucast (drop_bit 8 v), ucast v] [] @ es"
    and "v AND NOT 0xffff = 0"
  shows "set_gpio v w = Some (Inr (), w\<lparr>script := es,
    trace := trace w @ [Sent (frame 0x0c [0x0f, 0xf2, 4, ucast (drop_bit 8 v), ucast v])]\<rparr>)"
  using command_eval [OF assms(1), where k = 0 and n = 8 and f = "\<lambda>rx. ()"] assms(2)
  by (simp add: set_gpio_def overrun_if_def)

text \<open>What the success of a command has done, and what its failure leaves behind.\<close>

lemma get_demod8_ok:
  "get_demod8 ch addr w = Some (Inr b, w') \<Longrightarrow> \<not> bad_address ch addr \<and> blocks w' = blocks w \<and>
   trace w' = trace w @ [Sent (frame 0x0c (read_request ch addr 1)), Overrun 5 9]"
  by (auto simp: get_demod8_def overrun_if_def split: if_splits dest!: bus.command_ok)

lemma set_demod8_ok:
  "set_demod8 ch addr v w = Some (Inr u, w') \<Longrightarrow> \<not> bad_address ch addr \<and> blocks w' = blocks w \<and>
   trace w' = trace w @ [Sent (frame 0x0c (write_request ch addr [v]))]"
  by (auto simp: set_demod8_def overrun_if_def split: if_splits dest!: bus.command_ok)

lemma set_gpio_ok:
  "set_gpio v w = Some (Inr u, w') \<Longrightarrow> v AND NOT 0xffff = 0 \<and> blocks w' = blocks w \<and>
   trace w' = trace w @ [Sent (frame 0x0c [0x0f, 0xf2, 4, ucast (drop_bit 8 v), ucast v])]"
  by (auto simp: set_gpio_def overrun_if_def split: if_splits dest!: bus.command_ok)

text \<open>Successful or not, a command sends at most the frame of its request.\<close>

lemma command_trace:
  assumes "bindM (write_then_read (unframed req) n) (reply k f) w = Some (r, w')"
  shows "\<exists>k as. trace w' = trace w @ Sent (take k (frame 0x0c req)) # as \<and>
    (\<forall>a\<in>set as. \<exists>c j. a = Overrun c j)"
proof -
  from assms obtain q w1 where "write_then_read (unframed req) n w = Some (q, w1)"
    and "trace w' = trace w1"
    using bindM_Some_iff [of "write_then_read (unframed req) n" "reply k f" w r w']
    by (fastforce simp: reply_def thenM_Some_iff split: if_splits)
  with write_then_read_trace show ?thesis by metis
qed

lemma set_gpio_trace:
  assumes "set_gpio v w = Some (r, w')" and "v AND NOT 0xffff = 0"
  shows "\<exists>k as. trace w' = trace w @
      Sent (take k (frame 0x0c [0x0f, 0xf2, 4, ucast (drop_bit 8 v), ucast v])) # as \<and> (\<forall>a\<in>set as. \<exists>c j. a = Overrun c j)"
  by (rule command_trace [where n = 8 and k = 0 and f = "\<lambda>_. ()"])
    (use assms in \<open>simp add: set_gpio_def\<close>)

lemma bus_grows: "keeps extends (write_then_read (unframed req) n)"
  by (rule bus.grows)

lemma commands_grow:
  "keeps extends get_gpio" "keeps extends (set_gpio v)"
  "keeps extends (get_demod8 ch a)" "keeps extends (set_demod8 ch a b)"
  "keeps extends (get_demod16 ch a)" "keeps extends (set_demod16 ch a v)"
  "keeps extends (get_demod24 ch a)" "keeps extends (set_demod24 ch a v)"
  "keeps extends (get_demod32 ch a)" "keeps extends (set_demod32 ch a v)"
  "keeps extends (get_demodN ch a len)" "keeps extends (set_demodN ch a bs len)"
  by (simp_all add: command_defs bus.command_grows ext.fail)
    (simp add: keeps_def)

lemma reset_demod_grows: "keeps extends (reset_demod ch ms)"
  unfolding reset_demod_def Let_def
  by (intro ext.keeps_intros commands_grow keeps_extends_calls)

text \<open>A register read that succeeds has asked for exactly that register, and has written
  4 bytes past the end of the 5-byte block \<^verbatim>\<open>write_then_read\<close> allocates for it: the block has
  room for header and value, but \<^verbatim>\<open>socket::read\<close> also stores the 4-byte checksum.\<close>

theorem get_demod8_success:
  assumes "get_demod8 ch addr w = Some (Inr b, w')"
  shows "\<not> bad_address ch addr \<and> blocks w' = blocks w \<and>
    trace w' = trace w @ [Sent (frame 0x0c (read_request ch addr 1)), Overrun 5 9]"
  using assms by (rule get_demod8_ok)

theorem get_demod8_success_witness:
  "case get_demod8 1 0x11d
     \<lparr>script = answered (read_request 1 0x11d 1) [0x80] @ [], trace = [], blocks = 0\<rparr> of
     Some (Inr b, w') \<Rightarrow> b = 0x80 \<and>
       trace w' = [Sent (frame 0x0c (read_request 1 0x11d 1)), Overrun 5 9]
   | _ \<Rightarrow> False"
proof -
  let ?w = "\<lparr>script = answered (read_request 1 0x11d 1) [0x80] @ [], trace = [], blocks = 0\<rparr>"
  obtain w' where r: "get_demod8 1 0x11d ?w = Some (Inr 0x80, w')"
    using get_demod8_eval [of ?w 1 "0x11d" "0x80" "[]"] by (simp add: bad_address_def)
  from get_demod8_success [OF r] show ?thesis
    unfolding r by simp
qed

text \<open>A register write that succeeds has sent exactly one frame, with the address, high
  byte first, and the value, has stayed inside its buffers, and leaves no block allocated.\<close>

theorem set_demod8_success:
  assumes "set_demod8 ch addr v w = Some (Inr u, w')"
  shows "\<not> bad_address ch addr \<and> blocks w' = blocks w \<and>
    trace w' = trace w @ [Sent (frame 0x0c [ch, 0xb2, ucast (drop_bit 8 addr), ucast addr, v])]"
  using set_demod8_ok [OF assms] by (simp add: write_request_def)

theorem set_demod8_success_witness:
  "case set_demod8 0 0x0d 0x63
     \<lparr>script = answered (write_request 0 0x0d [0x63]) [] @ [], trace = [], blocks = 0\<rparr> of
     Some (Inr u, w') \<Rightarrow> trace w' = [Sent (frame 0x0c [0, 0xb2, 0, 0x0d, 0x63])] \<and> blocks w' = 0
   | _ \<Rightarrow> False"
proof -
  let ?w = "\<lparr>script = answered (write_request 0 0x0d [0x63]) [] @ [], trace = [], blocks = 0\<rparr>"
  obtain w' where r: "set_demod8 0 0x0d 0x63 ?w = Some (Inr (), w')"
    using set_demod8_eval [of ?w 0 "0x0d" "0x63" "[]"] by (simp add: bad_address_def)
  from set_demod8_success [OF r] show ?thesis unfolding r by simp
qed

text \<open>A register command that fails leaves no block allocated, except where the response
  has the wrong length: that response is never freed. An invalid address is refused before
  anything is sent.\<close>

theorem get_demod8_failure:
  assumes "get_demod8 ch addr w = Some (Inl e, w')"
  shows "blocks w' = blocks w + (case e of Fault m \<Rightarrow> 1 | _ \<Rightarrow> 0) \<and>
    (bad_address ch addr \<longrightarrow> e = Invalid_Arg \<and> w' = w)"
  using assms by (auto simp: get_demod8_def split: if_splits dest!: bus.command_error)

theorem get_demod8_failure_witness:
  "case get_demod8 1 0x11d
     \<lparr>script = answered (read_request 1 0x11d 1) [0x80, 0] @ [], trace = [], blocks = 0\<rparr> of
     Some (Inl e, w') \<Rightarrow> e = Fault 6 \<and> blocks w' = 1
   | _ \<Rightarrow> False"
proof -
  let ?w = "\<lparr>script = answered (read_request 1 0x11d 1) [0x80, 0] @ [], trace = [], blocks = 0\<rparr>"
  obtain w' where r: "get_demod8 1 0x11d ?w = Some (Inl (Fault 6), w')"
    using write_then_read_eval [of ?w "read_request 1 0x11d 1" "[0x80, 0]" "[]" 1]
    by (simp add: get_demod8_def io_simps reply_def frame_head_def bad_address_def)
  from get_demod8_failure [OF r] show ?thesis unfolding r by simp
qed

text \<open>The two directions of the 32-bit register access agree: when the tuner answers a
  read with the value bytes \<^verbatim>\<open>set_demod32\<close> sent, \<^verbatim>\<open>get_demod32\<close> returns the value that was
  written, for every value.\<close>

theorem demod32_roundtrip:
  assumes "\<not> bad_address ch addr"
    and "script w = answered (write_request ch addr bytes) [] @
      answered (read_request ch addr 4) bytes @ es"
    and "bytes = [ucast (drop_bit 24 v), ucast (drop_bit 16 v), ucast (drop_bit 8 v), ucast v]"
  shows "thenM (set_demod32 ch addr v) (get_demod32 ch addr) w = Some (Inr v,
    w\<lparr>script := es, trace := trace w @ [Sent (frame 0x0c (write_request ch addr bytes)),
        Sent (frame 0x0c (read_request ch addr 4)), Overrun 8 12]\<rparr>)"
proof -
  let ?w1 = "w\<lparr>script := answered (read_request ch addr 4) bytes @ es,
    trace := trace w @ [Sent (frame 0x0c (write_request ch addr bytes))]\<rparr>"
  have "set_demod32 ch addr v w = Some (Inr (), ?w1)"
    using command_eval [OF assms(2), where k = 0 and n = 8 and f = "\<lambda>_. ()"] assms(1)
    by (simp add: set_demod32_def overrun_if_def assms(3))
  moreover have "get_demod32 ch addr ?w1 = Some (Inr v, ?w1\<lparr>script := es, trace := trace ?w1 @
      [Sent (frame 0x0c (read_request ch addr 4)), Overrun 8 12]\<rparr>)"
    using command_eval [of ?w1 "read_request ch addr 4" bytes es 4 4 "\<lambda>rx.
        push_bit 24 (ucast (rx ! 4)) OR push_bit 16 (ucast (rx ! 5)) OR
        push_bit 8 (ucast (rx ! 6)) OR (ucast (rx ! 7) :: u32)"] assms(1) be32_value [of v]
    by (simp add: get_demod32_def overrun_if_def assms(3) frame_head_def be32_def)
  ultimately show ?thesis by (simp add: thenM_def io_simps)
qed

theorem demod32_roundtrip_witness:
  "thenM (set_demod32 1 0x10 0xdeadbeef) (get_demod32 1 0x10)
     \<lparr>script = answered (write_request 1 0x10 [0xde, 0xad, 0xbe, 0xef]) [] @
        answered (read_request 1 0x10 4) [0xde, 0xad, 0xbe, 0xef] @ [], trace = [], blocks = 0\<rparr> =
   Some (Inr 0xdeadbeef, \<lparr>script = [], trace =
     [Sent (frame 0x0c (write_request 1 0x10 [0xde, 0xad, 0xbe, 0xef])),
      Sent (frame 0x0c (read_request 1 0x10 4)), Overrun 8 12], blocks = 0\<rparr>)"
proof -
  have "[0xde, 0xad, 0xbe, 0xef] = [ucast (drop_bit 24 (0xdeadbeef :: u32)),
    ucast (drop_bit 16 (0xdeadbeef :: u32)), ucast (drop_bit 8 (0xdeadbeef :: u32)),
    ucast (0xdeadbeef :: u32) :: u8]"
    by code_simp
  from demod32_roundtrip [of 1 "0x10" "\<lparr>script = answered (write_request 1 0x10 [0xde, 0xad, 0xbe, 0xef]) [] @
        answered (read_request 1 0x10 4) [0xde, 0xad, 0xbe, 0xef] @ [], trace = [], blocks = 0\<rparr>",
      OF _ _ this]
  show ?thesis by (simp add: bad_address_def)
qed

text \<open>A reset that succeeds has, in this order, read demodulator register 2, written it back
  with bit 0 clear, slept the given time, and written it back with bit 0 set, for the value
  that was read.\<close>

theorem reset_demod_sequence:
  assumes "reset_demod ch ms w = Some (Inr u, w')"
  shows "ch \<le> 2 \<and> blocks w' = blocks w \<and> (\<exists>b. trace w' = trace w @
    [Sent (frame 0x0c (read_request ch 2 1)), Overrun 5 9,
     Sent (frame 0x0c (write_request ch 2 [b AND NOT 1])),
     Slept (unat (ms * 1000)),
     Sent (frame 0x0c (write_request ch 2 [b OR 1]))])"
proof -
  from assms obtain b w1 v1 w2 v2 w3 where "ch \<le> 2"
    and 1: "get_demod8 ch 2 w = Some (Inr b, w1)"
    and 2: "set_demod8 ch 2 (b AND NOT 1) w1 = Some (Inr v1, w2)"
    and 3: "usleep (unat (ms * 1000)) w2 = Some (Inr v2, w3)"
    and 4: "set_demod8 ch 2 (b AND NOT 1 OR 1) w3 = Some (Inr u, w')"
    unfolding reset_demod_def Let_def by (auto simp: bindM_Inr_iff thenM_Inr_iff split: if_splits)
  have "b AND NOT 1 OR 1 = b OR 1"
    by (rule bit_word_eqI) (auto simp: bit_simps)
  with 4 have 4: "set_demod8 ch 2 (b OR 1) w3 = Some (Inr u, w')" by simp
  from get_demod8_ok [OF 1] set_demod8_ok [OF 2] 3 set_demod8_ok [OF 4] \<open>ch \<le> 2\<close>
  show ?thesis by (auto simp: usleep_def)
qed

theorem reset_demod_sequence_witness:
  "case reset_demod 0 20 \<lparr>script = answered (read_request 0 2 1) [0x55] @
      answered (write_request 0 2 [0x54]) [] @ answered (write_request 0 2 [0x55]) [] @ [],
      trace = [], blocks = 0\<rparr> of
     Some (Inr u, w') \<Rightarrow> Slept 20000 \<in> set (trace w') \<and> blocks w' = 0
   | _ \<Rightarrow> False"
proof -
  let ?w = "\<lparr>script = answered (read_request 0 2 1) [0x55] @
      answered (write_request 0 2 [0x54]) [] @ answered (write_request 0 2 [0x55]) [] @ [],
      trace = [], blocks = 0\<rparr>"
  obtain w' where r: "reset_demod 0 20 ?w = Some (Inr (), w')"
    using get_demod8_eval [of ?w 0 2 "0x55" "answered (write_request 0 2 [0x54]) [] @
      answered (write_request 0 2 [0x55]) [] @ []"]
    by (simp add: reset_demod_def io_simps thenM_def bad_address_def set_demod8_eval usleep_def)
  from reset_demod_sequence [OF r] show ?thesis unfolding r by auto
qed

lemma runs_command:
  "length body = k \<Longrightarrow> k < 65536 \<Longrightarrow>
   runs (bindM (write_then_read (unframed req) n) (reply k f)) (answered req body)
     (f (frame_head 0x0d body @ body))"
  by (rule runsI [where f = "\<lambda>_. Sent (frame 0x0c req) # overrun_if (n + 4) (k + 8)"])
    (rule command_eval)

lemma runs_get_demod8:
  "\<not> bad_address ch addr \<Longrightarrow> runs (get_demod8 ch addr) (answered (read_request ch addr 1) [b]) b"
  using get_demod8_eval unfolding runs_def by blast

lemma runs_set_demod8:
  "\<not> bad_address ch addr \<Longrightarrow> runs (set_demod8 ch addr v) (answered (write_request ch addr [v]) []) ()"
  using set_demod8_eval unfolding runs_def by blast

lemma runs_set_gpio:
  "v AND NOT 0xffff = 0 \<Longrightarrow>
   runs (set_gpio v) (answered [0x0f, 0xf2, 4, ucast (drop_bit 8 v), ucast v] []) ()"
  using set_gpio_eval unfolding runs_def by blast

lemma runs_get_demodN:
  assumes "\<not> bad_address ch addr" and "length bytes = unat n" and "n \<noteq> 0"
  shows "runs (get_demodN ch addr n) (answered (read_request ch addr n) bytes) bytes"
  using runs_command [OF assms(2), of "read_request ch addr n" 4 "\<lambda>rx. take (unat n) (drop 4 rx)"]
    assms unsigned_less [of n, where ?'a = nat] by (simp add: get_demodN_def)

text \<open>A reset that finds \<open>b\<close> in register 2.\<close>

definition reset_answers :: "u8 \<Rightarrow> u8 \<Rightarrow> os_event list" where
  "reset_answers ch b = answered (read_request ch 2 1) [b] @
     answered (write_request ch 2 [b AND NOT 1]) [] @
     answered (write_request ch 2 [(b AND NOT 1) OR 1]) []"

lemma runs_reset_demod: "ch \<le> 2 \<Longrightarrow> runs (reset_demod ch ms) (reset_answers ch b) ()"
proof -
  assume ch: "ch \<le> 2"
  then have ok: "\<not> bad_address ch 2" by (simp add: bad_address_def not_less)
  have "runs (thenM (usleep n) (set_demod8 ch 2 ((b AND NOT 1) OR 1)))
      ([] @ answered (write_request ch 2 [(b AND NOT 1) OR 1]) []) ()" for n
    by (intro runs_then [OF runs_usleep] runs_set_demod8 ok)
  then have "runs (bindM (get_demod8 ch 2) (\<lambda>b0. let b = b0 AND NOT 1 in
       thenM (set_demod8 ch 2 b) (thenM (usleep (unat (ms * 1000)))
       (let b = b OR 1 in set_demod8 ch 2 b)))) (reset_answers ch b) ()"
    unfolding reset_answers_def Let_def
    by (intro runs_bind [OF runs_get_demod8 [OF ok]] runs_then [OF runs_set_demod8 [OF ok]]) simp
  moreover from ch have "\<not> 2 < ch" by simp
  ultimately show ?thesis by (simp add: reset_demod_def)
qed

end
