(* ===== verification/Sez_Tuner.thy ===== *)
theory Sez_Tuner
  imports Sez_Registers
begin

text \<open>
  The class \<^verbatim>\<open>tuner\<close> of \<^verbatim>\<open>tuner.cpp\<close>, except \<^verbatim>\<open>scan\<close>: antenna selection, the amplifier and
  filter lines on the CPU's GPIO, tuning of the two channels, modulation setup, signal quality
  and streaming. Its state is the record \<open>tuner\<close>; its operations are commands on it.
\<close>

subsection \<open>Data\<close>

datatype tuner_antennas = nc | ant1 | ant2 | coax

fun ant_code :: "tuner_antennas \<Rightarrow> nat" where
  "ant_code nc = 0" | "ant_code ant1 = 1" | "ant_code ant2 = 2" | "ant_code coax = 3"

lemma ant_code_inj [simp]: "ant_code a = ant_code b \<longleftrightarrow> a = b"
  by (cases a; cases b) simp_all

text \<open>The enumeration is ordered by its values.\<close>

instantiation tuner_antennas :: linorder
begin

definition less_eq_tuner_antennas :: "tuner_antennas \<Rightarrow> tuner_antennas \<Rightarrow> bool" where
  "less_eq_tuner_antennas a b \<longleftrightarrow> ant_code a \<le> ant_code b"

definition less_tuner_antennas :: "tuner_antennas \<Rightarrow> tuner_antennas \<Rightarrow> bool" where
  "less_tuner_antennas a b \<longleftrightarrow> ant_code a < ant_code b"

instance
  by standard (auto simp: less_eq_tuner_antennas_def less_tuner_antennas_def)

end

lemmas ant_order = less_eq_tuner_antennas_def less_tuner_antennas_def

datatype tuner_amp_input = off | vhf1 | vhf2 | uhf1 | uhf2 | external | TUNER_AMP_INPUT_MAX

datatype tuner_operating_mode = QAM64 | QAM256 | VSB

fun mode_code :: "tuner_operating_mode \<Rightarrow> u8" where
  "mode_code QAM64 = 0" | "mode_code QAM256 = 1" | "mode_code VSB = 3"

fun amp_code :: "tuner_amp_input \<Rightarrow> u32" where
  "amp_code off = 0" | "amp_code vhf1 = 1" | "amp_code vhf2 = 2" | "amp_code uhf1 = 3"
| "amp_code uhf2 = 4" | "amp_code external = 5" | "amp_code TUNER_AMP_INPUT_MAX = 6"

text \<open>\<^verbatim>\<open>(tuner_amp_input) ((u32) tai + 1)\<close>; no enumerator follows the last one.\<close>

fun amp_next :: "tuner_amp_input \<Rightarrow> tuner_amp_input" where
  "amp_next off = vhf1" | "amp_next vhf1 = vhf2" | "amp_next vhf2 = uhf1"
| "amp_next uhf1 = uhf2" | "amp_next uhf2 = external"
| "amp_next external = TUNER_AMP_INPUT_MAX"
| "amp_next TUNER_AMP_INPUT_MAX = TUNER_AMP_INPUT_MAX"

abbreviation (input) NUM_CHANNELS :: u8 where "NUM_CHANNELS \<equiv> 2"
abbreviation (input) TVCH_MIN :: u32 where "TVCH_MIN \<equiv> 2"
abbreviation (input) TVCH_MAX :: u32 where "TVCH_MAX \<equiv> 51"

record ch_state_st =
  ch_i :: tuner_amp_input
  ch_tvch :: u32

record tuner =
  cur_gpio :: u32
  active_ant :: tuner_antennas
  ch_state :: "u8 \<Rightarrow> ch_state_st"
  myip :: u32
  net :: world

type_synonym 'a tuner_cmd = "(tuner, 'a) cmd"

text \<open>The constructor.\<close>

definition new_tuner :: "u32 \<Rightarrow> world \<Rightarrow> tuner" where
  "new_tuner myip0 w =
    \<lparr>cur_gpio = 0, active_ant = nc, ch_state = (\<lambda>_. \<lparr>ch_i = off, ch_tvch = -1\<rparr>),
     myip = myip0, net = w\<rparr>"

text \<open>A command of the socket, run by the tuner.\<close>

definition sock :: "'a io \<Rightarrow> 'a tuner_cmd" where
  "sock m t = (case m (net t) of None \<Rightarrow> None | Some (r, w) \<Rightarrow> Some (r, t\<lparr>net := w\<rparr>))"

text \<open>Read and update the tuner's own fields.\<close>

definition gets :: "(tuner \<Rightarrow> 'a) \<Rightarrow> 'a tuner_cmd" where
  "gets f t = Some (Inr (f t), t)"

definition modify :: "(tuner \<Rightarrow> tuner) \<Rightarrow> unit tuner_cmd" where
  "modify f t = Some (Inr (), f t)"

text \<open>The center frequencies in MHz, of channel 2 and up.\<close>

definition ch_freq :: "u32 list" where
  "ch_freq = [57, 63, 69, 79, 85, 177, 183, 189, 195, 201, 207, 213,
     473, 479, 485, 491, 497, 503, 509, 515, 521, 527, 533, 539, 545, 551, 557, 563, 569, 575,
     581, 587, 593, 599, 605, 611, 617, 623, 629, 635, 641, 647, 653, 659, 665, 671, 677, 683,
     689, 695]"

text \<open>
  Reading \<^verbatim>\<open>ch_freq[i]\<close>. Past the end of the array the program reads whatever the linker put
  there; \<open>beyond\<close> stands for it.
\<close>

definition ch_freq_at :: "(nat \<Rightarrow> u32) \<Rightarrow> nat \<Rightarrow> u32" where
  "ch_freq_at beyond i = (if i < length ch_freq then ch_freq ! i else beyond i)"

subsection \<open>Amplifiers and filters\<close>

fun filter_ch0 :: "tuner_amp_input \<Rightarrow> u32 option" where
  "filter_ch0 off = Some 4" | "filter_ch0 vhf1 = Some 3" | "filter_ch0 vhf2 = Some 1"
| "filter_ch0 uhf1 = Some 5" | "filter_ch0 uhf2 = Some 2" | "filter_ch0 external = Some 0"
| "filter_ch0 TUNER_AMP_INPUT_MAX = None"

fun filter_ch1 :: "tuner_amp_input \<Rightarrow> u32 option" where
  "filter_ch1 off = Some 0" | "filter_ch1 vhf1 = Some 3" | "filter_ch1 vhf2 = Some 1"
| "filter_ch1 uhf1 = Some 4" | "filter_ch1 uhf2 = Some 2" | "filter_ch1 external = Some 5"
| "filter_ch1 TUNER_AMP_INPUT_MAX = None"

text \<open>The table \<^verbatim>\<open>amp_gpio\<close>, which the code declares but never reads.\<close>

fun amp_gpio :: "tuner_amp_input \<Rightarrow> u32" where
  "amp_gpio off = 0" | "amp_gpio vhf1 = 1" | "amp_gpio vhf2 = 4" | "amp_gpio uhf1 = 2"
| "amp_gpio uhf2 = 8" | "amp_gpio external = 0" | "amp_gpio TUNER_AMP_INPUT_MAX = 0"

text \<open>The value \<^verbatim>\<open>set_amp\<close> computes for the GPIO from the old one and the two inputs.\<close>

definition amp_lines :: "u32 \<Rightarrow> tuner_amp_input \<Rightarrow> tuner_amp_input \<Rightarrow> u32 option" where
  "amp_lines old u0 u1 = do {
     let g = old AND 0x80f0;
     let g = (g OR amp_code u0) OR amp_code u1;
     f0 \<leftarrow> filter_ch0 u0;
     let g = g OR push_bit 8 f0;
     f1 \<leftarrow> filter_ch1 u1;
     Some (g OR push_bit 11 f1)
   }"

definition set_amp :: "u8 \<Rightarrow> tuner_amp_input \<Rightarrow> unit tuner_cmd" where
  "set_amp ch state =
    (if ch \<ge> NUM_CHANNELS then fail Invalid_Arg
     else bindM (gets ch_state) (\<lambda>cs.
       if state = ch_i (cs ch) then ret ()
       else
         (let update = (\<lambda>i. ch_i (cs i))(ch := state) in
          bindM (gets cur_gpio) (\<lambda>old.
          case amp_lines old (update 0) (update 1) of
            None \<Rightarrow> (\<lambda>_. None)
          | Some g \<Rightarrow>
              thenM (modify (\<lambda>t. t\<lparr>cur_gpio := g\<rparr>))
              (thenM (sock (set_gpio g))
              (modify (\<lambda>t. t\<lparr>ch_state := (ch_state t)(ch := (ch_state t ch)\<lparr>ch_i := state\<rparr>)\<rparr>)))))))"

subsection \<open>Tuning\<close>

text \<open>The band of a frequency: the bandswitch bits and the amplifier input before the antenna
  is taken into account.\<close>

definition band_of :: "u32 \<Rightarrow> (u8 \<times> tuner_amp_input) option" where
  "band_of freq =
    (if freq < 158 then Some (1, vhf1)
     else if freq < 452 then Some (2, vhf1)
     else if freq < 862 then Some (4, uhf1)
     else None)"

definition pll_of :: "u32 \<Rightarrow> u32" where
  "pll_of freq = push_bit 4 freq + 704"

text \<open>The request that programs the TUA6034.\<close>

definition pll_request :: "u8 \<Rightarrow> u32 \<Rightarrow> u8 \<Rightarrow> u8 list" where
  "pll_request ch freq bandswitch =
    [ch, 0xc2, ucast (drop_bit 8 (pll_of freq) AND 0x7f), ucast (pll_of freq), 0x86, bandswitch, 0x50]"

definition set_freq :: "(nat \<Rightarrow> u32) \<Rightarrow> u8 \<Rightarrow> u32 \<Rightarrow> u32 \<Rightarrow> unit tuner_cmd" where
  "set_freq beyond ch tvch reset_ms =
    (if ch \<ge> NUM_CHANNELS \<or> ((tvch < TVCH_MIN \<or> tvch > TVCH_MAX) \<and> tvch \<noteq> -1)
     then fail Invalid_Arg
     else bindM (gets active_ant) (\<lambda>ant.
       if ant = nc then fail No_Antenna
       else if tvch = -1 then set_amp ch off
       else if ch_freq_at beyond (unat (tvch - TVCH_MIN)) = 0 then fail Logic_Error
       else
         (let freq = ch_freq_at beyond (unat tvch) in
          case band_of freq of
            None \<Rightarrow> fail Freq_Range
          | Some (bandswitch, tai0) \<Rightarrow>
            (let tai = (if ant = ant2 then amp_next tai0 else if ant = coax then external else tai0) in
             thenM (set_amp ch tai)
             (bindM (sock (write_then_read (unframed (pll_request ch freq bandswitch)) 8)) (\<lambda>rx.
              if length rx \<noteq> 4
              then tryM (set_amp ch off) (\<lambda>_. fail Write_Fault)
              else
                thenM (sock free_block)
                (thenM (if reset_ms \<noteq> 0 then sock (reset_demod ch reset_ms) else ret ())
                (modify (\<lambda>t. t\<lparr>ch_state := (ch_state t)(ch := (ch_state t ch)\<lparr>ch_tvch := tvch\<rparr>)\<rparr>)))))))))"

text \<open>One turn of the loop of \<^verbatim>\<open>set_antenna\<close>, for the channel \<open>ch\<close>.\<close>

definition apply_antenna :: "(nat \<Rightarrow> u32) \<Rightarrow> tuner_antennas \<Rightarrow> u8 \<Rightarrow> unit tuner_cmd" where
  "apply_antenna beyond ant ch =
    bindM (gets ch_state) (\<lambda>cs.
      let tai0 = ch_i (cs ch) in
      if tai0 = off then ret ()
      else
        (let tai = (if tai0 = vhf2 then vhf1 else if tai0 = uhf2 then uhf1 else tai0) in
         if ant = nc then set_amp ch off
         else if ant = coax then set_amp ch external
         else if tai = external then set_freq beyond ch (ch_tvch (cs ch)) 20
         else
           (let tai = (if ant = ant2 then amp_next tai else tai) in
            if ch_tvch (cs ch) < TVCH_MIN \<or> ch_tvch (cs ch) > TVCH_MAX then ret ()
            else set_amp ch tai)))"

definition set_antenna :: "(nat \<Rightarrow> u32) \<Rightarrow> tuner_antennas \<Rightarrow> unit tuner_cmd" where
  "set_antenna beyond ant =
    thenM (modify (\<lambda>t. t\<lparr>active_ant := ant\<rparr>))
    (thenM (apply_antenna beyond ant 0) (apply_antenna beyond ant 1))"

text \<open>\<^verbatim>\<open>get_freq\<close> answers a channel number, all ones when the amplifier is off.\<close>

definition get_freq :: "tuner \<Rightarrow> u8 \<Rightarrow> u32" where
  "get_freq t ch =
    (if ch \<ge> NUM_CHANNELS then 0
     else if ch_i (ch_state t ch) = off then -1
     else ch_tvch (ch_state t ch))"

subsection \<open>Setting up\<close>

text \<open>
  \<^verbatim>\<open>get_str(idx, buf, len)\<close>: the bytes stored into \<^verbatim>\<open>buf\<close>. The response decides how many, so
  the buffer of \<open>len\<close> bytes may be overrun; the terminator is stored only when it fits.
\<close>

definition get_str :: "u32 \<Rightarrow> u8 \<Rightarrow> u8 list tuner_cmd" where
  "get_str idx len =
    (if idx > 2 then fail Invalid_Arg
     else bindM (sock (write_then_read (unframed [0x0f, 0xf3, len, 1, ucast (idx + 1)]) (unat len)))
       (\<lambda>rx.
         let n = length rx - 4; bytes = take n (drop 4 rx) in
         thenM (sock (note_store (unat len) n))
         (thenM (sock free_block)
         (ret (if n < unat len then bytes @ [0] else bytes)))))"

text \<open>
  \<^verbatim>\<open>sscanf(s, "%lu", &v)\<close>: white space, a sign, digits; \<^verbatim>\<open>strtoul\<close> saturates at the largest
  64-bit value and negates modulo \<open>2\<^sup>6\<^sup>4\<close>. The string ends at its first zero byte; without one
  the scan leaves the buffer.
\<close>

definition is_space :: "u8 \<Rightarrow> bool" where
  "is_space c \<longleftrightarrow> c = 32 \<or> 9 \<le> c \<and> c \<le> 13"

definition is_digit :: "u8 \<Rightarrow> bool" where
  "is_digit c \<longleftrightarrow> 48 \<le> c \<and> c \<le> 57"

definition digits_value :: "u8 list \<Rightarrow> nat" where
  "digits_value ds = foldl (\<lambda>v d. 10 * v + (unat d - 48)) 0 ds"

definition scan_lu :: "u8 list \<Rightarrow> nat option" where
  "scan_lu str =
    (let s = dropWhile is_space str;
         neg = (s \<noteq> [] \<and> hd s = 45);
         s = (if s \<noteq> [] \<and> (hd s = 45 \<or> hd s = 43) then tl s else s);
         ds = takeWhile is_digit s;
         v = digits_value ds
     in if ds = [] then None
        else if v \<ge> 2 ^ 64 then Some (2 ^ 64 - 1)
        else Some (if neg then (2 ^ 64 - v) mod 2 ^ 64 else v))"

definition c_string :: "u8 list \<Rightarrow> u8 list option" where
  "c_string buf = (if 0 \<in> set buf then Some (takeWhile (\<lambda>c. c \<noteq> 0) buf) else None)"

text \<open>The table \<^verbatim>\<open>vsb1\<close> of register settings for VSB reception.\<close>

definition vsb1 :: "(u32 \<times> u8) list" where
  "vsb1 = [(0x0d, 0x63), (0x0e, 0x02), (0x12, 0x32), (0x13, 0xc4), (0x106, 0), (0x107, 0),
     (0x108, 0), (0x109, 0), (0x112, 0x17), (0x113, 0x15), (0x114, 0x18), (0x115, 0xff),
     (0x116, 0x3c), (0x214, 0x27), (0x424, 0x8d), (0x427, 0x12), (0x428, 0x4f), (0x302, 0x04),
     (0x303, 0xc0), (0x306, 0x80), (0x307, 0x00), (0x308, 0x80), (0x309, 0x00), (0x30c, 0x31),
     (0x30d, 0x00), (0x30e, 0x1c), (0x314, 0xe1)]"

fun write_table :: "u8 \<Rightarrow> (u32 \<times> u8) list \<Rightarrow> unit io" where
  "write_table ch [] = ret ()"
| "write_table ch ((addr, val) # rest) = thenM (set_demod8 ch addr val) (write_table ch rest)"

definition set_modulation :: "u8 \<Rightarrow> tuner_operating_mode \<Rightarrow> unit tuner_cmd" where
  "set_modulation ch mode =
    (if ch \<ge> NUM_CHANNELS then fail Invalid_Arg
     else sock (
       bindM (get_demod8 ch 1) (\<lambda>b.
       if b = 0 then fail (Hw_Error b)
       else
         thenM (set_demod8 ch 0x808 0x80)
         (bindM (get_demod8 ch 0x808) (\<lambda>b.
         if b \<noteq> 0x80 then fail (Hw_Error b)
         else
           thenM (set_demod8 ch 0x808 0)
           (bindM (get_demod8 ch 0) (\<lambda>b.
           thenM (set_demod8 ch 0 ((b AND NOT 3) OR mode_code mode))
           (case mode of
              VSB \<Rightarrow>
                thenM (write_table ch vsb1)
                (thenM (reset_demod ch 20)
                (bindM (get_demod8 ch 0x50e) (\<lambda>b.
                 thenM (set_demod8 ch 0x50e (b OR 0x20))
                 (reset_demod ch 20))))
            | _ \<Rightarrow> ret ()))))))))"

text \<open>The loop body of \<^verbatim>\<open>init\<close>: the fake input makes \<^verbatim>\<open>set_amp\<close> see a change.\<close>

definition init_channel :: "u8 \<Rightarrow> unit tuner_cmd" where
  "init_channel ch =
    thenM (modify (\<lambda>t. t\<lparr>ch_state := (ch_state t)(ch := (ch_state t ch)\<lparr>ch_i := vhf1\<rparr>)\<rparr>))
    (thenM (set_amp ch off) (set_modulation ch VSB))"

definition tuner_init :: "unit tuner_cmd" where
  "tuner_init =
    bindM (get_str 0 12) (\<lambda>ver.
    case c_string ver of
      None \<Rightarrow> (\<lambda>_. None)
    | Some str \<Rightarrow>
        (case scan_lu str of
           None \<Rightarrow> fail Bad_Version
         | Some v \<Rightarrow>
             if v \<le> 20081010 then fail (Unsafe_Version v)
             else thenM (init_channel 0) (init_channel 1)))"

definition refresh_gpio :: "unit tuner_cmd" where
  "refresh_gpio = bindM (sock get_gpio) (\<lambda>v. modify (\<lambda>t. t\<lparr>cur_gpio := v\<rparr>))"

subsection \<open>Signal quality and streaming\<close>

definition mse_status :: "u8 \<Rightarrow> u8" where
  "mse_status lock =
    1 OR (drop_bit 2 (lock AND 8) XOR 2) OR (lock AND 4) OR push_bit 3 (lock AND 1) OR
    push_bit 3 (lock AND 2)"

definition u24 :: "u8 \<Rightarrow> u8 \<Rightarrow> u8 \<Rightarrow> u32" where
  "u24 a b c = push_bit 16 (ucast a) OR push_bit 8 (ucast b) OR ucast c"

text \<open>The result is \<^verbatim>\<open>(*status, *ptmse, *eqmse)\<close>.\<close>

definition get_mse :: "u8 \<Rightarrow> (u8 \<times> u32 \<times> u32) tuner_cmd" where
  "get_mse ch = sock (
    bindM (get_demod8 ch 0x11d) (\<lambda>lock.
    if lock AND 0x80 = 0 then ret (0, 0xfffff, 0xfffff)
    else
      bindM (get_demod8 ch 3) (\<lambda>lock.
      bindM (get_demodN ch 0x413 8) (\<lambda>m.
      ret (mse_status lock, u24 (m ! 4) (m ! 5) (m ! 6), u24 (m ! 0) (m ! 1) (m ! 2))))))"

text \<open>A request on the CPU bus whose response carries no payload. Unlike the register
  commands these free the response before they look at its length.\<close>

definition bus_request :: "u8 list \<Rightarrow> unit io" where
  "bus_request body =
    bindM (write_then_read (unframed body) 8) (\<lambda>rx.
    thenM free_block (if length rx \<noteq> 4 then fail (Fault (length rx)) else ret ()))"

text \<open>\<^verbatim>\<open>ntohl\<close> on a little endian machine.\<close>

definition ntohl :: "u32 \<Rightarrow> u32" where
  "ntohl v = push_bit 24 v OR push_bit 8 (v AND 0xff00) OR (drop_bit 8 v AND 0xff00) OR drop_bit 24 v"

definition start_ts :: "u8 \<Rightarrow> u32 \<Rightarrow> unit tuner_cmd" where
  "start_ts ch udp_port =
    bindM (gets myip) (\<lambda>my.
    let ip = ntohl my in
    sock (thenM (if ch \<noteq> 0 then bus_request [0x0f, 0xf2, 6, ch, ch] else ret ())
      (bus_request [0x0f, 0xf2, 3, ch, ucast (drop_bit 24 ip), ucast (drop_bit 16 ip),
         ucast (drop_bit 8 ip), ucast ip, ucast (drop_bit 8 udp_port), ucast udp_port])))"

definition stop_ts :: "u8 \<Rightarrow> unit tuner_cmd" where
  "stop_ts ch = sock (bus_request [0x0f, 0xf2, 3, ch, 0, 0, 0, 0, 0, 0])"

subsection \<open>Commands of the tuner\<close>

lemma sock_Some_iff [simp]:
  "sock m t = Some (r, t') \<longleftrightarrow> (\<exists>w. m (net t) = Some (r, w) \<and> t' = t\<lparr>net := w\<rparr>)"
  by (auto simp: sock_def split: option.splits)

lemma gets_eval [simp]: "gets f t = Some (Inr (f t), t)"
  by (simp add: gets_def)

lemma modify_eval [simp]: "modify f t = Some (Inr (), f t)"
  by (simp add: modify_def)

lemma bind_gets [simp]: "bindM (gets f) k t = k (f t) t"
  by (simp add: io_simps)

lemma then_modify [simp]: "thenM (modify f) k t = k (f t)"
  by (simp add: io_simps thenM_def)

text \<open>The inputs \<^verbatim>\<open>set_amp\<close> computes the lines from.\<close>

definition inputs_after :: "tuner \<Rightarrow> u8 \<Rightarrow> tuner_amp_input \<Rightarrow> u8 \<Rightarrow> tuner_amp_input" where
  "inputs_after t ch state = (\<lambda>i. ch_i (ch_state t i))(ch := state)"

definition input_set :: "u8 \<Rightarrow> tuner_amp_input \<Rightarrow> tuner \<Rightarrow> tuner" where
  "input_set ch state t = t\<lparr>ch_state := (ch_state t)(ch := (ch_state t ch)\<lparr>ch_i := state\<rparr>)\<rparr>"

lemma set_amp_ok:
  assumes "set_amp ch state t = Some (Inr u, t')"
  shows "ch < 2" and
    "state = ch_i (ch_state t ch) \<and> t' = t \<or>
     state \<noteq> ch_i (ch_state t ch) \<and>
     (\<exists>g w'. amp_lines (cur_gpio t) (inputs_after t ch state 0) (inputs_after t ch state 1) = Some g \<and>
       set_gpio g (net t) = Some (Inr (), w') \<and>
       t' = input_set ch state (t\<lparr>cur_gpio := g, net := w'\<rparr>))"
  using assms
  by (auto simp: set_amp_def inputs_after_def input_set_def Let_def thenM_Inr_iff
      split: if_splits option.splits)

lemma set_amp_err:
  assumes "set_amp ch state t = Some (Inl e, t')"
  shows "ch_state t' = ch_state t" and "active_ant t' = active_ant t"
  using assms
  by (auto simp: set_amp_def Let_def thenM_Some_iff split: if_splits option.splits)

text \<open>What a failed \<^verbatim>\<open>set_amp\<close> leaves: the new lines in the register's copy, nothing else.\<close>

lemma set_amp_fails:
  assumes "set_amp ch s t = Some (Inl e, t')"
  shows "ch \<ge> 2 \<and> t' = t \<or>
    ch < 2 \<and> s \<noteq> ch_i (ch_state t ch) \<and>
    (\<exists>g w'. amp_lines (cur_gpio t) (inputs_after t ch s 0) (inputs_after t ch s 1) = Some g \<and>
      set_gpio g (net t) = Some (Inl e, w') \<and> t' = t\<lparr>cur_gpio := g, net := w'\<rparr>)"
  using assms
  by (auto simp: set_amp_def inputs_after_def Let_def thenM_Some_iff not_le split: if_splits option.splits)

subsection \<open>The lines of the amplifiers and filters\<close>

lemma amp_lines_split:
  "amp_lines old u0 u1 = map_option (\<lambda>b. (old AND 0x80f0) OR b) (amp_lines 0 u0 u1)"
  by (cases "filter_ch0 u0"; cases "filter_ch1 u1") (simp_all add: amp_lines_def or.assoc)

lemma amp_lines_zero:
  "amp_lines 0 u0 u1 = Some b \<Longrightarrow> b AND 0x3f07 = b"
  by (cases u0; cases u1; simp add: amp_lines_def)

lemma amp_lines_decode:
  "amp_lines 0 u0 u1 = Some b \<Longrightarrow>
   filter_ch0 u0 = Some (drop_bit 8 b AND 7) \<and> filter_ch1 u1 = Some (drop_bit 11 b AND 7)"
  by (cases u0; cases u1; simp add: amp_lines_def)

lemma filter_inj:
  "filter_ch0 u = Some f \<Longrightarrow> filter_ch0 v = Some f \<Longrightarrow> u = v"
  "filter_ch1 u = Some f \<Longrightarrow> filter_ch1 v = Some f \<Longrightarrow> u = v"
  by (cases u; cases v; simp)+

lemma amp_lines_zero_inj:
  "amp_lines 0 u0 u1 = Some b \<Longrightarrow> amp_lines 0 v0 v1 = Some b \<Longrightarrow> u0 = v0 \<and> u1 = v1"
  using amp_lines_decode [of u0 u1 b] amp_lines_decode [of v0 v1 b] filter_inj by metis

lemma amp_lines_defined:
  "u0 \<noteq> TUNER_AMP_INPUT_MAX \<Longrightarrow> u1 \<noteq> TUNER_AMP_INPUT_MAX \<Longrightarrow> \<exists>b. amp_lines 0 u0 u1 = Some b"
  by (cases u0; cases u1; simp add: amp_lines_def)

lemma amp_lines_Some:
  assumes "amp_lines old u0 u1 = Some g"
  obtains b where "amp_lines 0 u0 u1 = Some b" and "g = (old AND 0x80f0) OR b"
    and "g AND 0x3f07 = b" and "g AND 0x80f0 = old AND 0x80f0" and "g AND NOT 0xffff = 0"
proof -
  from assms obtain b where b: "amp_lines 0 u0 u1 = Some b" and g: "g = (old AND 0x80f0) OR b"
    by (auto simp: amp_lines_split [of old])
  from amp_lines_zero [OF b] have m: "b = b AND 0x3f07" by simp
  have k: "g AND k = (old AND (0x80f0 AND k)) OR (b AND (0x3f07 AND k))" for k
    by (subst g, subst m, simp only: bit.conj_disj_distrib2 and.assoc)
  have "g AND 0x3f07 = b" "g AND 0x80f0 = old AND 0x80f0" "g AND NOT 0xffff = 0"
    using amp_lines_zero [OF b] by (simp_all add: k)
  with b g show ?thesis by (rule that)
qed

subsection \<open>What the operations do to the tuner's fields\<close>

definition tvch_set :: "u8 \<Rightarrow> u32 \<Rightarrow> tuner \<Rightarrow> tuner" where
  "tvch_set ch v t = t\<lparr>ch_state := (ch_state t)(ch := (ch_state t ch)\<lparr>ch_tvch := v\<rparr>)\<rparr>"

lemma input_set_simps [simp]:
  "cur_gpio (input_set ch s t) = cur_gpio t" "active_ant (input_set ch s t) = active_ant t"
  "myip (input_set ch s t) = myip t" "net (input_set ch s t) = net t"
  "ch_tvch (ch_state (input_set ch s t) c) = ch_tvch (ch_state t c)"
  "ch_i (ch_state (input_set ch s t) c) = (if c = ch then s else ch_i (ch_state t c))"
  by (simp_all add: input_set_def)

lemma tvch_set_simps [simp]:
  "cur_gpio (tvch_set ch v t) = cur_gpio t" "active_ant (tvch_set ch v t) = active_ant t"
  "myip (tvch_set ch v t) = myip t" "net (tvch_set ch v t) = net t"
  "ch_i (ch_state (tvch_set ch v t) c) = ch_i (ch_state t c)"
  "ch_tvch (ch_state (tvch_set ch v t) c) = (if c = ch then v else ch_tvch (ch_state t c))"
  by (simp_all add: tvch_set_def)

lemma inputs_after_eq: "inputs_after t ch s i = ch_i (ch_state (input_set ch s t) i)"
  by (simp add: inputs_after_def)

lemma channel_cases: "(c :: u8) < 2 \<longleftrightarrow> c = 0 \<or> c = 1"
proof -
  have "c < 2 \<longleftrightarrow> unat c < 2" by (simp add: word_less_nat_alt)
  also have "\<dots> \<longleftrightarrow> unat c = 0 \<or> unat c = 1" by auto
  also have "\<dots> \<longleftrightarrow> c = 0 \<or> c = 1" by (simp add: word_unat_eq_iff)
  finally show ?thesis .
qed

lemma set_amp_fields:
  assumes "set_amp ch s t = Some (Inr u, t')"
  shows "ch < 2" "active_ant t' = active_ant t"
    "ch_tvch (ch_state t' c) = ch_tvch (ch_state t c)"
    "ch_i (ch_state t' c) = (if c = ch then s else ch_i (ch_state t c))"
    "blocks (net t') = blocks (net t)"
  using set_amp_ok [OF assms] by (auto dest: set_gpio_ok)

definition antenna_input :: "tuner_antennas \<Rightarrow> tuner_amp_input \<Rightarrow> tuner_amp_input" where
  "antenna_input ant tai = (if ant = ant2 then amp_next tai else if ant = coax then external else tai)"

lemma set_freq_ok:
  assumes "set_freq beyond ch tvch ms t = Some (Inr u, t')"
  shows "ch < 2 \<and> active_ant t \<noteq> nc \<and>
    (tvch = -1 \<and> set_amp ch off t = Some (Inr (), t') \<or>
     2 \<le> tvch \<and> tvch \<le> 51 \<and>
     (\<exists>bs tai t1 rx w1 w2. band_of (ch_freq_at beyond (unat tvch)) = Some (bs, tai) \<and>
       set_amp ch (antenna_input (active_ant t) tai) t = Some (Inr (), t1) \<and>
       write_then_read (unframed (pll_request ch (ch_freq_at beyond (unat tvch)) bs)) 8 (net t1) =
         Some (Inr rx, w1) \<and> length rx = 4 \<and>
       (if ms \<noteq> 0 then reset_demod ch ms else ret ()) (w1\<lparr>blocks := blocks w1 - 1\<rparr>) =
         Some (Inr (), w2) \<and>
       t' = tvch_set ch tvch (t1\<lparr>net := w2\<rparr>)))"
proof -
  from assms have *: "\<not> (ch \<ge> 2 \<or> ((tvch < 2 \<or> tvch > 51) \<and> tvch \<noteq> -1))" "active_ant t \<noteq> nc"
    by (auto simp: set_freq_def split: if_splits)
  show ?thesis
  proof (cases "tvch = -1")
    case True
    from * have "\<not> 2 \<le> ch" "ch < 2" by auto
    with assms *(2) True show ?thesis by (simp add: set_freq_def)
  next
    case False
    with * have r: "ch < 2" "2 \<le> tvch" "tvch \<le> 51" by (auto simp: not_le not_less)
    from assms * False obtain bs tai where b: "band_of (ch_freq_at beyond (unat tvch)) = Some (bs, tai)"
      by (auto simp: set_freq_def Let_def split: if_splits option.splits)
    from assms * False b show ?thesis
      apply (simp add: set_freq_def Let_def split: if_splits)
        apply (auto simp: r thenM_Inr_iff bindM_Inr_iff tryM_Some_iff antenna_input_def free_block_def tvch_set_def
          split: if_splits)
      done
  qed
qed

subsection \<open>Invariants of the tuner as an interface\<close>

text \<open>
  A property of the tuner's own fields that \<^verbatim>\<open>set_amp\<close> keeps when it succeeds is kept by
  every operation that succeeds, as long as it does not depend on the network, the antenna
  in use or the channel numbers.
\<close>

locale amp_property =
  fixes P :: "tuner \<Rightarrow> bool"
  assumes net_free: "P (t\<lparr>net := w\<rparr>) = P t"
    and ant_free: "P (t\<lparr>active_ant := a\<rparr>) = P t"
    and tvch_free: "P (tvch_set ch v t) = P t"
    and amp: "set_amp ch s t = Some (Inr u, t') \<Longrightarrow> P t \<Longrightarrow> P t'"

sublocale amp_property \<subseteq> state_order "\<lambda>t t'. P t \<longrightarrow> P t'"
  by unfold_locales simp_all

context amp_property begin

lemma amp_ok: "keeps_ok (\<lambda>t t'. P t \<longrightarrow> P t') (set_amp ch s)"
  unfolding keeps_ok_def by (blast intro: amp)

lemma sock_ok: "keeps_ok (\<lambda>t t'. P t \<longrightarrow> P t') (sock m)"
  by (auto simp: keeps_ok_def net_free)

lemma gets_ok: "keeps_ok (\<lambda>t t'. P t \<longrightarrow> P t') (gets f)"
  by (simp add: keeps_ok_def)

lemma set_freq_keeps: "keeps_ok (\<lambda>t t'. P t \<longrightarrow> P t') (set_freq beyond ch tvch ms)"
  unfolding keeps_ok_def by (auto simp: tvch_free net_free dest!: set_freq_ok dest: amp)

lemma apply_antenna_keeps: "keeps_ok (\<lambda>t t'. P t \<longrightarrow> P t') (apply_antenna beyond ant ch)"
  unfolding apply_antenna_def Let_def
  by (intro ok_bind ok_if ok_ret amp_ok set_freq_keeps gets_ok)

lemma set_antenna_keeps: "keeps_ok (\<lambda>t t'. P t \<longrightarrow> P t') (set_antenna beyond ant)"
proof -
  have "keeps_ok (\<lambda>t t'. P t \<longrightarrow> P t') (modify (\<lambda>t. t\<lparr>active_ant := ant\<rparr>))"
    by (auto simp: keeps_ok_def ant_free)
  then show ?thesis unfolding set_antenna_def by (intro ok_then apply_antenna_keeps)
qed

lemma set_modulation_keeps: "keeps_ok (\<lambda>t t'. P t \<longrightarrow> P t') (set_modulation ch mode)"
  unfolding set_modulation_def by (intro ok_if ok_fail sock_ok)

end

text \<open>The register agrees with the two inputs: recomputing it changes nothing.\<close>

definition coherent :: "tuner \<Rightarrow> bool" where
  "coherent t \<longleftrightarrow>
    amp_lines (cur_gpio t) (ch_i (ch_state t 0)) (ch_i (ch_state t 1)) = Some (cur_gpio t)"

lemma amp_lines_fixed: "amp_lines old u0 u1 = Some g \<Longrightarrow> amp_lines g u0 u1 = Some g"
proof -
  assume "amp_lines old u0 u1 = Some g"
  then obtain b where "amp_lines 0 u0 u1 = Some b" "g = (old AND 0x80f0) OR b"
    "g AND 0x80f0 = old AND 0x80f0" by (rule amp_lines_Some)
  moreover from this(1) have "amp_lines g u0 u1 = Some ((g AND 0x80f0) OR b)"
    by (subst amp_lines_split) simp
  ultimately show ?thesis by simp
qed

lemma amp_lines_others: "amp_lines old u0 u1 = Some g \<Longrightarrow> g AND 0x80f0 = old AND 0x80f0"
  by (erule amp_lines_Some)

text \<open>Lines computed from an overwritten copy are those computed from the copy before.\<close>

lemma amp_lines_again: "amp_lines old u0 u1 = Some g \<Longrightarrow> amp_lines g v0 v1 = amp_lines old v0 v1"
  using amp_lines_others [of old u0 u1 g] amp_lines_split [of g v0 v1] amp_lines_split [of old v0 v1]
  by simp

lemma set_amp_coherent:
  assumes "set_amp ch s t = Some (Inr u, t')" and "s \<noteq> ch_i (ch_state t ch)"
  shows "coherent t'"
proof -
  from set_amp_ok(2) [OF assms(1)] assms(2) obtain g w' where
    g: "amp_lines (cur_gpio t) (inputs_after t ch s 0) (inputs_after t ch s 1) = Some g" and
    t': "t' = input_set ch s (t\<lparr>cur_gpio := g, net := w'\<rparr>)" by blast
  from amp_lines_fixed [OF g] show ?thesis
    by (simp add: coherent_def t' inputs_after_eq split: if_splits)
qed

interpretation lines: amp_property coherent
proof unfold_locales
  fix ch s t u t'
  assume "set_amp ch s t = Some (Inr u, t')" and "coherent t"
  then show "coherent t'" using set_amp_coherent set_amp_ok(2) by blast
qed (simp_all add: coherent_def)

text \<open>The lines that belong to other functions of the board keep their value.\<close>

interpretation others: amp_property "\<lambda>t. cur_gpio t AND 0x80f0 = k" for k
proof unfold_locales
  fix ch s t u t'
  assume "set_amp ch s t = Some (Inr u, t')" and "cur_gpio t AND 0x80f0 = k"
  then show "cur_gpio t' AND 0x80f0 = k"
    using set_amp_ok(2) amp_lines_others by fastforce
qed simp_all

subsection \<open>Inputs, antenna and channel fit together\<close>

fun serves :: "tuner_antennas \<Rightarrow> tuner_amp_input \<Rightarrow> bool" where
  "serves nc i = (i = off)"
| "serves ant1 i = (i \<in> {off, vhf1, uhf1})"
| "serves ant2 i = (i \<in> {off, vhf2, uhf2})"
| "serves coax i = (i \<in> {off, external})"

text \<open>Channel \<open>ch\<close> has an input of the antenna \<open>ant\<close>, or none; with one, it is tuned.\<close>

definition channel_fits :: "tuner_antennas \<Rightarrow> ch_state_st \<Rightarrow> bool" where
  "channel_fits ant c \<longleftrightarrow> serves ant (ch_i c) \<and>
     (ch_i c \<noteq> off \<longrightarrow> 2 \<le> ch_tvch c \<and> ch_tvch c \<le> 51)"

definition tuned :: "tuner \<Rightarrow> bool" where
  "tuned t \<longleftrightarrow> channel_fits (active_ant t) (ch_state t 0) \<and> channel_fits (active_ant t) (ch_state t 1)"

lemma band_of_input: "band_of f = Some (bs, tai) \<Longrightarrow> tai \<in> {vhf1, uhf1}"
  by (auto simp: band_of_def split: if_splits)

lemma serves_antenna_input:
  "ant \<noteq> nc \<Longrightarrow> tai \<in> {vhf1, uhf1} \<Longrightarrow> serves ant (antenna_input ant tai)"
  by (cases ant) (auto simp: antenna_input_def)

lemma set_freq_fields:
  assumes "set_freq beyond ch tvch ms t = Some (Inr u, t')"
  shows "ch < 2" "active_ant t' = active_ant t" "active_ant t \<noteq> nc"
    "channel_fits (active_ant t) (ch_state t' ch)"
    "c \<noteq> ch \<Longrightarrow> ch_tvch (ch_state t' c) = ch_tvch (ch_state t c)"
    "c \<noteq> ch \<Longrightarrow> ch_i (ch_state t' c) = ch_i (ch_state t c)"
proof -
  have o: "serves a off" for a by (cases a) simp_all
  from set_freq_ok [OF assms] show n: "ch < 2" "active_ant t \<noteq> nc" by blast+
  from set_freq_ok [OF assms] consider
      (switched_off) "set_amp ch off t = Some (Inr (), t')"
    | (on) f bs tai t1 w2 where "2 \<le> tvch" "tvch \<le> 51" "band_of f = Some (bs, tai)"
        "set_amp ch (antenna_input (active_ant t) tai) t = Some (Inr (), t1)"
        "t' = tvch_set ch tvch (t1\<lparr>net := w2\<rparr>)"
    by blast
  then have "active_ant t' = active_ant t \<and> channel_fits (active_ant t) (ch_state t' ch) \<and>
    (c \<noteq> ch \<longrightarrow> ch_tvch (ch_state t' c) = ch_tvch (ch_state t c) \<and>
      ch_i (ch_state t' c) = ch_i (ch_state t c))"
  proof cases
    case switched_off
    from set_amp_fields [OF this] show ?thesis by (simp add: channel_fits_def o)
  next
    case on
    from set_amp_fields [OF on(4)] on serves_antenna_input [OF n(2) band_of_input [OF on(3)]]
    show ?thesis by (simp add: channel_fits_def)
  qed
  then show "active_ant t' = active_ant t" "channel_fits (active_ant t) (ch_state t' ch)"
    "c \<noteq> ch \<Longrightarrow> ch_tvch (ch_state t' c) = ch_tvch (ch_state t c)"
    "c \<noteq> ch \<Longrightarrow> ch_i (ch_state t' c) = ch_i (ch_state t c)" by blast+
qed

lemma channel_fits_off: "ch_i c = off \<Longrightarrow> channel_fits ant c"
  by (cases ant) (simp_all add: channel_fits_def)

lemma channel_eq:
  "ch_tvch c' = ch_tvch c \<Longrightarrow> ch_i c' = ch_i c \<Longrightarrow> channel_fits ant c' = channel_fits ant c"
  by (simp add: channel_fits_def)

lemma apply_antenna_fields:
  assumes "apply_antenna beyond ant ch t = Some (Inr u, t')" and "active_ant t = ant"
    and "channel_fits a (ch_state t ch)"
  shows "active_ant t' = ant \<and> channel_fits ant (ch_state t' ch) \<and>
    (c \<noteq> ch \<longrightarrow> ch_tvch (ch_state t' c) = ch_tvch (ch_state t c) \<and>
       ch_i (ch_state t' c) = ch_i (ch_state t c))"
proof (cases "ch_i (ch_state t ch) = off")
  case True
  with assms show ?thesis by (simp add: apply_antenna_def channel_fits_off)
next
  case False
  let ?i = "ch_i (ch_state t ch)"
  have v: "2 \<le> ch_tvch (ch_state t ch)" "ch_tvch (ch_state t ch) \<le> 51"
    and s: "serves a ?i"
    using assms(3) False by (simp_all add: channel_fits_def)
  define tai where "tai = (if ?i = vhf2 then vhf1 else if ?i = uhf2 then uhf1 else ?i)"
  have tai: "tai = external \<or> tai \<in> {vhf1, uhf1}"
    using s False unfolding tai_def by (cases a) auto
  have nv: "\<not> ch_tvch (ch_state t ch) < 2" "\<not> 51 < ch_tvch (ch_state t ch)"
    using v by (simp_all add: not_less)
  have eval: "apply_antenna beyond ant ch t =
    (if ant = nc then set_amp ch off t else if ant = coax then set_amp ch external t
     else if tai = external then set_freq beyond ch (ch_tvch (ch_state t ch)) 20 t
     else set_amp ch (if ant = ant2 then amp_next tai else tai) t)"
    using False nv by (simp add: apply_antenna_def Let_def tai_def [symmetric])
  consider (amp) i where "set_amp ch i t = Some (Inr (), t')" "serves ant i"
    | (freq) "set_freq beyond ch (ch_tvch (ch_state t ch)) 20 t = Some (Inr (), t')"
    using assms(1) tai unfolding eval by (cases ant) (auto split: if_splits)
  then show ?thesis
  proof cases
    case amp
    from set_amp_fields [OF amp(1)] amp(2) v assms(2) show ?thesis
      by (simp add: channel_fits_def)
  next
    case freq
    from set_freq_fields [OF freq] assms(2) show ?thesis by simp
  qed
qed

lemma set_antenna_tuned:
  assumes "set_antenna beyond ant t = Some (Inr u, t')" and "tuned t"
  shows "tuned t' \<and> active_ant t' = ant"
proof -
  from assms(1) obtain v t1 where
    1: "apply_antenna beyond ant 0 (t\<lparr>active_ant := ant\<rparr>) = Some (Inr v, t1)" and
    2: "apply_antenna beyond ant 1 t1 = Some (Inr u, t')"
    by (auto simp: set_antenna_def thenM_Inr_iff)
  have a: "channel_fits (active_ant t) (ch_state t 0)" "channel_fits (active_ant t) (ch_state t 1)"
    using assms(2) by (simp_all add: tuned_def)
  have 3: "active_ant t1 = ant" "channel_fits ant (ch_state t1 0)"
    "channel_fits (active_ant t) (ch_state t1 1)"
    using apply_antenna_fields [OF 1, of "active_ant t" 1] a
    by (simp_all add: channel_eq [of "ch_state t1 1" "ch_state t 1"])
  have "active_ant t' = ant" "channel_fits ant (ch_state t' 1)" "channel_fits ant (ch_state t' 0)"
    using apply_antenna_fields [OF 2 3(1) 3(3), of 0] 3(2)
    by (simp_all add: channel_eq [of "ch_state t' 0" "ch_state t1 0"])
  then show ?thesis by (simp add: tuned_def)
qed

lemma set_freq_tuned:
  assumes "set_freq beyond ch tvch ms t = Some (Inr u, t')" and "tuned t"
  shows "tuned t'"
proof -
  have "channel_fits (active_ant t) (ch_state t' c)" if "c = 0 \<or> c = 1" for c
  proof (cases "c = ch")
    case False
    from set_freq_fields(5,6) [OF assms(1) False] assms(2) that show ?thesis
      by (auto simp: tuned_def channel_eq [of "ch_state t' c" "ch_state t c"])
  qed (use set_freq_fields(4) [OF assms(1)] in simp)
  then show ?thesis using set_freq_fields(2) [OF assms(1)] by (simp add: tuned_def)
qed

lemma set_modulation_net:
  "set_modulation ch mode t = Some (r, t') \<Longrightarrow> \<exists>w. t' = t\<lparr>net := w\<rparr>"
  by (auto simp: set_modulation_def split: if_splits intro: exI [of _ "net t"])

lemma init_channel_ok:
  assumes "init_channel ch t = Some (Inr u, t')"
  shows "coherent t' \<and> ch < 2 \<and> active_ant t' = active_ant t \<and>
    ch_i (ch_state t' c) = (if c = ch then off else ch_i (ch_state t c))"
proof -
  let ?t = "input_set ch vhf1 t"
  from assms obtain v t1 where 1: "set_amp ch off ?t = Some (Inr v, t1)"
    and 2: "set_modulation ch VSB t1 = Some (Inr u, t')"
    unfolding init_channel_def then_modify thenM_Inr_iff input_set_def by blast
  from set_modulation_net [OF 2] obtain w where t': "t' = t1\<lparr>net := w\<rparr>" by blast
  have "coherent t1" by (rule set_amp_coherent [OF 1]) simp
  then show ?thesis
    using set_amp_fields [OF 1] by (simp add: t' lines.net_free)
qed

lemma get_str_ok:
  assumes "get_str idx len t = Some (Inr s, t')"
  shows "idx \<le> 2 \<and> (\<exists>w k. t' = t\<lparr>net := w\<rparr> \<and> blocks w = blocks (net t) \<and>
    length s = (if k < unat len then k + 1 else k) \<and>
    trace w = trace (net t) @ Sent (frame 0x0c [0x0f, 0xf3, len, 1, ucast (idx + 1)]) #
      overrun_if (unat len + 4) (k + 8) @ (if unat len < k then [Overrun (unat len) k] else []))"
proof -
  let ?n = "\<lambda>rx. length rx - 4"
  from assms have i: "idx \<le> 2" by (auto simp: get_str_def split: if_splits)
  with assms obtain rx t1 where
    rx0: "sock (write_then_read (unframed [0x0f, 0xf3, len, 1, ucast (idx + 1)]) (unat len)) t =
      Some (Inr rx, t1)" and
    m: "thenM (sock (note_store (unat len) (?n rx))) (thenM (sock free_block)
      (ret (if ?n rx < unat len then take (?n rx) (drop 4 rx) @ [0] else take (?n rx) (drop 4 rx)))) t1
      = Some (Inr s, t')"
    unfolding get_str_def Let_def by (auto simp only: not_less [symmetric] if_False bindM_Inr_iff)
  from rx0 obtain w1 where
    rx: "write_then_read (unframed [0x0f, 0xf3, len, 1, ucast (idx + 1)]) (unat len) (net t) =
      Some (Inr rx, w1)" and t1: "t1 = t\<lparr>net := w1\<rparr>" by auto
  from m have w: "t' = t\<lparr>net := (if unat len < ?n rx then emit (Overrun (unat len) (?n rx)) w1
         else w1)\<lparr>blocks := blocks w1 - 1\<rparr>\<rparr>" and
    s: "s = (if ?n rx < unat len then take (?n rx) (drop 4 rx) @ [0]
       else take (?n rx) (drop 4 rx))"
    by (auto simp: t1 thenM_Inr_iff note_store_def free_block_def)
  from bus.response [OF rx] obtain k where k: "length rx = k + 4"
    by (metis add.commute le_Suc_ex)
  show ?thesis
    using i bus.response [OF rx]
    by (intro conjI exI [of _ "net t'"] exI [of _ k]) (simp_all add: w s k add.commute)
qed

lemma tuner_init_ok:
  assumes "tuner_init t = Some (Inr u, t')"
  shows "coherent t' \<and> active_ant t' = active_ant t \<and>
    ch_i (ch_state t' 0) = off \<and> ch_i (ch_state t' 1) = off \<and>
    (\<exists>ver t1 s v. get_str 0 12 t = Some (Inr ver, t1) \<and> c_string ver = Some s \<and>
       scan_lu s = Some v \<and> 20081010 < v)"
proof -
  from assms obtain ver t0 where g: "get_str 0 12 t = Some (Inr ver, t0)"
    and k: "(case c_string ver of None \<Rightarrow> \<lambda>_. None
      | Some str \<Rightarrow> (case scan_lu str of None \<Rightarrow> fail Bad_Version
        | Some v \<Rightarrow> if v \<le> 20081010 then fail (Unsafe_Version v)
                   else thenM (init_channel 0) (init_channel 1))) t0 = Some (Inr u, t')"
    unfolding tuner_init_def bindM_Inr_iff by blast
  from k obtain s where s: "c_string ver = Some s" by (cases "c_string ver") simp_all
  with k obtain v where v: "scan_lu s = Some v" by (cases "scan_lu s") simp_all
  with k s have "20081010 < v" and r: "thenM (init_channel 0) (init_channel 1) t0 = Some (Inr u, t')"
    by (simp_all split: if_splits)
  with g s v have 0: "get_str 0 12 t = Some (Inr ver, t0)" "c_string ver = Some s"
      "scan_lu s = Some v" "20081010 < v" by simp_all
  from r obtain x t1 where 1: "init_channel 0 t0 = Some (Inr x, t1)"
    and 2: "init_channel 1 t1 = Some (Inr u, t')" unfolding thenM_Inr_iff by blast
  from get_str_ok [OF 0(1)] have "active_ant t0 = active_ant t" by auto
  with 0 init_channel_ok [OF 1, of 0] init_channel_ok [OF 2, of 0] init_channel_ok [OF 2, of 1]
  show ?thesis by auto
qed

lemma bus_request_ok:
  assumes "bus_request body w = Some (Inr u, w')"
  shows "trace w' = trace w @ [Sent (frame 0x0c body)] \<and> blocks w' = blocks w"
proof -
  from assms obtain rx w1 where rx: "write_then_read (unframed body) 8 w = Some (Inr rx, w1)"
    and l: "length rx = 4" and w': "w' = w1\<lparr>blocks := blocks w1 - 1\<rparr>"
    by (auto simp: bus_request_def bindM_Inr_iff thenM_Inr_iff free_block_def split: if_splits)
  from bus.response [OF rx] show ?thesis by (simp add: l w' overrun_if_def)
qed

lemma bus_request_err:
  assumes "bus_request body w = Some (Inl e, w')"
  shows "blocks w' = blocks w"
  using assms
  by (auto simp: bus_request_def bindM_Some_iff thenM_Some_iff free_block_def
      dest: bus.failure bus.response split: if_splits)

lemma bus_request_eval:
  assumes "script w = answered body [] @ es"
  shows "bus_request body w =
    Some (Inr (), w\<lparr>script := es, trace := trace w @ [Sent (frame 0x0c body)]\<rparr>)"
  using write_then_read_eval [OF assms, of 8]
  by (simp add: bus_request_def io_simps thenM_def free_block_def overrun_if_def frame_head_def)

subsection \<open>Properties\<close>

lemma channel_numbers [simp]: "\<not> (2 :: u8) \<le> 1" "(1 :: u8) < 2"
  by code_simp+

text \<open>C38: The GPIO value \<^verbatim>\<open>set_amp\<close> computes leaves the lines of other functions alone, fits the
  16 bits \<^verbatim>\<open>set_gpio\<close> accepts, and determines the inputs of both channels: two values that
  agree on the amplifier and filter lines come from the same pair of inputs. The amplifier
  lines are the numbers of the inputs, not the entries of the table \<^verbatim>\<open>amp_gpio\<close>.\<close>

theorem amp_lines_determine_inputs:
  assumes "amp_lines old u0 u1 = Some g" and "amp_lines old' v0 v1 = Some g'"
  shows "g AND 0x80f0 = old AND 0x80f0 \<and> g AND NOT 0xffff = 0 \<and>
    g AND 7 = amp_code u0 OR amp_code u1 \<and>
    (g AND 0x3f07 = g' AND 0x3f07 \<longleftrightarrow> u0 = v0 \<and> u1 = v1)"
proof -
  from assms(1) obtain b where b: "amp_lines 0 u0 u1 = Some b" "g AND 0x3f07 = b"
    "g AND 0x80f0 = old AND 0x80f0" "g AND NOT 0xffff = 0" by (rule amp_lines_Some)
  from assms(2) obtain b' where b': "amp_lines 0 v0 v1 = Some b'" "g' AND 0x3f07 = b'"
    by (rule amp_lines_Some)
  have "g AND 7 = (g AND 0x3f07) AND 7" by (simp add: and.assoc)
  also have "\<dots> = amp_code u0 OR amp_code u1"
    using b(1) unfolding b(2) by (cases u0; cases u1; simp add: amp_lines_def)
  finally show ?thesis using b b' amp_lines_zero_inj [OF b(1), of v0 v1] by auto
qed

theorem amp_lines_determine_inputs_witness:
  "amp_lines 0x80f0 vhf1 off = Some 0x83f1 \<and> amp_lines 0 uhf1 off = Some 0x503 \<and>
   (0x83f1 :: u32) AND 0x3f07 \<noteq> 0x503 AND 0x3f07"
proof -
  have v: "amp_lines 0x80f0 vhf1 off = Some 0x83f1" "amp_lines 0 uhf1 off = Some 0x503"
    by (simp_all add: amp_lines_def)
  from amp_lines_determine_inputs [OF v] v show ?thesis by simp
qed

text \<open>C14: What each return of \<^verbatim>\<open>set_amp\<close> has done. It succeeds by finding the input already
  selected, with nothing sent or changed, or by sending exactly one GPIO frame with the lines for
  the two inputs, and only then records the input. It fails with nothing done on a channel out of
  range; otherwise the GPIO command failed: both recorded inputs and the antenna are as before,
  but the object's copy of the GPIO already holds the new lines and the request, or the first part
  of it, has been sent. The overwritten copy misleads no later call, which computes from it the
  lines it would have computed from the old one; and since the input is not recorded, a repeated
  call is not skipped as already done.\<close>

theorem set_amp_outcomes:
  assumes "set_amp ch s t = Some (r, t')"
  shows "case r of
    Inl e \<Rightarrow> ch_state t' = ch_state t \<and> active_ant t' = active_ant t \<and>
      (if ch \<ge> 2 then t' = t
       else s \<noteq> ch_i (ch_state t ch) \<and> (\<exists>g w' k as.
         amp_lines (cur_gpio t) (inputs_after t ch s 0) (inputs_after t ch s 1) = Some g \<and>
         set_gpio g (net t) = Some (Inl e, w') \<and> t' = t\<lparr>cur_gpio := g, net := w'\<rparr> \<and>
         trace w' = trace (net t) @
           Sent (take k (frame 0x0c [0x0f, 0xf2, 4, ucast (drop_bit 8 g), ucast g])) # as \<and> (\<forall>a\<in>set as. \<exists>c n. a = Overrun c n) \<and>
         (\<forall>v0 v1. amp_lines (cur_gpio t') v0 v1 = amp_lines (cur_gpio t) v0 v1)))
  | Inr _ \<Rightarrow> ch < 2 \<and> ch_i (ch_state t' ch) = s \<and>
      (if s = ch_i (ch_state t ch) then t' = t
       else \<exists>g. amp_lines (cur_gpio t) (ch_i (ch_state t' 0)) (ch_i (ch_state t' 1)) = Some g \<and>
         cur_gpio t' = g \<and> trace (net t') = trace (net t) @
           [Sent (frame 0x0c [0x0f, 0xf2, 4, ucast (drop_bit 8 g), ucast g])])"
proof (cases r)
  case (Inl e)
  with assms have err: "set_amp ch s t = Some (Inl e, t')" by simp
  show ?thesis
  proof (cases "ch \<ge> 2")
    case True
    with set_amp_fails [OF err] show ?thesis by (auto simp: Inl)
  next
    case False
    with set_amp_fails [OF err] obtain g w' where n: "s \<noteq> ch_i (ch_state t ch)"
      and g: "amp_lines (cur_gpio t) (inputs_after t ch s 0) (inputs_after t ch s 1) = Some g"
      and w: "set_gpio g (net t) = Some (Inl e, w')" and t': "t' = t\<lparr>cur_gpio := g, net := w'\<rparr>" by blast
    from g have "g AND NOT 0xffff = 0" by (rule amp_lines_Some)
    from set_gpio_trace [OF w this] n g w t' False amp_lines_again [OF g] show ?thesis
      by (simp add: Inl)
  qed
next
  case (Inr u)
  with assms have ok: "set_amp ch s t = Some (Inr u, t')" by simp
  note f = set_amp_fields [OF ok]
  from f(4) have i: "inputs_after t ch s c = ch_i (ch_state t' c)" for c
    by (simp add: inputs_after_def)
  show ?thesis
  proof (cases "s = ch_i (ch_state t ch)")
    case False
    with set_amp_ok(2) [OF ok] obtain g w' where
      g: "amp_lines (cur_gpio t) (ch_i (ch_state t' 0)) (ch_i (ch_state t' 1)) = Some g"
        "set_gpio g (net t) = Some (Inr (), w')"
      and t': "t' = input_set ch s (t\<lparr>cur_gpio := g, net := w'\<rparr>)" unfolding i by blast
    from t' have "cur_gpio t' = g" "net t' = w'" by simp_all
    with g(1) set_gpio_ok [OF g(2)] False f(1) f(4) [of ch] Inr show ?thesis by simp
  qed (use set_amp_ok(2) [OF ok] f(1) f(4) [of ch] Inr in auto)
qed

text \<open>An accepted switch, and one whose request is only half taken before the connection
  breaks.\<close>

theorem set_amp_outcomes_witness:
  "(case set_amp 1 uhf1 (new_tuner 0 \<lparr>script = answered [0x0f, 0xf2, 4, 0x24, 3] [] @ [], trace = [],
       blocks = 0\<rparr>) of
     Some (r, t') \<Rightarrow> r = Inr () \<and> ch_i (ch_state t' 1) = uhf1 \<and>
       trace (net t') = [Sent (frame 0x0c [0x0f, 0xf2, 4, 0x24, 3])]
   | None \<Rightarrow> False) \<and>
   (case set_amp 1 uhf1 (new_tuner 0 \<lparr>script = [Ev_write 3, Ev_write (-1)], trace = [], blocks = 0\<rparr>) of
     Some (r, t') \<Rightarrow> r = Inl Sys_Error \<and> ch_i (ch_state t' 1) = off \<and> cur_gpio t' = 0x2403 \<and>
       amp_lines (cur_gpio t') off uhf1 = Some 0x2403 \<and> trace (net t') = [Sent [0, 0x0c, 0]]
   | None \<Rightarrow> False)"
proof -
  let ?w = "\<lparr>script = answered [0x0f, 0xf2, 4, 0x24, 3] [] @ [], trace = [], blocks = 0\<rparr>"
  let ?b = "\<lparr>script = [Ev_write 3, Ev_write (-1)], trace = [], blocks = 0\<rparr>"
  have g: "amp_lines 0 off uhf1 = Some 0x2403" by (simp add: amp_lines_def)
  have e: "ucast (drop_bit 8 (0x2403 :: u32)) = (0x24 :: u8)" "ucast (0x2403 :: u32) = (3 :: u8)"
    "(0x2403 :: u8) = 3"
    by code_simp+
  obtain t' where r: "set_amp 1 uhf1 (new_tuner 0 ?w) = Some (Inr (), t')"
    using set_gpio_eval [of ?w "0x2403" "[]", unfolded e]
    by (simp add: set_amp_def new_tuner_def Let_def g sock_def thenM_def io_simps)
  have b: "set_gpio 0x2403 ?b = Some (Inl Sys_Error, \<lparr>script = [], trace = [Sent [0, 0x0c, 0]], blocks = 0\<rparr>)"
    by code_simp
  obtain t'' where q: "set_amp 1 uhf1 (new_tuner 0 ?b) = Some (Inl Sys_Error, t'')"
    and tr: "trace (net t'') = [Sent [0, 0x0c, 0]]"
    using b by (simp add: set_amp_def new_tuner_def Let_def g sock_def thenM_def io_simps)
  from set_amp_outcomes [OF r] set_amp_fields(4) [OF r] set_amp_outcomes [OF q] tr g
  show ?thesis unfolding r q
    by (auto simp: new_tuner_def e inputs_after_def split: if_splits)
qed

text \<open>The center frequencies of the US broadcast channels, in MHz.\<close>

definition us_channel_mhz :: "nat \<Rightarrow> nat" where
  "us_channel_mhz c =
    (if c \<le> 4 then 57 + 6 * (c - 2) else if c \<le> 6 then 79 + 6 * (c - 5)
     else if c \<le> 13 then 177 + 6 * (c - 7) else 473 + 6 * (c - 14))"

lemma length_ch_freq [simp]: "length ch_freq = 50"
  by (simp add: ch_freq_def)

lemma ch_freq_us:
  assumes "i < 50" shows "ch_freq ! i = of_nat (us_channel_mhz (i + 2))"
proof -
  have "list_all (\<lambda>i. ch_freq ! i = of_nat (us_channel_mhz (i + 2))) [0..<50]"
    by code_simp
  with assms show ?thesis by (simp add: list_all_iff)
qed

text \<open>The frequency that \<^verbatim>\<open>set_freq\<close> looks up for a channel number in range: its index is the
  channel number, not the channel number less \<^verbatim>\<open>TVCH_MIN\<close>.\<close>

lemma looked_up_freq:
  fixes tvch :: u32
  assumes "2 \<le> tvch" and "tvch \<le> 51"
  shows "ch_freq_at beyond (unat tvch) =
    (if tvch \<le> 49 then of_nat (us_channel_mhz (unat tvch + 2)) else beyond (unat tvch))"
  using ch_freq_us [of "unat tvch"]
  by (auto simp: ch_freq_at_def word_le_nat_alt)

lemma reset_demod_blocks: "reset_demod ch ms w = Some (Inr u, w') \<Longrightarrow> blocks w' = blocks w"
  by (auto simp: reset_demod_def Let_def bindM_Inr_iff thenM_Inr_iff usleep_def
      dest!: get_demod8_ok set_demod8_ok split: if_splits)

text \<open>C15: A channel number that \<^verbatim>\<open>set_freq\<close> accepts and tunes to is recorded, the amplifier input is
  the one for the band and the antenna, the amplifier is switched before the PLL is programmed,
  and no block stays allocated. But the PLL gets the frequency of the channel two numbers up:
  the table \<^verbatim>\<open>ch_freq\<close> starts at channel 2 and is indexed with the channel number itself. For
  channels 50 and 51 the index is past its end.\<close>

theorem set_freq_programs:
  assumes "set_freq beyond ch tvch ms t = Some (Inr u, t')" and "tvch \<noteq> -1"
  shows "2 \<le> tvch \<and> tvch \<le> 51 \<and> ch < 2 \<and> ch_tvch (ch_state t' ch) = tvch \<and>
    blocks (net t') = blocks (net t) \<and>
    (\<exists>freq bs tai pre post.
      freq = (if tvch \<le> 49 then of_nat (us_channel_mhz (unat tvch + 2)) else beyond (unat tvch)) \<and>
      band_of freq = Some (bs, tai) \<and> ch_i (ch_state t' ch) = antenna_input (active_ant t) tai \<and>
      trace (net t') = trace (net t) @ pre @ [Sent (frame 0x0c (pll_request ch freq bs))] @ post \<and>
      (pre = [] \<longleftrightarrow> ch_i (ch_state t ch) = antenna_input (active_ant t) tai) \<and> length pre \<le> 1)"
proof -
  from set_freq_ok [OF assms(1)] assms(2) obtain bs tai t1 rx w1 w2 where
    r: "2 \<le> tvch" "tvch \<le> 51" "ch < 2" and
    b: "band_of (ch_freq_at beyond (unat tvch)) = Some (bs, tai)" and
    a: "set_amp ch (antenna_input (active_ant t) tai) t = Some (Inr (), t1)" and
    p: "write_then_read (unframed (pll_request ch (ch_freq_at beyond (unat tvch)) bs)) 8 (net t1) =
      Some (Inr rx, w1)" "length rx = 4" and
    d: "(if ms \<noteq> 0 then reset_demod ch ms else ret ()) (w1\<lparr>blocks := blocks w1 - 1\<rparr>) =
      Some (Inr (), w2)" and
    t': "t' = tvch_set ch tvch (t1\<lparr>net := w2\<rparr>)" by blast
  let ?i = "antenna_input (active_ant t) tai"
  have "keeps extends (if ms \<noteq> 0 then reset_demod ch ms else ret ())"
    by (intro ext.keeps_intros reset_demod_grows)
  from keepsD [OF this d] obtain post where post: "trace w2 = trace w1 @ post"
    by (auto simp: extends_def)
  have w1: "trace w1 = trace (net t1) @
      [Sent (frame 0x0c (pll_request ch (ch_freq_at beyond (unat tvch)) bs))]"
    using bus.response [OF p(1)] by (simp add: p(2) overrun_if_def)
  obtain pre where pre: "trace (net t1) = trace (net t) @ pre" "length pre \<le> 1"
    "pre = [] \<longleftrightarrow> ch_i (ch_state t ch) = ?i"
  proof (cases "ch_i (ch_state t ch) = ?i")
    case True
    with set_amp_ok(2) [OF a] that [of "[]"] show ?thesis by auto
  next
    case False
    with set_amp_ok(2) [OF a] obtain g w' where
      "set_gpio g (net t) = Some (Inr (), w')" "net t1 = w'" by auto
    with set_gpio_ok False that show ?thesis by fastforce
  qed
  have "blocks w2 = blocks (net t)"
    using d bus.response [OF p(1)] set_amp_fields(5) [OF a]
    by (auto dest: reset_demod_blocks split: if_splits)
  then show ?thesis
    unfolding looked_up_freq [OF r(1,2), symmetric]
    using r b set_amp_fields [OF a] pre post w1
    by (intro conjI exI [of _ "ch_freq_at beyond (unat tvch)"] exI [of _ bs] exI [of _ tai]
        exI [of _ pre] exI [of _ post]) (simp_all add: t')
qed

text \<open>Tuning to channel 7 (177 MHz) programs 189 MHz, the frequency of channel 9.\<close>

theorem set_freq_programs_witness:
  "case set_freq (\<lambda>_. 0) 0 7 0 (new_tuner 0 \<lparr>script = [], trace = [], blocks = 0\<rparr>
     \<lparr>active_ant := ant1, net := \<lparr>script =
       answered [0x0f, 0xf2, 4, 3, 1] [] @ answered (pll_request 0 189 2) [] @ [],
       trace = [], blocks = 0\<rparr>\<rparr>) of
     Some (Inr u, t') \<Rightarrow> ch_tvch (ch_state t' 0) = 7 \<and> us_channel_mhz 9 = 189 \<and>
       Sent (frame 0x0c (pll_request 0 189 2)) \<in> set (trace (net t'))
   | _ \<Rightarrow> False"
proof -
  let ?w = "\<lparr>script = answered [0x0f, 0xf2, 4, 3, 1] [] @ answered (pll_request 0 189 2) [] @ [],
       trace = [], blocks = 0\<rparr>"
  let ?t = "new_tuner 0 \<lparr>script = [], trace = [], blocks = 0\<rparr>
     \<lparr>active_ant := ant1, net := ?w\<rparr>"
  have g: "amp_lines 0 vhf1 off = Some 0x301" by (simp add: amp_lines_def)
  have e: "ucast (drop_bit 8 (0x301 :: u32)) = (3 :: u8)" "ucast (0x301 :: u32) = (1 :: u8)"
    by code_simp+
  have f: "ch_freq_at (\<lambda>_. 0) 7 = 189" "ch_freq_at (\<lambda>_. 0) 5 = 177"
    by (simp_all add: ch_freq_at_def ch_freq_def)
  have b: "band_of 189 = Some (2, vhf1)" by (simp add: band_of_def)
  have "set_amp 0 vhf1 ?t = Some (Inr (), input_set 0 vhf1 (?t\<lparr>cur_gpio := 0x301,
      net := ?w\<lparr>script := answered (pll_request 0 189 2) [] @ [],
        trace := [Sent (frame 0x0c [0x0f, 0xf2, 4, 3, 1])]\<rparr>\<rparr>))"
    using set_gpio_eval [of ?w "0x301" "answered (pll_request 0 189 2) [] @ []", unfolded e]
    by (simp add: set_amp_def new_tuner_def Let_def g sock_def thenM_def io_simps input_set_def)
  then obtain t' where r: "set_freq (\<lambda>_. 0) 0 7 0 ?t = Some (Inr (), t')"
    using write_then_read_eval [of "?w\<lparr>script := answered (pll_request 0 189 2) [] @ [],
        trace := [Sent (frame 0x0c [0x0f, 0xf2, 4, 3, 1])]\<rparr>" "pll_request 0 189 2" "[]" "[]" 8]
    by (simp add: set_freq_def f b Let_def sock_def thenM_def io_simps free_block_def)
  have "set (trace (net t')) \<noteq> {} \<and> Sent (frame 0x0c (pll_request 0 189 2)) \<in> set (trace (net t'))"
    using set_freq_programs [OF r] b by (auto simp: us_channel_mhz_def)
  then show ?thesis using set_freq_programs [OF r] unfolding r by (simp add: us_channel_mhz_def)
qed

text \<open>C22: Selecting an antenna keeps the tuner consistent. If each channel's input belonged to
  the antenna in use and the GPIO register agreed with the inputs, then after a successful
  \<^verbatim>\<open>set_antenna\<close> the same holds for the new antenna; without an antenna both amplifiers are
  off.\<close>

theorem set_antenna_invariant:
  assumes "set_antenna beyond ant t = Some (Inr u, t')" and "tuned t" and "coherent t"
  shows "tuned t' \<and> coherent t' \<and> active_ant t' = ant \<and>
    cur_gpio t' AND 0x80f0 = cur_gpio t AND 0x80f0 \<and>
    (ant = nc \<longrightarrow> ch_i (ch_state t' 0) = off \<and> ch_i (ch_state t' 1) = off)"
proof -
  have t': "tuned t'" "active_ant t' = ant" using set_antenna_tuned assms by blast+
  then have "ant = nc \<longrightarrow> ch_i (ch_state t' 0) = off \<and> ch_i (ch_state t' 1) = off"
    by (auto simp: tuned_def channel_fits_def)
  with t' assms(3) keeps_okD [OF lines.set_antenna_keeps assms(1)]
    keeps_okD [OF others.set_antenna_keeps assms(1)] show ?thesis by blast
qed

theorem set_antenna_invariant_witness:
  "case set_antenna (\<lambda>_. 0) coax \<lparr>cur_gpio = 0x503, active_ant = ant1,
      ch_state = (\<lambda>_. \<lparr>ch_i = off, ch_tvch = -1\<rparr>)(0 := \<lparr>ch_i = uhf1, ch_tvch = 20\<rparr>), myip = 0,
      net = \<lparr>script = answered [0x0f, 0xf2, 4, 0, 5] [] @ [], trace = [], blocks = 0\<rparr>\<rparr> of
     Some (Inr u, t') \<Rightarrow> tuned t' \<and> ch_i (ch_state t' 0) = external \<and> cur_gpio t' = 5
   | _ \<Rightarrow> False"
proof -
  let ?w = "\<lparr>script = answered [0x0f, 0xf2, 4, 0, 5] [] @ [], trace = [], blocks = 0\<rparr>"
  let ?t = "\<lparr>cur_gpio = 0x503, active_ant = ant1,
      ch_state = (\<lambda>_. \<lparr>ch_i = off, ch_tvch = -1\<rparr>)(0 := \<lparr>ch_i = uhf1, ch_tvch = 20\<rparr>), myip = 0,
      net = ?w\<rparr>"
  have g: "amp_lines 0x503 external off = Some 5" "amp_lines 0x503 uhf1 off = Some 0x503"
    by (simp_all add: amp_lines_def)
  have t: "tuned ?t" "coherent ?t" by (simp_all add: tuned_def channel_fits_def coherent_def g)
  obtain t' where r: "set_antenna (\<lambda>_. 0) coax ?t = Some (Inr (), t')"
    and t': "ch_i (ch_state t' 0) = external" "cur_gpio t' = 5"
    using set_gpio_eval [of ?w "5" "[]"]
    by (simp add: set_antenna_def apply_antenna_def set_amp_def Let_def g sock_def thenM_def io_simps)
  from set_antenna_invariant [OF r t] t' show ?thesis unfolding r by simp
qed

text \<open>Tuning keeps the tuner consistent in the same sense, and leaves the other channel
  alone.\<close>

theorem set_freq_invariant:
  assumes "set_freq beyond ch tvch ms t = Some (Inr u, t')" and "tuned t" and "coherent t"
  shows "tuned t' \<and> coherent t' \<and> active_ant t' = active_ant t \<and>
    (c \<noteq> ch \<longrightarrow> ch_i (ch_state t' c) = ch_i (ch_state t c) \<and>
      ch_tvch (ch_state t' c) = ch_tvch (ch_state t c))"
  using set_freq_tuned [OF assms(1,2)] assms(3) keeps_okD [OF lines.set_freq_keeps assms(1)]
    set_freq_fields [OF assms(1)] by blast

theorem set_freq_invariant_witness:
  "case set_freq (\<lambda>_. 0) 0 (-1) 0 \<lparr>cur_gpio = 0x503, active_ant = ant1,
      ch_state = (\<lambda>_. \<lparr>ch_i = off, ch_tvch = -1\<rparr>)(0 := \<lparr>ch_i = uhf1, ch_tvch = 20\<rparr>), myip = 0,
      net = \<lparr>script = answered [0x0f, 0xf2, 4, 4, 0] [] @ [], trace = [], blocks = 0\<rparr>\<rparr> of
     Some (Inr u, t') \<Rightarrow> tuned t' \<and> coherent t' \<and> ch_tvch (ch_state t' 1) = -1
   | _ \<Rightarrow> False"
proof -
  let ?w = "\<lparr>script = answered [0x0f, 0xf2, 4, 4, 0] [] @ [], trace = [], blocks = 0\<rparr>"
  let ?t = "\<lparr>cur_gpio = 0x503, active_ant = ant1,
      ch_state = (\<lambda>_. \<lparr>ch_i = off, ch_tvch = -1\<rparr>)(0 := \<lparr>ch_i = uhf1, ch_tvch = 20\<rparr>), myip = 0,
      net = ?w\<rparr>"
  have g: "amp_lines 0x503 off off = Some 0x400" "amp_lines 0x503 uhf1 off = Some 0x503"
    by (simp_all add: amp_lines_def)
  have t: "tuned ?t" "coherent ?t" by (simp_all add: tuned_def channel_fits_def coherent_def g)
  have e: "ucast (drop_bit 8 (0x400 :: u32)) = (4 :: u8)" "ucast (0x400 :: u32) = (0 :: u8)"
    by code_simp+
  obtain t' where r: "set_freq (\<lambda>_. 0) 0 (-1) 0 ?t = Some (Inr (), t')"
    using set_gpio_eval [of ?w "0x400" "[]", unfolded e]
    by (simp add: set_freq_def set_amp_def Let_def g sock_def thenM_def io_simps)
  from set_freq_invariant [OF r t, of 1] show ?thesis unfolding r by simp
qed

subsection \<open>Setting up and measuring\<close>

lemma runs_write_table:
  "ch < 2 \<Longrightarrow> \<forall>(a, v) \<in> set tab. a AND NOT 0xffff = 0 \<Longrightarrow>
   runs (write_table ch tab) (concat (map (\<lambda>(a, v). answered (write_request ch a [v]) []) tab)) ()"
proof (induction tab)
  case Nil
  show ?case by (simp add: runs_ret)
next
  case (Cons x tab)
  obtain a v where x: "x = (a, v)" by fastforce
  from Cons.prems(1) have "\<not> 2 < ch" by (meson dual_order.asym)
  with Cons.prems x have "\<not> bad_address ch a" by (simp add: bad_address_def)
  with Cons show ?case unfolding x by (auto intro!: runs_then [OF runs_set_demod8])
qed

lemma vsb1_addresses: "\<forall>(a, v) \<in> set vsb1. a AND NOT 0xffff = 0"
  unfolding vsb1_def by simp

text \<open>The answers of a demodulator in order: \<open>g\<close> in register 1, \<open>m\<close> in the mode register,
  \<open>p\<close> in register 0x50e, \<open>r1\<close> and \<open>r2\<close> in register 2 at the two resets.\<close>

definition vsb_answers :: "u8 \<Rightarrow> u8 \<Rightarrow> u8 \<Rightarrow> u8 \<Rightarrow> u8 \<Rightarrow> u8 \<Rightarrow> os_event list" where
  "vsb_answers ch g m p r1 r2 =
     answered (read_request ch 1 1) [g] @
     answered (write_request ch 0x808 [0x80]) [] @
     answered (read_request ch 0x808 1) [0x80] @
     answered (write_request ch 0x808 [0]) [] @
     answered (read_request ch 0 1) [m] @
     answered (write_request ch 0 [(m AND NOT 3) OR 3]) [] @
     concat (map (\<lambda>(a, v). answered (write_request ch a [v]) []) vsb1) @
     reset_answers ch r1 @
     answered (read_request ch 0x50e 1) [p] @
     answered (write_request ch 0x50e [p OR 0x20]) [] @
     reset_answers ch r2"

lemma set_modulation_runs:
  assumes "ch < 2" and "g \<noteq> 0" and "script (net t) = vsb_answers ch g m p r1 r2 @ es"
  shows "\<exists>tr. set_modulation ch VSB t = Some (Inr (),
    t\<lparr>net := (net t)\<lparr>script := es, trace := trace (net t) @ tr\<rparr>\<rparr>)"
proof -
  from assms(1) have c: "\<not> 2 < ch" "\<not> 2 \<le> ch" "ch \<le> 2" by auto
  then have ok: "\<not> bad_address ch a" if "a AND NOT 0xffff = 0" for a
    using that by (simp add: bad_address_def)
  have a: "\<not> bad_address ch 0" "\<not> bad_address ch 1" "\<not> bad_address ch 0x808"
    "\<not> bad_address ch 0x50e" by (simp_all add: ok)
  have "runs (bindM (get_demod8 ch 1) (\<lambda>b.
       if b = 0 then fail (Hw_Error b)
       else
         thenM (set_demod8 ch 0x808 0x80)
         (bindM (get_demod8 ch 0x808) (\<lambda>b.
         if b \<noteq> 0x80 then fail (Hw_Error b)
         else
           thenM (set_demod8 ch 0x808 0)
           (bindM (get_demod8 ch 0) (\<lambda>b.
           thenM (set_demod8 ch 0 ((b AND NOT 3) OR mode_code VSB))
              (thenM (write_table ch vsb1)
                (thenM (reset_demod ch 20)
                (bindM (get_demod8 ch 0x50e) (\<lambda>b.
                 thenM (set_demod8 ch 0x50e (b OR 0x20))
                 (reset_demod ch 20)))))))))))
    (vsb_answers ch g m p r1 r2) ()" (is "runs ?m _ _")
    unfolding vsb_answers_def
    by (rule runs_bind [OF runs_get_demod8 [OF a(2)]],
      simp only: assms(2) if_False simp_thms,
      rule runs_then [OF runs_set_demod8 [OF a(3)]],
      rule runs_bind [OF runs_get_demod8 [OF a(3)]],
      simp only: if_False simp_thms,
      rule runs_then [OF runs_set_demod8 [OF a(3)]],
      rule runs_bind [OF runs_get_demod8 [OF a(1)]],
      simp only: mode_code.simps,
      rule runs_then [OF runs_set_demod8 [OF a(1)]],
      rule runs_then [OF runs_write_table [OF assms(1) vsb1_addresses]],
      rule runs_then [OF runs_reset_demod [OF c(3)]],
      rule runs_bind [OF runs_get_demod8 [OF a(4)]],
      rule runs_then [OF runs_set_demod8 [OF a(4)]],
      rule runs_reset_demod [OF c(3)])
  from runsE [OF this assms(3)] obtain tr where
    "?m (net t) = Some (Inr (), (net t)\<lparr>script := es, trace := trace (net t) @ tr\<rparr>)" by blast
  moreover have "set_modulation ch VSB t = sock ?m t"
    by (simp only: set_modulation_def c if_False tuner_operating_mode.case)
  ultimately show ?thesis by (intro exI [of _ tr]) (simp add: sock_def)
qed

lemma init_channel_runs:
  assumes "ch < 2" and "g \<noteq> 0"
    and "amp_lines (cur_gpio t) (inputs_after t ch off 0) (inputs_after t ch off 1) = Some v"
    and "script (net t) = answered [0x0f, 0xf2, 4, ucast (drop_bit 8 v), ucast v] [] @
      vsb_answers ch g m p r1 r2 @ es"
  shows "\<exists>tr. init_channel ch t = Some (Inr (),
    input_set ch off (t\<lparr>cur_gpio := v, net := (net t)\<lparr>script := es, trace := trace (net t) @ tr\<rparr>\<rparr>))"
proof -
  let ?r = "vsb_answers ch g m p r1 r2 @ es"
  from assms(3) have v: "v AND NOT 0xffff = 0" by (rule amp_lines_Some)
  from runsE [OF runs_set_gpio [OF v] assms(4)] obtain tr where
    g: "set_gpio v (net t) = Some (Inr (), (net t)\<lparr>script := ?r, trace := trace (net t) @ tr\<rparr>)" by blast
  let ?t = "input_set ch off (t\<lparr>cur_gpio := v,
    net := (net t)\<lparr>script := ?r, trace := trace (net t) @ tr\<rparr>\<rparr>)"
  have i: "inputs_after (input_set ch vhf1 t) ch off = inputs_after t ch off"
    by (auto simp: inputs_after_def)
  have "set_amp ch off (input_set ch vhf1 t) = Some (Inr (), ?t)"
    using assms(1,3) g i [unfolded inputs_after_def]
    by (simp add: set_amp_def Let_def thenM_def io_simps sock_def inputs_after_def not_le)
      (simp add: input_set_def)
  moreover from set_modulation_runs [OF assms(1,2), of ?t m p r1 r2 es] obtain tr' where
    "set_modulation ch VSB ?t = Some (Inr (),
      ?t\<lparr>net := (net ?t)\<lparr>script := es, trace := trace (net ?t) @ tr'\<rparr>\<rparr>)" by auto
  ultimately show ?thesis
    by (intro exI [of _ "tr @ tr'"])
      (simp add: init_channel_def input_set_def thenM_def io_simps)
qed

lemma version_scan:
  "c_string [50, 48, 49, 49, 48, 56, 48, 53, 0] = Some [50, 48, 49, 49, 48, 56, 48, 53]"
  "scan_lu [50, 48, 49, 49, 48, 56, 48, 53] = Some 20110805"
  "c_string [50, 48, 48, 56, 48, 53, 48, 49, 0] = Some [50, 48, 48, 56, 48, 53, 48, 49]"
  "scan_lu [50, 48, 48, 56, 48, 53, 48, 49] = Some 20080501"
  by (simp_all add: c_string_def scan_lu_def is_space_def is_digit_def digits_value_def)

lemma get_str_eval:
  assumes "script (net t) = answered [0x0f, 0xf3, len, 1, ucast (idx + 1)] bytes @ es"
    and "idx \<le> 2" and "length bytes \<le> unat len"
  shows "get_str idx len t = Some (Inr (if length bytes < unat len then bytes @ [0] else bytes),
    t\<lparr>net := (net t)\<lparr>script := es, trace := trace (net t) @
      Sent (frame 0x0c [0x0f, 0xf3, len, 1, ucast (idx + 1)]) # overrun_if (unat len + 4) (length bytes + 8)\<rparr>\<rparr>)"
proof -
  have "length bytes < 65536" using assms(3) unsigned_less [of len, where ?'a = nat] by simp
  from write_then_read_eval [OF assms(1) this, of "unat len"] assms(2,3) show ?thesis
    by (simp add: get_str_def not_le leD sock_def io_simps thenM_def note_store_def free_block_def
        frame_head_def Let_def)
qed

text \<open>C23: After a successful \<^verbatim>\<open>init\<close> both amplifiers are off, the GPIO register agrees with that, so
  the invariants of antenna selection and tuning hold, and the firmware's version was a number
  above 20081010.\<close>

theorem init_establishes:
  assumes "tuner_init t = Some (Inr u, t')"
  shows "tuned t' \<and> coherent t' \<and> active_ant t' = active_ant t \<and>
    ch_i (ch_state t' 0) = off \<and> ch_i (ch_state t' 1) = off \<and>
    (\<exists>ver t1 s v. get_str 0 12 t = Some (Inr ver, t1) \<and> c_string ver = Some s \<and>
       scan_lu s = Some v \<and> 20081010 < v)"
  using tuner_init_ok [OF assms] by (simp add: tuned_def channel_fits_off)

text \<open>A run of \<^verbatim>\<open>init\<close> on firmware 20110805.\<close>

definition init_answers :: "os_event list" where
  "init_answers = answered [0x0f, 0xf3, 12, 1, 1] [50, 48, 49, 49, 48, 56, 48, 53] @
    answered [0x0f, 0xf2, 4, 4, 0] [] @ vsb_answers 0 1 0 0 0 0 @
    answered [0x0f, 0xf2, 4, 4, 0] [] @ vsb_answers 1 1 0 0 0 0"

lemma init_run:
  "\<exists>t'. tuner_init (new_tuner a \<lparr>script = init_answers @ es, trace = tr0, blocks = n\<rparr>) = Some (Inr (), t') \<and>
    script (net t') = es"
proof -
  let ?t = "new_tuner a \<lparr>script = init_answers @ es, trace = tr0, blocks = n\<rparr>"
  have f: "amp_lines g off off = Some 0x400" if "g AND 0x80f0 = 0" for g
    by (simp add: amp_lines_def that)
  have e: "ucast (drop_bit 8 (0x400 :: u32)) = (4 :: u8)" "ucast (0x400 :: u32) = (0 :: u8)"
    "(0x400 :: u8) = 0"
    by code_simp+
  have s: "script (net ?t) = answered [0x0f, 0xf3, 12, 1, ucast (0 + 1 :: u32)]
      [50, 48, 49, 49, 48, 56, 48, 53] @ answered [0x0f, 0xf2, 4, 4, 0] [] @
      vsb_answers 0 1 0 0 0 0 @ answered [0x0f, 0xf2, 4, 4, 0] [] @ vsb_answers 1 1 0 0 0 0 @ es"
    by (simp add: new_tuner_def init_answers_def)
  from get_str_eval [OF s] obtain tr where
    0: "get_str 0 12 ?t = Some (Inr [50, 48, 49, 49, 48, 56, 48, 53, 0], ?t\<lparr>net :=
      (net ?t)\<lparr>script := answered [0x0f, 0xf2, 4, 4, 0] [] @ vsb_answers 0 1 0 0 0 0 @
        answered [0x0f, 0xf2, 4, 4, 0] [] @ vsb_answers 1 1 0 0 0 0 @ es, trace := tr\<rparr>\<rparr>)"
      (is "_ = Some (_, ?t1)")
    by simp
  from init_channel_runs [of 0 1 ?t1 "0x400" 0 0 0 0 "answered [0x0f, 0xf2, 4, 4, 0] [] @
      vsb_answers 1 1 0 0 0 0 @ es"] obtain tr' where
    1: "init_channel 0 ?t1 = Some (Inr (), input_set 0 off (?t1\<lparr>cur_gpio := 0x400,
      net := (net ?t1)\<lparr>script := answered [0x0f, 0xf2, 4, 4, 0] [] @ vsb_answers 1 1 0 0 0 0 @ es,
        trace := trace (net ?t1) @ tr'\<rparr>\<rparr>))" (is "_ = Some (_, ?t2)")
    by (auto simp: e f new_tuner_def inputs_after_def)
  from init_channel_runs [of 1 1 ?t2 "0x400" 0 0 0 0 es] obtain t' where
    2: "init_channel 1 ?t2 = Some (Inr (), t')" "script (net t') = es"
    by (auto simp: e f new_tuner_def inputs_after_def)
  have "tuner_init ?t = Some (Inr (), t')"
    using 0 1 2 by (simp add: tuner_init_def thenM_def io_simps version_scan)
  with 2 show ?thesis by blast
qed

theorem init_establishes_witness:
  "case tuner_init (new_tuner 0 \<lparr>script = init_answers, trace = [], blocks = 0\<rparr>) of
     Some (Inr u, t') \<Rightarrow> tuned t' \<and> coherent t' \<and> active_ant t' = nc
   | _ \<Rightarrow> False"
proof -
  obtain t' where r: "tuner_init (new_tuner 0 \<lparr>script = init_answers, trace = [], blocks = 0\<rparr>) = Some (Inr (), t')"
    using init_run [of 0 "[]" "[]" 0] by auto
  from init_establishes [OF r] show ?thesis unfolding r by (simp add: new_tuner_def)
qed

text \<open>C39: Firmware whose version is 20081010 or older wires the GPIO differently; \<^verbatim>\<open>init\<close> refuses
  it having sent nothing but the request for the version, with registers, inputs and heap as
  they were. The version string itself is stored as long as the tuner makes it: more than 8
  bytes overrun the block of \<^verbatim>\<open>write_then_read\<close>, more than 12 also the array \<^verbatim>\<open>ver\<close>.\<close>

theorem init_refuses_old_firmware:
  assumes "get_str 0 12 t = Some (Inr ver, t1)" and "c_string ver = Some s"
    and "scan_lu s = Some v" and "v \<le> 20081010"
  shows "tuner_init t = Some (Inl (Unsafe_Version v), t1) \<and>
    (\<exists>w k. t1 = t\<lparr>net := w\<rparr> \<and> blocks w = blocks (net t) \<and> length ver = (if k < 12 then k + 1 else k) \<and>
       trace w = trace (net t) @ Sent (frame 0x0c [0x0f, 0xf3, 12, 1, 1]) #
         overrun_if 16 (k + 8) @ overrun_if 12 k)"
proof
  show "tuner_init t = Some (Inl (Unsafe_Version v), t1)"
    using assms by (simp add: tuner_init_def io_simps)
  from get_str_ok [OF assms(1)] obtain w k where "t1 = t\<lparr>net := w\<rparr>" "blocks w = blocks (net t)"
    "length ver = (if k < 12 then k + 1 else k)"
    "trace w = trace (net t) @ Sent (frame 0x0c [0x0f, 0xf3, 12, 1, 1]) #
         overrun_if 16 (k + 8) @ overrun_if 12 k"
    by (auto simp: overrun_if_def)
  then show "\<exists>w k. t1 = t\<lparr>net := w\<rparr> \<and> blocks w = blocks (net t) \<and>
      length ver = (if k < 12 then k + 1 else k) \<and>
      trace w = trace (net t) @ Sent (frame 0x0c [0x0f, 0xf3, 12, 1, 1]) #
         overrun_if 16 (k + 8) @ overrun_if 12 k"
    by blast
qed

theorem init_refuses_old_firmware_witness:
  "case tuner_init (new_tuner 0 \<lparr>script = answered [0x0f, 0xf3, 12, 1, 1]
       [50, 48, 48, 56, 48, 53, 48, 49, 0] @ [], trace = [], blocks = 0\<rparr>) of
     Some (Inl e, t') \<Rightarrow> e = Unsafe_Version 20080501 \<and> cur_gpio t' = 0
   | _ \<Rightarrow> False"
proof -
  let ?t = "new_tuner 0 \<lparr>script = answered [0x0f, 0xf3, 12, 1, 1]
       [50, 48, 48, 56, 48, 53, 48, 49, 0] @ [], trace = [], blocks = 0\<rparr>"
  obtain t1 where g: "get_str 0 12 ?t = Some (Inr [50, 48, 48, 56, 48, 53, 48, 49, 0, 0], t1)"
    using get_str_eval [of ?t 12 0 "[50, 48, 48, 56, 48, 53, 48, 49, 0]" "[]"]
    by (simp add: new_tuner_def)
  have "c_string [50, 48, 48, 56, 48, 53, 48, 49, 0, 0] = Some [50, 48, 48, 56, 48, 53, 48, 49]"
    by (simp add: c_string_def)
  from init_refuses_old_firmware [OF g this version_scan(4)]
  show ?thesis by (auto simp: new_tuner_def)
qed

lemma u24_value: "unat (u24 a b c) = 65536 * unat a + 256 * unat b + unat c"
proof -
  have a: "unat a < 256" "unat b < 256" "unat c < 256" 
    using unsigned_less [of a, where ?'a = nat] unsigned_less [of b, where ?'a = nat]
      unsigned_less [of c, where ?'a = nat] by simp_all
  have bnd: "m \<ge> 8 \<Longrightarrow> \<not> bit (x :: u8) m" for x m by (auto dest: bit_imp_le_length)
  have "push_bit 16 (ucast a) OR push_bit 8 (ucast b) =
      push_bit 16 (ucast a) + (push_bit 8 (ucast b) :: u32)"
    by (rule disjunctive_add [symmetric]) (auto simp: bit_simps bnd)
  moreover have "u24 a b c = (push_bit 16 (ucast a) OR push_bit 8 (ucast b)) + ucast c"
    unfolding u24_def or.assoc [symmetric] by (rule disjunctive_add [symmetric]) (auto simp: bit_simps bnd)
  ultimately have "u24 a b c = push_bit 16 (ucast a) + push_bit 8 (ucast b) + ucast c" by simp
  also have "unat \<dots> = 65536 * unat a + 256 * unat b + unat c"
    using a by (simp add: unat_word_ariths unsigned_push_bit_eq unsigned_ucast_eq take_bit_nat_def push_bit_nat_def)
  finally show ?thesis .
qed

lemma mse_status_bits:
  "mse_status b = 1 OR (if bit b 3 then 0 else 2) OR (if bit b 2 then 4 else 0) OR
    (if bit b 0 then 8 else 0) OR (if bit b 1 then 16 else 0)"
proof (rule bit_word_eqI)
  fix n assume "n < LENGTH(8)"
  then have "n \<in> {0, 1, 2, 3, 4, 5, 6, 7}" by auto
  then show "bit (mse_status b) n = bit (1 OR (if bit b 3 then 0 else 2) OR
    (if bit b 2 then 4 else 0) OR (if bit b 0 then 8 else 0) OR (if bit b 1 then 16 else 0) :: u8) n"
    unfolding mse_status_def
    by (elim insertE emptyE) (auto simp: bit_simps)
qed

text \<open>\<^verbatim>\<open>get_mse\<close> of a locked demodulator decodes the general status register bit by bit (lock,
  inverted lock, sync lock, SNR, Viterbi) and the two 24-bit error values from the block at
  0x413, both as the numbers their big endian bytes stand for. Reading that block overruns
  the 8 bytes allocated for it by 8.\<close>

theorem get_mse_decodes:
  assumes "ch \<le> 2" and "bit lock 7"
    and "script (net t) = answered (read_request ch 0x11d 1) [lock] @
      answered (read_request ch 3 1) [st] @
      answered (read_request ch 0x413 8) [e0, e1, e2, x, p0, p1, p2, y] @ es"
  shows "\<exists>status pt eq t'. get_mse ch t = Some (Inr (status, pt, eq), t') \<and>
    status = 1 OR (if bit st 3 then 0 else 2) OR (if bit st 2 then 4 else 0) OR
      (if bit st 0 then 8 else 0) OR (if bit st 1 then 16 else 0) \<and>
    unat pt = 65536 * unat p0 + 256 * unat p1 + unat p2 \<and>
    unat eq = 65536 * unat e0 + 256 * unat e1 + unat e2 \<and>
    trace (net t') = trace (net t) @
      [Sent (frame 0x0c (read_request ch 0x11d 1)), Overrun 5 9,
       Sent (frame 0x0c (read_request ch 3 1)), Overrun 5 9,
       Sent (frame 0x0c (read_request ch 0x413 8)), Overrun 8 16]"
proof -
  let ?m = "[e0, e1, e2, x, p0, p1, p2, y]"
  from assms(1) have ok: "\<not> bad_address ch a" if "a AND NOT 0xffff = 0" for a
    using that by (simp add: bad_address_def not_less)
  have l: "lock AND 0x80 \<noteq> 0" using assms(2) and_one_bit_iff [where x = lock and n = 7] by simp
  from get_demod8_eval [OF assms(3) ok] obtain w1 where
    1: "get_demod8 ch 0x11d (net t) = Some (Inr lock, w1)" and
    s1: "script w1 = answered (read_request ch 3 1) [st] @ answered (read_request ch 0x413 8) ?m @ es"
      "trace w1 = trace (net t) @ [Sent (frame 0x0c (read_request ch 0x11d 1)), Overrun 5 9]"
    by simp
  from get_demod8_eval [OF s1(1) ok] obtain w2 where
    2: "get_demod8 ch 3 w1 = Some (Inr st, w2)" and
    s2: "script w2 = answered (read_request ch 0x413 8) ?m @ es"
      "trace w2 = trace w1 @ [Sent (frame 0x0c (read_request ch 3 1)), Overrun 5 9]"
    by simp
  from command_eval [OF s2(1), where k = 8 and n = 4 and f = "\<lambda>rx. take 8 (drop 4 rx)"] ok [of "0x413"] obtain w3 where
    3: "get_demodN ch 0x413 8 w2 = Some (Inr ?m, w3)" and
    s3: "trace w3 = trace w2 @ [Sent (frame 0x0c (read_request ch 0x413 8)), Overrun 8 16]"
    by (simp add: get_demodN_def frame_head_def overrun_if_def)
  have "get_mse ch t = Some (Inr (mse_status st, u24 p0 p1 p2, u24 e0 e1 e2), t\<lparr>net := w3\<rparr>)"
    using l 1 2 3 by (simp add: get_mse_def sock_def io_simps)
  then show ?thesis
    using s1 s2 s3 by (intro exI conjI) (assumption, simp_all add: mse_status_bits u24_value)
qed

theorem get_mse_decodes_witness:
  "\<exists>status pt eq t'. get_mse 1 (new_tuner 0 \<lparr>script = answered (read_request 1 0x11d 1) [0x80] @
      answered (read_request 1 3 1) [7] @
      answered (read_request 1 0x413 8) [0, 1, 0, 0, 0, 2, 3, 0] @ [], trace = [], blocks = 0\<rparr>) =
      Some (Inr (status, pt, eq), t') \<and> status = 31 \<and> unat pt = 515 \<and> unat eq = 256"
proof -
  have b: "bit (0x80 :: u8) 7" "(1 :: u8) \<le> 2" by code_simp+
  have "bit (7 :: u8) 0" "bit (7 :: u8) 1" "bit (7 :: u8) 2" "\<not> bit (7 :: u8) 3" by code_simp+
  moreover have "(1 :: u8) OR 2 OR 4 OR 8 OR 16 = 31" by code_simp
  ultimately show ?thesis
    using get_mse_decodes [OF b(2) b(1), of "new_tuner 0 \<lparr>script =
      answered (read_request 1 0x11d 1) [0x80] @ answered (read_request 1 3 1) [7] @
      answered (read_request 1 0x413 8) [0, 1, 0, 0, 0, 2, 3, 0] @ [], trace = [], blocks = 0\<rparr>"
      7 0 1 0 0 0 2 3 0 "[]"]
    by (auto simp: new_tuner_def)
qed

text \<open>The host's address in memory order is what goes on the wire.\<close>

lemma ntohl_bytes: "be32 (ntohl v) = le32 v"
proof -
  have m: "bit (0xff00 :: u32) n \<longleftrightarrow> 8 \<le> n \<and> n < 16" for n
  proof -
    have "(0xff00 :: u32) = push_bit 8 (mask 8)" by code_simp
    then have "bit (0xff00 :: u32) n \<longleftrightarrow> bit (push_bit 8 (mask 8) :: u32) n" by metis
    then show ?thesis unfolding bit_push_bit_iff bit_mask_iff by auto
  qed
  have b: "bit (ntohl v) n \<longleftrightarrow> n < 32 \<and>
     (24 \<le> n \<and> bit v (n - 24) \<or> 16 \<le> n \<and> n < 24 \<and> bit v (n - 8) \<or>
      8 \<le> n \<and> n < 16 \<and> bit v (n + 8) \<or> bit v (n + 24))" for n
    unfolding ntohl_def
    by (simp only: bit_or_iff bit_push_bit_iff bit_drop_bit_eq bit_and_iff m comp_def)
      (auto simp: add.commute dest: bit_imp_le_length)
  have o: "n \<ge> 32 \<Longrightarrow> \<not> bit v n" for n by (auto dest: bit_imp_le_length)
  have "ucast (drop_bit 24 (ntohl v)) = (ucast v :: u8)"
    by (rule bit_word_eqI) (auto simp: bit_ucast_iff bit_drop_bit_eq b m o)
  moreover have "ucast (drop_bit 16 (ntohl v)) = (ucast (drop_bit 8 v) :: u8)"
    by (rule bit_word_eqI) (auto simp: bit_ucast_iff bit_drop_bit_eq b m o)
  moreover have "ucast (drop_bit 8 (ntohl v)) = (ucast (drop_bit 16 v) :: u8)"
    by (rule bit_word_eqI) (auto simp: bit_ucast_iff bit_drop_bit_eq b m o add.commute)
  moreover have "ucast (ntohl v) = (ucast (drop_bit 24 v) :: u8)"
    by (rule bit_word_eqI) (auto simp: bit_ucast_iff bit_drop_bit_eq b m o add.commute)
  ultimately show ?thesis by (simp add: be32_def le32_def)
qed

text \<open>\<^verbatim>\<open>start_ts\<close> that succeeds has sent, for a channel other than 0, the request that routes
  the tuner to the output of its number, and then the request that sets the destination: the
  host's address in network order and the port, high byte first. \<^verbatim>\<open>stop_ts\<close> sends the same
  request with address and port zero. Neither leaves a block allocated.\<close>

theorem start_ts_requests:
  assumes "start_ts ch port t = Some (Inr u, t')"
  shows "blocks (net t') = blocks (net t) \<and> ch_state t' = ch_state t \<and>
    trace (net t') = trace (net t) @
      (if ch = 0 then [] else [Sent (frame 0x0c [0x0f, 0xf2, 6, ch, ch])]) @
      [Sent (frame 0x0c ([0x0f, 0xf2, 3, ch] @ le32 (myip t) @
         [ucast (drop_bit 8 port), ucast port]))] \<and>
    (\<forall>r t''. stop_ts ch t' = Some (Inr r, t'') \<longrightarrow>
      trace (net t'') = trace (net t') @
        [Sent (frame 0x0c ([0x0f, 0xf2, 3, ch] @ [0, 0, 0, 0] @ [0, 0]))])"
proof -
  have ip: "[ucast (drop_bit 24 (ntohl (myip t))), ucast (drop_bit 16 (ntohl (myip t))),
      ucast (drop_bit 8 (ntohl (myip t))), ucast (ntohl (myip t))] = le32 (myip t)"
    using ntohl_bytes [of "myip t"] by (simp only: be32_def)
  from assms obtain w1 w2 where
    1: "(if ch \<noteq> 0 then bus_request [0x0f, 0xf2, 6, ch, ch] else ret ()) (net t) = Some (Inr (), w1)" and
    2: "bus_request ([0x0f, 0xf2, 3, ch] @ le32 (myip t) @ [ucast (drop_bit 8 port), ucast port]) w1 =
      Some (Inr u, w2)" and t': "t' = t\<lparr>net := w2\<rparr>"
    unfolding start_ts_def Let_def bind_gets ip [symmetric] append_Cons append_Nil
    by (simp add: thenM_Inr_iff split: if_splits) blast+
  have 3: "trace w1 = trace (net t) @
      (if ch = 0 then [] else [Sent (frame 0x0c [0x0f, 0xf2, 6, ch, ch])]) \<and> blocks w1 = blocks (net t)"
    using 1 by (auto dest: bus_request_ok split: if_splits)
  have 4: "\<forall>r t''. stop_ts ch t' = Some (Inr r, t'') \<longrightarrow> trace (net t'') = trace (net t') @
        [Sent (frame 0x0c ([0x0f, 0xf2, 3, ch] @ [0, 0, 0, 0] @ [0, 0]))]"
    unfolding stop_ts_def sock_Some_iff by (auto dest!: bus_request_ok)
  show ?thesis using 3 4 bus_request_ok [OF 2] by (simp add: t')
qed

theorem start_ts_requests_witness:
  "case start_ts 1 0x138a (new_tuner 0x0101fea9 \<lparr>script =
      answered [0x0f, 0xf2, 6, 1, 1] [] @
      answered [0x0f, 0xf2, 3, 1, 169, 254, 1, 1, 0x13, 0x8a] [] @ [], trace = [], blocks = 0\<rparr>) of
     Some (Inr u, t') \<Rightarrow> blocks (net t') = 0 \<and> length (trace (net t')) = 2
   | _ \<Rightarrow> False"
proof -
  let ?w = "\<lparr>script = answered [0x0f, 0xf2, 6, 1, 1] [] @
      answered [0x0f, 0xf2, 3, 1, 169, 254, 1, 1, 0x13, 0x8a] [] @ [], trace = [], blocks = 0\<rparr>"
  have e: "ntohl 0x0101fea9 = 0xa9fe0101" by code_simp
  have f: "(43518 :: u8) = 254" "(11140609 :: u8) = 1" "(2851995905 :: u8) = 1" "(5002 :: u8) = 138"
    by code_simp+
  obtain t' where r: "start_ts 1 0x138a (new_tuner 0x0101fea9 ?w) = Some (Inr (), t')"
    using bus_request_eval [of ?w "[0x0f, 0xf2, 6, 1, 1]"]
      bus_request_eval [of "?w\<lparr>script := answered [0x0f, 0xf2, 3, 1, 169, 254, 1, 1, 0x13, 0x8a] [] @ [],
        trace := [Sent (frame 0x0c [0x0f, 0xf2, 6, 1, 1])]\<rparr>"
        "[0x0f, 0xf2, 3, 1, 169, 254, 1, 1, 0x13, 0x8a]" "[]"]
    by (simp only: start_ts_def new_tuner_def) (simp add: sock_def thenM_def io_simps e f)
  from start_ts_requests [OF r] show ?thesis unfolding r by (simp add: new_tuner_def)
qed

subsection \<open>Shutting down\<close>

text \<open>\<^verbatim>\<open>close\<close> of a tuner whose socket has the descriptor \<open>fd\<close>: it ignores whether the amplifiers
  could be switched off. The value is the new descriptor.\<close>

definition tuner_close :: "(nat \<Rightarrow> u32) \<Rightarrow> int \<Rightarrow> int tuner_cmd" where
  "tuner_close beyond fd = tryM (set_antenna beyond nc) (\<lambda>_. sock (socket_close fd))"

text \<open>The network as the tuner's commands see it: they only add to the trace.\<close>

definition net_extends :: "tuner \<Rightarrow> tuner \<Rightarrow> bool" where
  "net_extends t t' \<longleftrightarrow> extends (net t) (net t')"

interpretation wire: state_order net_extends
  unfolding net_extends_def by unfold_locales (auto intro: extends_refl extends_trans)

lemma sock_extends: "keeps extends m \<Longrightarrow> keeps net_extends (sock m)"
  by (auto simp: keeps_def net_extends_def)

lemma gets_extends: "keeps net_extends (gets f)"
  by (auto simp: keeps_def net_extends_def extends_refl)

lemma modify_extends: "(\<And>t. net (f t) = net t) \<Longrightarrow> keeps net_extends (modify f)"
  by (auto simp: keeps_def net_extends_def extends_refl)

lemmas field_extends = gets_extends modify_extends

lemma set_amp_extends: "keeps net_extends (set_amp ch s)"
proof -
  have "keeps net_extends (\<lambda>_. None :: ((err + unit) \<times> tuner) option)" by (simp add: keeps_def)
  then show ?thesis unfolding set_amp_def Let_def
    by (intro wire.ifI wire.bindI wire.fail wire.ret field_extends)
      (auto split: option.split intro!: wire.thenI field_extends sock_extends commands_grow)
qed

lemma set_freq_extends: "keeps net_extends (set_freq beyond ch tvch ms)"
  unfolding set_freq_def Let_def
  by (intro wire.ifI wire.bindI wire.fail wire.ret field_extends set_amp_extends)
    (auto split: option.split intro!: wire.thenI wire.bindI wire.ifI wire.fail wire.ret wire.tryI
      field_extends sock_extends commands_grow bus_grows set_amp_extends keeps_extends_calls
      reset_demod_grows)

lemma set_antenna_extends: "keeps net_extends (set_antenna beyond ant)"
  unfolding set_antenna_def apply_antenna_def Let_def
  by (intro wire.thenI wire.bindI wire.ifI wire.ret field_extends set_amp_extends set_freq_extends)
    simp

text \<open>Closing a tuner always closes its descriptor, last of all, also when the tuner no
  longer answers; the antenna is recorded as disconnected.\<close>

theorem tuner_close_closes:
  assumes "tuner_close beyond fd t = Some (r, t')" and "fd \<noteq> -1"
  shows "r = Inr (-1) \<and> (\<exists>tr. trace (net t') = trace (net t) @ tr @ [Closed fd]) \<and>
    (\<forall>u t1. set_antenna beyond nc t = Some (Inr u, t1) \<longrightarrow> t' = t1\<lparr>net := emit (Closed fd) (net t1)\<rparr>)"
proof -
  from assms obtain q t1 where 1: "set_antenna beyond nc t = Some (q, t1)"
    and t': "t' = t1\<lparr>net := emit (Closed fd) (net t1)\<rparr>" and r: "r = Inr (-1)"
    by (auto simp: tuner_close_def tryM_Some_iff socket_close_run)
  from keepsD [OF set_antenna_extends 1] have "\<exists>tr. trace (net t1) = trace (net t) @ tr"
    by (auto simp: net_extends_def extends_def)
  with 1 show ?thesis by (auto simp: t' r)
qed

theorem tuner_close_closes_witness:
  "case tuner_close (\<lambda>_. 0) 5 (new_tuner 0 \<lparr>script = [], trace = [], blocks = 0\<rparr>) of
     Some (r, t') \<Rightarrow> trace (net t') = [Closed 5]
   | None \<Rightarrow> False"
proof -
  let ?t = "new_tuner 0 \<lparr>script = [], trace = [], blocks = 0\<rparr>"
  have s: "set_antenna (\<lambda>_. 0) nc ?t = Some (Inr (), ?t)"
    by (simp add: set_antenna_def apply_antenna_def new_tuner_def thenM_def io_simps)
  then obtain r t' where c: "tuner_close (\<lambda>_. 0) 5 ?t = Some (r, t')"
    by (simp add: tuner_close_def io_simps sock_def socket_close_def)
  from tuner_close_closes [OF c] s show ?thesis unfolding c by (simp add: new_tuner_def)
qed

end
