(* ===== verification/Sez_Mpgts.thy ===== *)
theory Sez_Mpgts
  imports Sez_Lifetime Sez_Tuner
begin

text \<open>
  The UDP receiver of \<^verbatim>\<open>mpgts.cpp\<close>: an object joins a tuner, a demultiplexer per channel and the
  thread that feeds them. \<^verbatim>\<open>open\<close> and \<^verbatim>\<open>close\<close> are commands; \<^verbatim>\<open>start_ts\<close> and \<^verbatim>\<open>thread_main\<close> run in two
  threads that share \<^verbatim>\<open>want_reset\<close>, so each load of it and each store to it is a step of its own, and
  a relation interleaves the steps.
\<close>

subsection \<open>State\<close>

text \<open>The parts' own records of the system are superseded by \<open>sys\<close>: a command of a part runs on it.
  \<^verbatim>\<open>want_reset[i]\<close> is an \<^verbatim>\<open>int\<close>: counting it beyond \<open>int_max\<close> has no result.\<close>

definition int_max :: int where
  "int_max = 0x7fffffff"

record mpgts =
  tun :: tuner
  tcp_sock :: int
  atsc :: "u8 \<Rightarrow> mpgatsc"
  udp_sock :: "u8 \<Rightarrow> int"
  udp_port :: "u8 \<Rightarrow> u32"
  want_reset :: "u8 \<Rightarrow> int"
  tsth :: bool
  sys :: world

type_synonym 'a ts_cmd = "(mpgts, 'a) cmd"

definition new_mpgts :: "u32 \<Rightarrow> world \<Rightarrow> mpgts" where
  "new_mpgts myip0 w =
    \<lparr>tun = new_tuner myip0 w, tcp_sock = -1, atsc = (\<lambda>_. new_mpgatsc w), udp_sock = (\<lambda>_. -1),
     udp_port = (\<lambda>_. 0), want_reset = (\<lambda>_. 0), tsth = False, sys = w\<rparr>"

definition on_sys :: "'a io \<Rightarrow> 'a ts_cmd" where
  "on_sys m s = (case m (sys s) of None \<Rightarrow> None | Some (r, w) \<Rightarrow> Some (r, s\<lparr>sys := w\<rparr>))"

definition on_tun :: "'a tuner_cmd \<Rightarrow> 'a ts_cmd" where
  "on_tun m s = (case m ((tun s)\<lparr>net := sys s\<rparr>) of None \<Rightarrow> None
     | Some (r, t) \<Rightarrow> Some (r, s\<lparr>tun := t, sys := net t\<rparr>))"

definition on_atsc :: "u8 \<Rightarrow> 'a atsc_cmd \<Rightarrow> 'a ts_cmd" where
  "on_atsc i m s = (case m ((atsc s i)\<lparr>env := sys s\<rparr>) of None \<Rightarrow> None
     | Some (r, a) \<Rightarrow> Some (r, s\<lparr>atsc := (atsc s)(i := a), sys := env a\<rparr>))"

definition see :: "(mpgts \<Rightarrow> 'a) \<Rightarrow> 'a ts_cmd" where
  "see f s = Some (Inr (f s), s)"

definition upd :: "(mpgts \<Rightarrow> mpgts) \<Rightarrow> unit ts_cmd" where
  "upd f s = Some (Inr (), f s)"

subsection \<open>Opening and closing\<close>

definition ask_socket :: "int io" where
  "ask_socket w = (case script w of Ev_socket fd # es \<Rightarrow> Some (Inr fd, w\<lparr>script := es\<rparr>) | _ \<Rightarrow> None)"

definition check :: "bool \<Rightarrow> unit ts_cmd" where
  "check ok = (if ok then ret () else fail Sys_Error)"

text \<open>One round of the loop over the two UDP sockets; \<^verbatim>\<open>getsockname\<close> gives the port, or a negative number.\<close>

definition open_udp :: "u8 \<Rightarrow> unit ts_cmd" where
  "open_udp i =
    bindM (on_sys ask_socket) (\<lambda>fd.
    thenM (upd (\<lambda>s. s\<lparr>udp_sock := (udp_sock s)(i := fd)\<rparr>))
    (thenM (check (fd \<noteq> -1))
    (bindM (on_sys ask_ok) (\<lambda>bound.
    thenM (check bound)
    (bindM (on_sys ask_num) (\<lambda>port.
    thenM (check (0 \<le> port))
      (upd (\<lambda>s. s\<lparr>udp_port := (udp_port s)(i := word_of_int port AND 0xffff)\<rparr>))))))))"

definition init_atsc :: "u8 \<Rightarrow> unit ts_cmd" where
  "init_atsc i = bindM (on_atsc i atsc_init) (\<lambda>bad. check (\<not> bad))"

definition open_tun :: "unit ts_cmd" where
  "open_tun =
    bindM (on_sys socket_open) (\<lambda>(r, fd).
    thenM (upd (\<lambda>s. s\<lparr>tcp_sock := fd\<rparr>)) (case r of Inl e \<Rightarrow> fail e | Inr _ \<Rightarrow> ret ()))"

definition start_thread :: "unit ts_cmd" where
  "start_thread =
    bindM (on_sys ask_ok) (\<lambda>ok. thenM (upd (\<lambda>s. s\<lparr>tsth := ok\<rparr>)) (check ok))"

definition mpgts_open :: "unit ts_cmd" where
  "mpgts_open =
    thenM open_tun (thenM (on_tun tuner_init) (thenM (init_atsc 0) (thenM (init_atsc 1)
      (thenM (open_udp 0) (thenM (open_udp 1) start_thread)))))"

definition close_udp :: "u8 \<Rightarrow> unit ts_cmd" where
  "close_udp i =
    bindM (see (\<lambda>s. udp_sock s i)) (\<lambda>fd.
    if fd \<noteq> -1 then
      thenM (on_sys (act (Closed fd))) (upd (\<lambda>s. s\<lparr>udp_sock := (udp_sock s)(i := -1)\<rparr>))
    else ret ())"

text \<open>\<^verbatim>\<open>pthread_cancel\<close> and, if it succeeds, \<^verbatim>\<open>pthread_join\<close>; their failures are only reported.\<close>

definition stop_thread :: "unit ts_cmd" where
  "stop_thread =
    bindM (see tsth) (\<lambda>th.
    if th then
      bindM (on_sys ask_ok) (\<lambda>cancelled.
      thenM (if cancelled then bindM (on_sys ask_ok) (\<lambda>_. ret ()) else ret ())
        (upd (\<lambda>s. s\<lparr>tsth := False\<rparr>)))
    else ret ())"

definition mpgts_close :: "(nat \<Rightarrow> u32) \<Rightarrow> unit ts_cmd" where
  "mpgts_close beyond =
    bindM (see tcp_sock) (\<lambda>fd.
    bindM (on_tun (tuner_close beyond fd)) (\<lambda>fd'.
    thenM (upd (\<lambda>s. s\<lparr>tcp_sock := fd'\<rparr>))
    (thenM stop_thread (thenM (close_udp 0) (close_udp 1)))))"

subsection \<open>The thread\<close>

text \<open>The packets of a datagram, from byte 12 on.\<close>

fun ts_packets :: "nat \<Rightarrow> u8 list \<Rightarrow> u8 list list" where
  "ts_packets 0 bytes = []"
| "ts_packets (Suc n) bytes = take 188 bytes # ts_packets n (drop 188 bytes)"

definition packets_of :: "u8 list \<Rightarrow> u8 list list" where
  "packets_of rx = ts_packets ((length rx - 12) div 188) (drop 12 rx)"

text \<open>
  Where the thread stands: before \<^verbatim>\<open>pselect\<close>; before it looks at \<^verbatim>\<open>want_reset[i]\<close>; having seen it set,
  before it stores 0 there; before the \<^verbatim>\<open>init\<close> that follows; before it looks at socket \<open>i\<close>; returned. \<open>n\<close> is what
  \<^verbatim>\<open>pselect\<close> reported, 0 for a timeout, otherwise bit \<open>i\<close> for socket \<open>i\<close>.
\<close>

datatype thr_pc = Polling | Check u8 int | Clearing u8 int | Resetting u8 int | Receiving u8 int | Returned_0

definition receive :: "(u32 list \<Rightarrow> bool \<times> string) \<Rightarrow> (nat \<Rightarrow> u8) \<Rightarrow> u8 \<Rightarrow> bool ts_cmd" where
  "receive iconv fresh i =
    bindM (on_sys recvfrom) (\<lambda>r.
    case r of
      None \<Rightarrow> ret True
    | Some (src, rx) \<Rightarrow>
        if length rx \<noteq> 1328 then ret False
        else on_atsc i (feed iconv fresh (packets_of rx)))"

text \<open>One step of \<^verbatim>\<open>thread_main\<close>; the value is where it stands then.\<close>

fun thr_step :: "(u32 list \<Rightarrow> bool \<times> string) \<Rightarrow> (nat \<Rightarrow> u8) \<Rightarrow> thr_pc \<Rightarrow> thr_pc ts_cmd" where
  "thr_step iconv fresh Polling =
    bindM (on_sys ask_num) (\<lambda>n. ret (if n < 0 then Returned_0 else Check 0 n))"
| "thr_step iconv fresh (Check i n) =
    (if i < 2 then
       bindM (see (\<lambda>s. want_reset s i)) (\<lambda>w.
       ret (if w \<noteq> 0 then Clearing i n else Check (i + 1) n))
     else ret (if n = 0 then Polling else Receiving 0 n))"
| "thr_step iconv fresh (Clearing i n) =
    thenM (upd (\<lambda>s. s\<lparr>want_reset := (want_reset s)(i := 0)\<rparr>)) (ret (Resetting i n))"
| "thr_step iconv fresh (Resetting i n) =
    bindM (on_atsc i atsc_init) (\<lambda>bad. ret (if bad then Returned_0 else Check (i + 1) n))"
| "thr_step iconv fresh (Receiving i n) =
    (if i < 2 then
       if bit n (unat i) then
         bindM (receive iconv fresh i) (\<lambda>bad. ret (if bad then Returned_0 else Receiving (i + 1) n))
       else ret (Receiving (i + 1) n)
     else ret Polling)"
| "thr_step iconv fresh Returned_0 = (\<lambda>_. None)"

subsection \<open>start_ts\<close>

text \<open>
  Where the caller of \<^verbatim>\<open>start_ts\<close> stands: outside; inside \<^verbatim>\<open>want_reset[ch]++\<close>, between the load of
  \<open>w\<close> and the store; in round \<open>k\<close> of the wait for channel \<open>ch\<close>; behind the wait; returned, and
  whether with 1. \<open>request_ts\<close> is the call up to the load.
\<close>

datatype main_pc = Idle | Requesting u8 int | Waiting u8 nat | Tuning u8 | Returned bool

definition request_ts :: "u8 \<Rightarrow> main_pc ts_cmd" where
  "request_ts ch =
    (if ch \<ge> 2 then ret (Returned True)
     else bindM (see (\<lambda>s. want_reset s ch)) (\<lambda>w. ret (Requesting ch w)))"

fun main_step :: "main_pc \<Rightarrow> main_pc ts_cmd" where
  "main_step Idle = (\<lambda>_. None)"
| "main_step (Requesting ch w) =
    (if w = int_max then (\<lambda>_. None)
     else thenM (upd (\<lambda>s. s\<lparr>want_reset := (want_reset s)(ch := w + 1)\<rparr>)) (ret (Waiting ch 0)))"
| "main_step (Waiting ch k) =
    (if k \<ge> 3 then ret (Returned True)
     else
       bindM (see (\<lambda>s. want_reset s ch)) (\<lambda>w.
       if w = 0 then ret (Tuning ch)
       else thenM (on_sys (usleep 100000)) (ret (Waiting ch (k + 1)))))"
| "main_step (Tuning ch) =
    thenM (upd (\<lambda>s. s\<lparr>atsc := (atsc s)(ch := (atsc s ch)\<lparr>tv_ch := get_freq (tun s) ch\<rparr>)\<rparr>))
    (bindM (see (\<lambda>s. udp_port s ch)) (\<lambda>port.
     tryM (on_tun (start_ts ch port)) (\<lambda>r. ret (Returned (case r of Inl _ \<Rightarrow> True | Inr _ \<Rightarrow> False)))))"
| "main_step (Returned b) = ret Idle"

subsection \<open>Interleaving\<close>

text \<open>
  A configuration. \<open>taken\<close> counts how often the thread has taken a request of a channel, that is,
  stored 0 to its flag; \<open>asked\<close> is that count when the pending call stored its request. They are
  not part of the program.
\<close>

record config =
  gts :: mpgts
  main :: main_pc
  thr :: thr_pc
  taken :: "u8 \<Rightarrow> nat"
  asked :: nat

definition took :: "thr_pc \<Rightarrow> (u8 \<Rightarrow> nat) \<Rightarrow> u8 \<Rightarrow> nat" where
  "took pc t = (case pc of Clearing i n \<Rightarrow> t(i := t i + 1) | _ \<Rightarrow> t)"

definition asks :: "main_pc \<Rightarrow> (u8 \<Rightarrow> nat) \<Rightarrow> nat \<Rightarrow> nat" where
  "asks pc t k = (case pc of Requesting ch w \<Rightarrow> t ch | _ \<Rightarrow> k)"

inductive step :: "(u32 list \<Rightarrow> bool \<times> string) \<Rightarrow> (nat \<Rightarrow> u8) \<Rightarrow> config \<Rightarrow> config \<Rightarrow> bool"
  for iconv fresh where
  thread: "thr_step iconv fresh (thr c) (gts c) = Some (Inr pc, s) \<Longrightarrow>
    step iconv fresh c (c\<lparr>gts := s, thr := pc, taken := took (thr c) (taken c)\<rparr>)"
| call: "main c = Idle \<Longrightarrow> request_ts ch (gts c) = Some (Inr pc, s) \<Longrightarrow>
    step iconv fresh c (c\<lparr>gts := s, main := pc\<rparr>)"
| caller: "main_step (main c) (gts c) = Some (Inr pc, s) \<Longrightarrow>
    step iconv fresh c (c\<lparr>gts := s, main := pc, asked := asks (main c) (taken c) (asked c)\<rparr>)"

inductive reaches :: "(u32 list \<Rightarrow> bool \<times> string) \<Rightarrow> (nat \<Rightarrow> u8) \<Rightarrow> config \<Rightarrow> config \<Rightarrow> bool"
  for iconv fresh where
  start: "reaches iconv fresh c c"
| move: "reaches iconv fresh c d \<Longrightarrow> step iconv fresh d e \<Longrightarrow> reaches iconv fresh c e"

inductive_cases stepE: "step iconv fresh c d"

subsection \<open>Commands on the parts\<close>

lemma bindM_E:
  assumes "bindM m f s = Some (r, s')"
  obtains (error) e where "m s = Some (Inl e, s')" "r = Inl e"
  | (result) x s1 where "m s = Some (Inr x, s1)" "f x s1 = Some (r, s')"
  using assms unfolding bindM_Some_iff by blast

lemma on_sys_iff: "on_sys m s = Some (r, s') \<longleftrightarrow> (\<exists>w. m (sys s) = Some (r, w) \<and> s' = s\<lparr>sys := w\<rparr>)"
  by (auto simp: on_sys_def split: option.splits)

lemma on_tun_iff: "on_tun m s = Some (r, s') \<longleftrightarrow>
  (\<exists>t. m ((tun s)\<lparr>net := sys s\<rparr>) = Some (r, t) \<and> s' = s\<lparr>tun := t, sys := net t\<rparr>)"
  by (auto simp: on_tun_def split: option.splits)

lemma on_atsc_iff: "on_atsc i m s = Some (r, s') \<longleftrightarrow>
  (\<exists>a. m ((atsc s i)\<lparr>env := sys s\<rparr>) = Some (r, a) \<and> s' = s\<lparr>atsc := (atsc s)(i := a), sys := env a\<rparr>)"
  by (auto simp: on_atsc_def split: option.splits)

lemma see_iff [simp]: "see f s = Some (r, s') \<longleftrightarrow> r = Inr (f s) \<and> s' = s"
  by (auto simp: see_def)

lemma upd_iff [simp]: "upd f s = Some (r, s') \<longleftrightarrow> r = Inr () \<and> s' = f s"
  by (auto simp: upd_def)

lemma check_iff [simp]: "Sez_Mpgts.check ok s = Some (r, s') \<longleftrightarrow> s' = s \<and> r = (if ok then Inr () else Inl Sys_Error)"
  by (auto simp: Sez_Mpgts.check_def)

lemma call_iffs:
  "call ask_ok a = Some (r, a') \<longleftrightarrow> (\<exists>b es. script (env a) = Ev_ok b # es \<and> r = Inr b \<and>
     a' = a\<lparr>env := (env a)\<lparr>script := es\<rparr>\<rparr>)"
  "call ask_num a = Some (q, a') \<longleftrightarrow> (\<exists>n es. script (env a) = Ev_num n # es \<and> q = Inr n \<and>
     a' = a\<lparr>env := (env a)\<lparr>script := es\<rparr>\<rparr>)"
  "call (act x) a = Some (u, a') \<longleftrightarrow> u = Inr () \<and> a' = a\<lparr>env := emit x (env a)\<rparr>"
  by (auto simp: call_def ask_ok_def ask_num_def act_def split: list.splits os_event.splits option.splits)

lemmas part_iffs = on_sys_iff on_tun_iff on_atsc_iff cmd_iffs

lemma ask_ok_iff: "ask_ok w = Some (r, w') \<longleftrightarrow> (\<exists>b es. script w = Ev_ok b # es \<and> r = Inr b \<and> w' = w\<lparr>script := es\<rparr>)"
  by (auto simp: ask_ok_def split: list.splits os_event.splits)

lemma ask_num_iff: "ask_num w = Some (r, w') \<longleftrightarrow> (\<exists>n es. script w = Ev_num n # es \<and> r = Inr n \<and> w' = w\<lparr>script := es\<rparr>)"
  by (auto simp: ask_num_def split: list.splits os_event.splits)

subsection \<open>The packets of a datagram\<close>

lemma ts_packets_length: "length bytes = 188 * n \<Longrightarrow> \<forall>p \<in> set (ts_packets n bytes). length p = 188"
proof (induction n arbitrary: bytes)
  case (Suc n)
  then have "length (drop 188 bytes) = 188 * n" by simp
  from Suc.IH [OF this] Suc.prems show ?case by simp
qed simp

lemma ts_packets_concat: "length bytes = 188 * n \<Longrightarrow> concat (ts_packets n bytes) = bytes"
  by (induction n arbitrary: bytes) auto

lemma ts_packets_count: "length (ts_packets n bytes) = n"
  by (induction n arbitrary: bytes) auto

lemma packets_of_datagram:
  assumes "length rx = 1328"
  shows "length (packets_of rx) = 7" and "concat (packets_of rx) = drop 12 rx"
    and "\<forall>p \<in> set (packets_of rx). length p = 188"
proof -
  have l: "length (drop 12 rx) = 188 * 7" using assms by simp
  have p: "packets_of rx = ts_packets 7 (drop 12 rx)" by (simp add: packets_of_def assms)
  show "length (packets_of rx) = 7" "concat (packets_of rx) = drop 12 rx"
    "\<forall>p \<in> set (packets_of rx). length p = 188"
    unfolding p using ts_packets_count ts_packets_concat [OF l] ts_packets_length [OF l] by blast+
qed

lemma receive_cases:
  assumes "receive iconv fresh i s = Some (r, s')"
  shows "\<exists>w. s' = s\<lparr>sys := w\<rparr> \<or> (\<exists>rx. length rx = 1328 \<and>
      on_atsc i (feed iconv fresh (packets_of rx)) (s\<lparr>sys := w\<rparr>) = Some (r, s'))"
  using assms unfolding receive_def
proof (cases rule: bindM_E)
  case (result x s1)
  then obtain w where "s1 = s\<lparr>sys := w\<rparr>" by (auto simp: on_sys_iff)
  with result(2) show ?thesis by (intro exI [of _ w]) (auto split: option.splits if_splits)
qed (auto simp: on_sys_iff)

subsection \<open>What the receiver asks of a demultiplexer\<close>

locale demultiplexer =
  fixes I :: "mpgatsc \<Rightarrow> bool" and iconv :: "u32 list \<Rightarrow> bool \<times> string" and fresh :: "nat \<Rightarrow> u8"
  assumes env_irrelevant: "I (a\<lparr>env := w\<rparr>) = I a"
    and channel_irrelevant: "I (a\<lparr>tv_ch := c\<rparr>) = I a"
    and init_keeps: "I a \<Longrightarrow> atsc_init a = Some (r, a') \<Longrightarrow> I a'"
    and packet_keeps: "I a \<Longrightarrow> length p = 188 \<Longrightarrow> thread_demux iconv fresh p a = Some (r, a') \<Longrightarrow> I a'"
begin

lemma feed_keeps:
  "I a \<Longrightarrow> \<forall>p \<in> set ps. length p = 188 \<Longrightarrow> feed iconv fresh ps a = Some (r, a') \<Longrightarrow> I a'"
proof (induction ps arbitrary: a)
  case (Cons p ps)
  from Cons.prems(3) consider e where "thread_demux iconv fresh p a = Some (Inl e, a')"
    | x a1 where "thread_demux iconv fresh p a = Some (Inr x, a1)"
        "(if x then ret True else feed iconv fresh ps) a1 = Some (r, a')"
    by (auto simp: bindM_Some_iff)
  then show ?case
  proof cases
    case 1
    have "length p = 188" using Cons.prems(2) by simp
    from packet_keeps [OF Cons.prems(1) this 1] show ?thesis .
  next
    case 2
    have "length p = 188" using Cons.prems(2) by simp
    from packet_keeps [OF Cons.prems(1) this 2(1)] have "I a1" .
    with 2(2) Cons.IH [of a1] Cons.prems(2) show ?thesis by (cases x) simp_all
  qed
qed simp

definition both :: "mpgts \<Rightarrow> bool" where
  "both s \<longleftrightarrow> (\<forall>i. I (atsc s i))"

lemma on_atsc_both:
  assumes "both s" and "on_atsc i m s = Some (r, s')"
    and "\<And>a a'. I a \<Longrightarrow> m a = Some (r, a') \<Longrightarrow> I a'"
  shows "both s'"
proof -
  from assms(2) obtain a where "m ((atsc s i)\<lparr>env := sys s\<rparr>) = Some (r, a)"
    and s': "s' = s\<lparr>atsc := (atsc s)(i := a), sys := env a\<rparr>" by (auto simp: on_atsc_iff)
  moreover have "I ((atsc s i)\<lparr>env := sys s\<rparr>)" using assms(1) by (simp add: both_def env_irrelevant)
  ultimately have "I a" using assms(3) by blast
  with assms(1) show ?thesis by (simp add: both_def s')
qed

lemma receive_both: "both s \<Longrightarrow> receive iconv fresh i s = Some (r, s') \<Longrightarrow> both s'"
proof -
  assume b: "both s" and run: "receive iconv fresh i s = Some (r, s')"
  from receive_cases [OF run] consider w where "s' = s\<lparr>sys := w\<rparr>"
    | w rx where "length rx = 1328" "on_atsc i (feed iconv fresh (packets_of rx)) (s\<lparr>sys := w\<rparr>) = Some (r, s')"
    by blast
  then show "both s'"
  proof cases
    case 1
    with b show ?thesis by (simp add: both_def)
  next
    case 2
    have "both (s\<lparr>sys := w\<rparr>)" using b by (simp add: both_def)
    from on_atsc_both [OF this 2(2)] feed_keeps packets_of_datagram(3) [OF 2(1)] show ?thesis by blast
  qed
qed

lemma thr_step_both:
  assumes "both s" and "thr_step iconv fresh pc s = Some (r, s')"
  shows "both s'"
proof (cases pc)
  case (Resetting i n)
  from assms(2) obtain q s1 where 1: "on_atsc i atsc_init s = Some (q, s1)" and s': "s' = s1"
    by (auto simp: Resetting bindM_Some_iff)
  from on_atsc_both [OF assms(1) 1] init_keeps show ?thesis unfolding s' by blast
next
  case (Receiving i n)
  with assms show ?thesis by (auto simp: bindM_Some_iff dest: receive_both split: if_splits)
qed (use assms in \<open>auto simp: both_def part_iffs split: if_splits\<close>)

lemma main_step_both:
  assumes "both s" and "main_step pc s = Some (r, s')"
  shows "both s'"
  using assms by (cases pc) (auto simp: both_def part_iffs channel_irrelevant split: if_splits)

lemma step_both: "step iconv fresh c d \<Longrightarrow> both (gts c) \<Longrightarrow> both (gts d)"
proof (induction rule: step.induct)
  case (thread c pc s)
  from thr_step_both [OF thread(2,1)] show ?case by simp
next
  case (call c ch pc s)
  then show ?case by (auto simp: request_ts_def cmd_iffs both_def split: if_splits)
next
  case (caller c pc s)
  from main_step_both [OF caller(2,1)] show ?case by simp
qed

lemma reaches_both: "reaches iconv fresh c d \<Longrightarrow> both (gts c) \<Longrightarrow> both (gts d)"
  by (induction rule: reaches.induct) (auto dest: step_both)

end

lemma collect_inv_fields:
  "collect_inv (a\<lparr>env := w\<rparr>) = collect_inv a" "collect_inv (a\<lparr>tv_ch := c\<rparr>) = collect_inv a"
  by (simp_all add: collect_inv_def demux_inv_def pat_inv_def collected_def)

text \<open>\<^verbatim>\<open>init\<close> keeps what the demultiplexer maintains: it touches no buffer, and counts all as empty.\<close>

definition collect_kept :: "mpgatsc \<Rightarrow> mpgatsc \<Rightarrow> bool" where
  "collect_kept a a' \<longleftrightarrow> (collect_inv a \<longrightarrow> collect_inv a')"

interpretation collect: state_order collect_kept
  by unfold_locales (simp_all add: collect_kept_def)

lemma collect_quiet [simp]:
  "keeps collect_kept (look g)" "keeps collect_kept (need v)" "keeps collect_kept (call m)"
  by (auto simp: keeps_def collect_kept_def collect_inv_fields call_def split: option.splits)

lemma collect_put:
  assumes "\<And>a. pktlist (f a) = pktlist a \<and> (pktlen (f a) = pktlen a \<or> pktlen (f a) = (\<lambda>_. 0)) \<and>
     pat (f a) = pat a \<and> pat_max (f a) = pat_max a"
  shows "keeps collect_kept (put f)"
proof -
  have "collect_inv (f a)" if "collect_inv a" for a
  proof (cases "pktlen (f a) = pktlen a")
    case True
    then have "collected (f a) = collected a" using assms [of a] by (simp add: collected_def fun_eq_iff)
    with that assms [of a] True show ?thesis by (simp add: collect_inv_def demux_inv_def pat_inv_def)
  next
    case False
    then have "pktlen (f a) = (\<lambda>_. 0)" using assms [of a] by blast
    with that assms [of a] show ?thesis
      by (simp add: collect_inv_def demux_inv_def pat_inv_def collected_def)
  qed
  then show ?thesis by (simp add: keeps_def collect_kept_def)
qed

lemma collect_inv_init: "collect_inv a \<Longrightarrow> atsc_init a = Some (r, a') \<Longrightarrow> collect_inv a'"
proof -
  have "keeps collect_kept atsc_init"
    unfolding atsc_init_def open_iconv_def free_vct_def restart_dump_def close_dump_def
    by (auto intro!: collect.keeps_intros collect_put)
  then show "collect_inv a \<Longrightarrow> atsc_init a = Some (r, a') \<Longrightarrow> collect_inv a'"
    by (auto simp: keeps_def collect_kept_def)
qed

lemma collect_inv_packet:
  assumes "collect_inv a" and "length p = 188" and "thread_demux iconv fresh p a = Some (r, a')"
  shows "collect_inv a'"
proof -
  have "pkt_pid p \<noteq> None" using assms(2) by (simp add: pkt_pid_def rd_simps)
  then obtain pid where "pkt_pid p = Some pid" by blast
  from demux_step [OF assms(1,2) this assms(3)] show ?thesis by blast
qed

interpretation reassembly: demultiplexer collect_inv iconv fresh for iconv fresh
  by (rule demultiplexer.intro [OF collect_inv_fields collect_inv_init collect_inv_packet])

lemma pids_bounded_fields:
  "pids_bounded (a\<lparr>env := w\<rparr>) = pids_bounded a" "pids_bounded (a\<lparr>tv_ch := c\<rparr>) = pids_bounded a"
  by (simp_all add: pids_bounded_def)

lemma pids_bounded_init: "pids_bounded a \<Longrightarrow> atsc_init a = Some (r, a') \<Longrightarrow> pids_bounded a'"
  using keepsD [OF bnd_init] by (auto simp: bounded_kept_def)

lemma pids_bounded_packet:
  "pids_bounded a \<Longrightarrow> length p = 188 \<Longrightarrow> thread_demux iconv fresh p a = Some (r, a') \<Longrightarrow> pids_bounded a'"
  using keepsD [OF bnd_thread_demux] by (auto simp: bounded_kept_def)

interpretation bounded: demultiplexer pids_bounded iconv fresh for iconv fresh
  by (rule demultiplexer.intro [OF pids_bounded_fields pids_bounded_init pids_bounded_packet])

text \<open>C5: However the thread and the callers of \<^verbatim>\<open>start_ts\<close> interleave, and whatever arrives on the
  sockets, both demultiplexers keep their invariant: no buffer is over-counted, no complete
  section is left lying, and buffers belong to PIDs of 13 bits.\<close>

theorem receiver_invariant:
  assumes "reaches iconv fresh c d" and "\<forall>i. collect_inv (atsc (gts c) i) \<and> pids_bounded (atsc (gts c) i)"
  shows "\<forall>i. collect_inv (atsc (gts d) i) \<and> pids_bounded (atsc (gts d) i)"
  using reassembly.reaches_both [OF assms(1)] bounded.reaches_both [OF assms(1)] assms(2)
  by (simp add: reassembly.both_def bounded.both_def)

subsection \<open>The handshake\<close>

definition boot :: "mpgts \<Rightarrow> config" where
  "boot s = \<lparr>gts = s, main = Idle, thr = Polling, taken = (\<lambda>_. 0), asked = 0\<rparr>"

text \<open>What holds between the steps: the flags are \<^verbatim>\<open>int\<close>s and not negative, the pending call
  has seen no request taken that was not, and once its flag is gone the request was taken.\<close>

definition handshake_inv :: "config \<Rightarrow> bool" where
  "handshake_inv c \<longleftrightarrow> (\<forall>i. 0 \<le> want_reset (gts c) i \<and> want_reset (gts c) i \<le> int_max) \<and>
    (case main c of
       Requesting ch w \<Rightarrow> ch < 2 \<and> 0 \<le> w \<and> w \<le> int_max
     | Waiting ch k \<Rightarrow> ch < 2 \<and> k \<le> 3 \<and> asked c \<le> taken c ch \<and>
         (want_reset (gts c) ch = 0 \<longrightarrow> asked c < taken c ch)
     | Tuning ch \<Rightarrow> ch < 2 \<and> asked c < taken c ch
     | _ \<Rightarrow> True)"

lemma receive_want: "receive iconv fresh i s = Some (r, s') \<Longrightarrow> want_reset s' = want_reset s"
  by (drule receive_cases) (auto simp: on_atsc_iff)

lemma thr_step_want:
  assumes "thr_step iconv fresh pc s = Some (Inr pc', s')"
  shows "want_reset s' = want_reset s \<and> took pc t = t \<or>
    (\<exists>i n. pc = Clearing i n \<and> pc' = Resetting i n \<and> want_reset s' = (want_reset s)(i := 0) \<and>
      took pc t = t(i := t i + 1))"
  using assms
  by (cases pc) (auto simp: took_def part_iffs dest: receive_want split: if_splits)

lemma handshake_step: "step iconv fresh c d \<Longrightarrow> handshake_inv c \<Longrightarrow> handshake_inv d"
proof (induction rule: step.induct)
  case (thread c pc s)
  from thr_step_want [OF thread(1), of "taken c"] show ?case
  proof (elim disjE exE conjE)
    assume "want_reset s = want_reset (gts c)" "took (thr c) (taken c) = taken c"
    with thread(2) show ?thesis by (auto simp: handshake_inv_def split: main_pc.splits)
  next
    fix i n
    assume "want_reset s = (want_reset (gts c))(i := 0)"
      "took (thr c) (taken c) = (taken c)(i := taken c i + 1)"
    with thread(2) show ?thesis
      by (auto simp: handshake_inv_def int_max_def split: main_pc.splits)
  qed
next
  case (call c ch pc s)
  then show ?case
    by (auto simp: handshake_inv_def request_ts_def cmd_iffs not_le split: if_splits)
next
  case (caller c pc s)
  then show ?case
    by (cases "main c") (auto simp: handshake_inv_def asks_def part_iffs usleep_def split: if_splits)
qed

lemma handshake_reaches: "reaches iconv fresh c d \<Longrightarrow> handshake_inv c \<Longrightarrow> handshake_inv d"
  by (induction rule: reaches.induct) (auto dest: handshake_step)

text \<open>C19: A call of \<^verbatim>\<open>start_ts\<close> goes on to the tuner only if the thread has stored 0 to the
  channel's flag after this very call stored its request there; the store of an earlier request
  that the thread had seen set before, and clears only now, counts like any other. The call looks
  at the flag three times at most, and the flag stays within an \<^verbatim>\<open>int\<close>.\<close>

theorem start_ts_after_request:
  assumes "reaches iconv fresh (boot s) c" and "\<forall>i. want_reset s i = 0"
  shows "(\<forall>ch. main c = Tuning ch \<longrightarrow> ch < 2 \<and> asked c < taken c ch) \<and>
    (\<forall>ch k. main c = Waiting ch k \<longrightarrow> k \<le> 3) \<and>
    (\<forall>i. 0 \<le> want_reset (gts c) i \<and> want_reset (gts c) i \<le> int_max)"
proof -
  have "handshake_inv (boot s)" using assms(2) by (simp add: handshake_inv_def boot_def int_max_def)
  from handshake_reaches [OF assms(1) this] show ?thesis by (auto simp: handshake_inv_def)
qed

lemma step_intros:
  "thr_step iconv fresh (thr c) (gts c) = Some (Inr pc, s) \<Longrightarrow>
    d = c\<lparr>gts := s, thr := pc, taken := took (thr c) (taken c)\<rparr> \<Longrightarrow> step iconv fresh c d"
  "main c = Idle \<Longrightarrow> request_ts ch (gts c) = Some (Inr m, s) \<Longrightarrow>
    d = c\<lparr>gts := s, main := m\<rparr> \<Longrightarrow> step iconv fresh c d"
  "main_step (main c) (gts c) = Some (Inr m, s) \<Longrightarrow>
    d = c\<lparr>gts := s, main := m, asked := asks (main c) (taken c) (asked c)\<rparr> \<Longrightarrow> step iconv fresh c d"
  by (auto intro: step.intros)

lemma reaches_trans: "reaches iconv fresh d e \<Longrightarrow> reaches iconv fresh c d \<Longrightarrow> reaches iconv fresh c e"
  by (induction rule: reaches.induct) (auto intro: reaches.move)

lemma reaches_step: "step iconv fresh c d \<Longrightarrow> reaches iconv fresh d e \<Longrightarrow> reaches iconv fresh c e"
  by (rule reaches_trans) (auto intro: reaches.intros)

lemmas run_simps = thenM_def io_simps see_def upd_def on_sys_def ask_num_def request_ts_def took_def asks_def

text \<open>The thread looks at the flag of a channel that was requested: from the first flag on, it takes the request.\<close>

lemma thread_takes:
  fixes ch :: u8
  assumes "ch < 2" and "\<forall>i. want_reset s i = (if i = ch then 1 else 0)"
  shows "reaches iconv fresh \<lparr>gts = s, main = m, thr = Check 0 n, taken = t, asked = k\<rparr>
    \<lparr>gts = s\<lparr>want_reset := (want_reset s)(ch := 0)\<rparr>, main = m, thr = Resetting ch n,
      taken = t(ch := t ch + 1), asked = k\<rparr>" (is "reaches _ _ _ ?e")
proof -
  let ?at = "\<lambda>pc. \<lparr>gts = s, main = m, thr = pc, taken = t, asked = k\<rparr>"
  have sees: "step iconv fresh (?at (Check ch n)) (?at (Clearing ch n))"
    by (rule step_intros(1) [where pc = "Clearing ch n" and s = s])
      (use assms in \<open>simp_all add: run_simps\<close>)
  have "step iconv fresh (?at (Clearing ch n)) ?e"
    by (rule step_intros(1) [where pc = "Resetting ch n" and s = "s\<lparr>want_reset := (want_reset s)(ch := 0)\<rparr>"])
      (simp_all add: run_simps)
  with sees have last: "reaches iconv fresh (?at (Check ch n)) ?e"
    by (blast intro: reaches.intros)
  have "ch = 0 \<or> ch = 1" using assms(1) by unat_arith
  then show ?thesis
  proof
    assume "ch = 0"
    with last show ?thesis by simp
  next
    assume 1: "ch = 1"
    then have "step iconv fresh (?at (Check 0 n)) (?at (Check ch n))"
      by (intro step_intros(1) [where pc = "Check ch n" and s = s]) (use assms in \<open>simp_all add: run_simps\<close>)
    then show ?thesis by (rule reaches_step [OF _ last])
  qed
qed

text \<open>A call of \<^verbatim>\<open>start_ts\<close> while the thread waits, up to the moment both go on.\<close>

lemma early_run:
  fixes ch :: u8
  assumes "script (sys s) = Ev_num n # es" and "0 \<le> n" and "ch < 2" and "\<forall>i. want_reset s i = 0"
  shows "reaches iconv fresh (boot s)
    \<lparr>gts = s\<lparr>sys := (sys s)\<lparr>script := es\<rparr>, want_reset := (\<lambda>_. 0)\<rparr>, main = Tuning ch,
     thr = Resetting ch n, taken = (\<lambda>_. 0)(ch := 1), asked = 0\<rparr>" (is "reaches _ _ _ ?e")
proof -
  have w: "want_reset s = (\<lambda>_. 0)" using assms(4) by (simp add: fun_eq_iff)
  let ?s1 = "s\<lparr>want_reset := (\<lambda>_. 0)(ch := 1)\<rparr>"
  let ?s2 = "?s1\<lparr>sys := (sys s)\<lparr>script := es\<rparr>\<rparr>"
  let ?q = "\<lambda>s m pc. \<lparr>gts = s, main = m, thr = pc, taken = (\<lambda>_. 0), asked = 0\<rparr>"
  have 0: "step iconv fresh (boot s) (?q s (Requesting ch 0) Polling)"
    by (rule step_intros(2) [where ch = ch]) (use assms(3) in \<open>simp_all add: boot_def run_simps w not_le\<close>)
  have 1: "step iconv fresh (?q s (Requesting ch 0) Polling) (?q ?s1 (Waiting ch 0) Polling)"
    by (rule step_intros(3)) (simp_all add: run_simps w int_max_def)
  have 2: "step iconv fresh (?q ?s1 (Waiting ch 0) Polling) (?q ?s2 (Waiting ch 0) (Check 0 n))"
    by (rule step_intros(1)) (use assms in \<open>simp_all add: run_simps\<close>)
  have 3: "reaches iconv fresh (?q ?s2 (Waiting ch 0) (Check 0 n))
      \<lparr>gts = ?s2\<lparr>want_reset := (want_reset ?s2)(ch := 0)\<rparr>, main = Waiting ch 0, thr = Resetting ch n,
       taken = (\<lambda>_. 0)(ch := (\<lambda>_. 0) ch + 1), asked = 0\<rparr>"
    using assms(3) by (rule thread_takes) simp
  have 4: "step iconv fresh \<lparr>gts = ?s2\<lparr>want_reset := (want_reset ?s2)(ch := 0)\<rparr>, main = Waiting ch 0,
      thr = Resetting ch n, taken = (\<lambda>_. 0)(ch := (\<lambda>_. 0) ch + 1), asked = 0\<rparr> ?e"
    by (rule step_intros(3)) (simp_all add: run_simps fun_eq_iff)
  from reaches.move [OF 3 4] show ?thesis
    by (rule reaches_step [OF 0 reaches_step [OF 1 reaches_step [OF 2]]])
qed

definition receiver_example :: mpgts where
  "receiver_example = new_mpgts 0 \<lparr>script = [Ev_num 2], trace = [], blocks = 0\<rparr>"

lemma early_example:
  obtains c where "reaches (\<lambda>_. (True, [])) (\<lambda>_. 0) (boot receiver_example) c" "main c = Tuning 1"
  using early_run [of receiver_example 2 "[]" 1 "\<lambda>_. (True, [])" "\<lambda>_. 0"]
  by (auto simp: receiver_example_def new_mpgts_def)

theorem start_ts_after_request_witness:
  "\<exists>c. reaches (\<lambda>_. (True, [])) (\<lambda>_. 0) (boot receiver_example) c \<and>
     main c = Tuning 1 \<and> asked c < taken c 1"
proof -
  obtain c where c: "reaches (\<lambda>_. (True, [])) (\<lambda>_. 0) (boot receiver_example) c" "main c = Tuning 1"
    by (rule early_example)
  have "\<forall>i. want_reset receiver_example i = 0" by (simp add: receiver_example_def new_mpgts_def)
  from start_ts_after_request [OF c(1) this] c show ?thesis by blast
qed

theorem receiver_invariant_witness:
  "\<exists>c. reaches (\<lambda>_. (True, [])) (\<lambda>_. 0) (boot receiver_example) c \<and> main c = Tuning 1 \<and>
     (\<forall>i. collect_inv (atsc (gts c) i) \<and> pids_bounded (atsc (gts c) i))"
proof -
  obtain c where c: "reaches (\<lambda>_. (True, [])) (\<lambda>_. 0) (boot receiver_example) c" "main c = Tuning 1"
    by (rule early_example)
  have "\<forall>i. collect_inv (atsc (gts (boot receiver_example)) i) \<and> pids_bounded (atsc (gts (boot receiver_example)) i)"
    by (simp add: receiver_example_def boot_def new_mpgts_def new_mpgatsc_def collect_inv_def demux_inv_def
        pat_inv_def collected_def pids_bounded_def)
  from receiver_invariant [OF c(1) this] c show ?thesis by blast
qed

text \<open>The flag is cleared before \<^verbatim>\<open>init\<close> has run: \<^verbatim>\<open>start_ts\<close> can go on to the tuner while the
  demultiplexer still has the state of the channel tuned before.\<close>

theorem reset_acknowledged_early:
  assumes "script (sys s) = Ev_num n # es" and "0 \<le> n" and "ch < 2" and "\<forall>i. want_reset s i = 0"
  shows "\<exists>c. reaches iconv fresh (boot s) c \<and> main c = Tuning ch \<and> thr c = Resetting ch n \<and>
    atsc (gts c) = atsc s"
  by (intro exI conjI, rule early_run [OF assms]) simp_all

theorem reset_acknowledged_early_witness:
  "\<exists>c. reaches (\<lambda>_. (True, [])) (\<lambda>_. 0)
     (boot (new_mpgts 0 \<lparr>script = [Ev_num 0], trace = [], blocks = 0\<rparr>)) c \<and>
     main c = Tuning 1 \<and> thr c = Resetting 1 0"
  using reset_acknowledged_early [of "new_mpgts 0 \<lparr>script = [Ev_num 0], trace = [], blocks = 0\<rparr>" 0 "[]" 1
      "\<lambda>_. (True, [])" "\<lambda>_. 0"]
  by (auto simp: new_mpgts_def)

definition dead_inv :: "config \<Rightarrow> bool" where
  "dead_inv c \<longleftrightarrow> thr c = Returned_0 \<and> (\<forall>i. 0 \<le> want_reset (gts c) i) \<and>
    (case main c of Requesting ch w \<Rightarrow> 0 \<le> w | Waiting ch k \<Rightarrow> want_reset (gts c) ch \<noteq> 0
     | Tuning ch \<Rightarrow> False | Returned b \<Rightarrow> b | Idle \<Rightarrow> True)"

lemma dead_step: "step iconv fresh c d \<Longrightarrow> dead_inv c \<Longrightarrow> dead_inv d"
proof (induction rule: step.induct)
  case (thread c pc s)
  then show ?case by (simp add: dead_inv_def)
next
  case (call c ch pc s)
  then show ?case by (auto simp: dead_inv_def request_ts_def cmd_iffs split: if_splits)
next
  case (caller c pc s)
  then show ?case
    by (cases "main c") (auto simp: dead_inv_def part_iffs usleep_def split: if_splits)
qed

lemma dead_reaches: "reaches iconv fresh c d \<Longrightarrow> dead_inv c \<Longrightarrow> dead_inv d"
  by (induction rule: reaches.induct) (auto dest: dead_step)

text \<open>C34: Once the thread has returned, every later call of \<^verbatim>\<open>start_ts\<close> fails and never reaches the tuner.\<close>

theorem dead_thread_fails_start:
  assumes "reaches iconv fresh c d" and "thr c = Returned_0" and "main c = Idle"
    and "\<forall>i. 0 \<le> want_reset (gts c) i"
  shows "(\<forall>ch. main d \<noteq> Tuning ch) \<and> main d \<noteq> Returned False"
proof -
  have "dead_inv c" using assms(2-4) by (simp add: dead_inv_def)
  from dead_reaches [OF assms(1) this] show ?thesis by (auto simp: dead_inv_def)
qed

theorem dead_thread_fails_start_witness:
  "\<exists>d. reaches (\<lambda>_. (True, [])) (\<lambda>_. 0)
     ((boot (new_mpgts 0 \<lparr>script = [], trace = [], blocks = 0\<rparr>))\<lparr>thr := Returned_0\<rparr>) d \<and>
     main d = Returned True \<and> trace (sys (gts d)) = [Slept 100000, Slept 100000, Slept 100000] \<and>
     (\<forall>ch. main d \<noteq> Tuning ch)"
proof -
  let ?s = "\<lambda>tr. (new_mpgts 0 \<lparr>script = [], trace = [], blocks = 0\<rparr>)
    \<lparr>sys := \<lparr>script = [], trace = tr, blocks = 0\<rparr>, want_reset := (\<lambda>_. 0)(0 := 1)\<rparr>"
  let ?c = "\<lambda>tr m. \<lparr>gts = ?s tr, main = m, thr = Returned_0, taken = (\<lambda>_. 0), asked = 0\<rparr>"
  let ?boot = "(boot (new_mpgts 0 \<lparr>script = [], trace = [], blocks = 0\<rparr>))\<lparr>thr := Returned_0\<rparr>"
  have "step (\<lambda>_. (True, [])) (\<lambda>_. 0) ?boot (?boot\<lparr>main := Requesting 0 0\<rparr>)"
    by (rule step_intros(2) [where ch = 0]) (simp_all add: boot_def new_mpgts_def run_simps)
  moreover have "step (\<lambda>_. (True, [])) (\<lambda>_. 0) (?boot\<lparr>main := Requesting 0 0\<rparr>) (?c [] (Waiting 0 0))"
    by (rule step_intros(3)) (simp_all add: boot_def new_mpgts_def run_simps int_max_def)
  ultimately have call: "reaches (\<lambda>_. (True, [])) (\<lambda>_. 0) ?boot (?c [] (Waiting 0 0))"
    by (blast intro: reaches.intros)
  have wait: "step (\<lambda>_. (True, [])) (\<lambda>_. 0) (?c tr (Waiting 0 k)) (?c (tr @ [Slept 100000]) (Waiting 0 j))"
    if "k < 3" "j = k + 1" for tr k j
    by (rule step_intros(3)) (use that in \<open>simp_all add: new_mpgts_def run_simps usleep_def emit_def\<close>)
  have last: "step (\<lambda>_. (True, [])) (\<lambda>_. 0) (?c tr (Waiting 0 3)) (?c tr (Returned True))" for tr
    by (rule step_intros(3)) (simp_all add: run_simps)
  have 1: "reaches (\<lambda>_. (True, [])) (\<lambda>_. 0) ?boot (?c ([] @ [Slept 100000]) (Waiting 0 1))"
    by (rule reaches.move [OF call wait]) simp_all
  have 2: "reaches (\<lambda>_. (True, [])) (\<lambda>_. 0) ?boot (?c (([] @ [Slept 100000]) @ [Slept 100000]) (Waiting 0 2))"
    by (rule reaches.move [OF 1 wait]) simp_all
  have 3: "reaches (\<lambda>_. (True, [])) (\<lambda>_. 0) ?boot
      (?c ((([] @ [Slept 100000]) @ [Slept 100000]) @ [Slept 100000]) (Waiting 0 3))"
    by (rule reaches.move [OF 2 wait]) simp_all
  have r: "reaches (\<lambda>_. (True, [])) (\<lambda>_. 0) ?boot
      (?c ((([] @ [Slept 100000]) @ [Slept 100000]) @ [Slept 100000]) (Returned True))"
    by (rule reaches.move [OF 3 last])
  obtain d where d: "reaches (\<lambda>_. (True, [])) (\<lambda>_. 0) ?boot d" "main d = Returned True"
    "trace (sys (gts d)) = [Slept 100000, Slept 100000, Slept 100000]"
    by (rule that, rule r) simp_all
  have "thr ?boot = Returned_0" "main ?boot = Idle" "\<forall>i. 0 \<le> want_reset (gts ?boot) i"
    by (simp_all add: boot_def new_mpgts_def)
  from dead_thread_fails_start [OF d(1) this] have "\<forall>ch. main d \<noteq> Tuning ch" by (rule conjunct1)
  with d show ?thesis by blast
qed

subsection \<open>Closing\<close>

lemma close_udp_run:
  "close_udp i s = Some (r, s') \<longleftrightarrow> r = Inr () \<and>
    s' = (if udp_sock s i = -1 then s
          else s\<lparr>sys := emit (Closed (udp_sock s i)) (sys s), udp_sock := (udp_sock s)(i := -1)\<rparr>)"
  by (auto simp: close_udp_def part_iffs act_def)

lemma stop_thread_run:
  assumes "stop_thread s = Some (r, s')"
  shows "r = Inr () \<and> \<not> tsth s' \<and> udp_sock s' = udp_sock s \<and> tcp_sock s' = tcp_sock s \<and>
    trace (sys s') = trace (sys s)"
  using assms by (auto simp: stop_thread_def part_iffs ask_ok_iff split: if_splits)

lemma close_run:
  assumes "mpgts_close beyond s = Some (r, s')" and "tcp_sock s \<noteq> -1"
  shows "r = Inr () \<and> tcp_sock s' = -1 \<and> udp_sock s' 0 = -1 \<and> udp_sock s' 1 = -1 \<and> \<not> tsth s' \<and>
    (\<exists>tr. trace (sys s') = trace (sys s) @ tr @ [Closed (tcp_sock s)] @
      map Closed (filter (\<lambda>fd. fd \<noteq> -1) [udp_sock s 0, udp_sock s 1]))"
proof -
  from assms(1) obtain x t1 where 1: "on_tun (tuner_close beyond (tcp_sock s)) s = Some (x, t1)"
    and k: "\<And>fd. x = Inr fd \<Longrightarrow> thenM stop_thread (thenM (close_udp 0) (close_udp 1)) (t1\<lparr>tcp_sock := fd\<rparr>) = Some (r, s')"
    by (auto simp: mpgts_close_def cmd_iffs)
  from 1 obtain t where t: "tuner_close beyond (tcp_sock s) ((tun s)\<lparr>net := sys s\<rparr>) = Some (x, t)"
    and t1: "t1 = s\<lparr>tun := t, sys := net t\<rparr>" by (auto simp: on_tun_iff)
  from tuner_close_closes [OF t assms(2)] obtain tr where x: "x = Inr (-1)"
    and tr: "trace (net t) = trace (sys s) @ tr @ [Closed (tcp_sock s)]" by auto
  from k [OF x] obtain s2 where 2: "stop_thread (t1\<lparr>tcp_sock := -1\<rparr>) = Some (Inr (), s2)"
    and 3: "thenM (close_udp 0) (close_udp 1) s2 = Some (r, s')"
    by (auto simp: thenM_Some_iff dest: stop_thread_run)
  from stop_thread_run [OF 2] t1 tr have s2: "\<not> tsth s2" "udp_sock s2 = udp_sock s" "tcp_sock s2 = -1"
    "trace (sys s2) = trace (sys s) @ tr @ [Closed (tcp_sock s)]" by auto
  from 3 s2 show ?thesis by (auto simp: thenM_Some_iff close_udp_run)
qed

text \<open>C21: \<^verbatim>\<open>close\<close> closes the tuner's descriptor and then both UDP sockets, each once and each that is open,
  whatever the tuner answers and however the thread is joined; it leaves nothing for a second
  \<^verbatim>\<open>close\<close> to do.\<close>

theorem mpgts_close_closes:
  assumes "mpgts_close beyond s = Some (r, s')" and "tcp_sock s \<noteq> -1"
  shows "r = Inr () \<and> tcp_sock s' = -1 \<and> udp_sock s' 0 = -1 \<and> udp_sock s' 1 = -1 \<and> \<not> tsth s' \<and>
    (\<exists>tr. trace (sys s') = trace (sys s) @ tr @ [Closed (tcp_sock s)] @
      map Closed (filter (\<lambda>fd. fd \<noteq> -1) [udp_sock s 0, udp_sock s 1]))"
  by (rule close_run [OF assms])

theorem mpgts_close_closes_witness:
  "case mpgts_close (\<lambda>_. 0) ((new_mpgts 0 \<lparr>script = [Ev_ok True, Ev_ok True], trace = [], blocks = 0\<rparr>)
       \<lparr>tcp_sock := 5, udp_sock := (\<lambda>_. -1)(1 := 7), tsth := True\<rparr>) of
     Some (r, s') \<Rightarrow> tcp_sock s' = -1 \<and> udp_sock s' 1 = -1 \<and> trace (sys s') = [Closed 5, Closed 7]
   | None \<Rightarrow> False"
proof -
  let ?s = "(new_mpgts 0 \<lparr>script = [Ev_ok True, Ev_ok True], trace = [], blocks = 0\<rparr>)
       \<lparr>tcp_sock := 5, udp_sock := (\<lambda>_. -1)(1 := 7), tsth := True\<rparr>"
  have t: "(new_tuner 0 w)\<lparr>net := w'\<rparr> = new_tuner 0 w'" "net (new_tuner 0 w) = w" for w w'
    by (simp_all add: new_tuner_def)
  have a: "set_antenna (\<lambda>_. 0) nc (new_tuner 0 w) = Some (Inr (), new_tuner 0 w)" for w
    by (simp add: set_antenna_def apply_antenna_def thenM_def io_simps new_tuner_def)
  obtain r s' where c: "mpgts_close (\<lambda>_. 0) ?s = Some (r, s')" and tr: "trace (sys s') = [Closed 5, Closed 7]"
    by (simp add: mpgts_close_def tuner_close_def io_simps sock_def socket_close_def new_mpgts_def
        see_def upd_def on_tun_def on_sys_def thenM_def a t stop_thread_def close_udp_def ask_ok_def act_def)
  from mpgts_close_closes [OF c] tr show ?thesis unfolding c by simp
qed

end
