(* ===== verification/Sez_Logic.thy ===== *)
theory Sez_Logic
  imports Sez_World
begin

text \<open>
  Triples for commands: from a state in \<open>P\<close> every value \<open>x\<close> comes with a state in \<open>Q x\<close> and every
  error with one in \<open>E\<close>. They carry invariants that hold between the steps of a command but not
  after each of its errors, which \<open>keeps\<close> cannot say.
\<close>

definition triple :: "('s \<Rightarrow> bool) \<Rightarrow> ('s, 'a) cmd \<Rightarrow> ('a \<Rightarrow> 's \<Rightarrow> bool) \<Rightarrow> ('s \<Rightarrow> bool) \<Rightarrow> bool" where
  "triple P m Q E \<longleftrightarrow>
    (\<forall>s. P s \<longrightarrow> (\<forall>x s'. m s = Some (Inr x, s') \<longrightarrow> Q x s') \<and> (\<forall>e s'. m s = Some (Inl e, s') \<longrightarrow> E s'))"

lemma tripleI:
  "(\<And>s x s'. P s \<Longrightarrow> m s = Some (Inr x, s') \<Longrightarrow> Q x s') \<Longrightarrow>
   (\<And>s e s'. P s \<Longrightarrow> m s = Some (Inl e, s') \<Longrightarrow> E s') \<Longrightarrow> triple P m Q E"
  unfolding triple_def by blast

lemma triple_value: "triple P m Q E \<Longrightarrow> P s \<Longrightarrow> m s = Some (Inr x, s') \<Longrightarrow> Q x s'"
  unfolding triple_def by blast

lemma triple_error: "triple P m Q E \<Longrightarrow> P s \<Longrightarrow> m s = Some (Inl e, s') \<Longrightarrow> E s'"
  unfolding triple_def by blast

lemma triple_conseq:
  "triple P m Q E \<Longrightarrow> (\<And>s. P' s \<Longrightarrow> P s) \<Longrightarrow> (\<And>x s. Q x s \<Longrightarrow> Q' x s) \<Longrightarrow> (\<And>s. E s \<Longrightarrow> E' s) \<Longrightarrow>
   triple P' m Q' E'"
  unfolding triple_def by blast

lemma triple_pre: "triple P m Q E \<Longrightarrow> (\<And>s. P' s \<Longrightarrow> P s) \<Longrightarrow> triple P' m Q E"
  by (rule triple_conseq)

lemma triple_post: "triple P m Q E \<Longrightarrow> (\<And>x s. Q x s \<Longrightarrow> Q' x s) \<Longrightarrow> triple P m Q' E"
  by (rule triple_conseq)

lemma triple_ret: "(\<And>s. P s \<Longrightarrow> Q x s) \<Longrightarrow> triple P (ret x) Q E"
  by (rule tripleI) auto

lemma triple_fail: "(\<And>s. P s \<Longrightarrow> E s) \<Longrightarrow> triple P (fail e) Q E"
  by (rule tripleI) auto

lemma triple_none: "triple P (\<lambda>_. None) Q E"
  by (simp add: triple_def)

lemma triple_bind:
  "triple P m R E \<Longrightarrow> (\<And>x. triple (R x) (f x) Q E) \<Longrightarrow> triple P (bindM m f) Q E"
  by (rule tripleI) (auto simp: bindM_Some_iff dest: triple_value triple_error)

lemma triple_then: "triple P m R E \<Longrightarrow> (\<And>x. triple (R x) k Q E) \<Longrightarrow> triple P (thenM m k) Q E"
  unfolding thenM_def by (rule triple_bind)

lemma triple_try:
  "triple P m R F \<Longrightarrow> (\<And>x. triple (R x) (h (Inr x)) Q E) \<Longrightarrow> (\<And>e. triple F (h (Inl e)) Q E) \<Longrightarrow>
   triple P (tryM m h) Q E"
  unfolding triple_def tryM_Some_iff by (metis sum.exhaust)

lemma triple_if:
  "(b \<Longrightarrow> triple P m Q E) \<Longrightarrow> (\<not> b \<Longrightarrow> triple P k Q E) \<Longrightarrow> triple P (if b then m else k) Q E"
  by simp

lemma triple_loop:
  assumes "triple I m (\<lambda>r. case r of None \<Rightarrow> I | Some x \<Rightarrow> Q x) E"
  shows "triple I (loopM world m) Q E"
proof -
  have last: "\<exists>s1 q. I s1 \<and> m s1 = Some (q, s') \<and>
      ((\<exists>e. q = Inl e \<and> r = Inl e) \<or> (\<exists>x. q = Inr (Some x) \<and> r = Inr x))"
    if "I s" "loopM world m s = Some (r, s')" for s r s'
    using that(2,1) by (rule loopM_inv) (use triple_value [OF assms] in fastforce)
  show ?thesis
  proof (rule tripleI)
    fix s x s' assume "I s" "loopM world m s = Some (Inr x, s')"
    from last [OF this] obtain s1 where "I s1" "m s1 = Some (Inr (Some x), s')" by auto
    from triple_value [OF assms this] show "Q x s'" by simp
  next
    fix s e s' assume "I s" "loopM world m s = Some (Inl e, s')"
    from last [OF this] obtain s1 where "I s1" "m s1 = Some (Inl e, s')" by auto
    from triple_error [OF assms this] show "E s'" .
  qed
qed

lemma triple_keeps: "keeps R m \<Longrightarrow> (\<And>s s'. P s \<Longrightarrow> R s s' \<Longrightarrow> P s') \<Longrightarrow> triple P m (\<lambda>_. P) P"
  by (rule tripleI) (auto dest: keepsD)

lemmas triple_intros = triple_ret triple_fail triple_none triple_bind triple_then triple_if

end
