(* ===== verification/Sez_Discovery.thy ===== *)
theory Sez_Discovery
  imports Sez_Mpgts Sez_Logic "HOL-Library.Multiset"
begin

text \<open>
  Finding tuners: \<^verbatim>\<open>iface.cpp\<close>, which walks the network interfaces, and \<^verbatim>\<open>socket::find\<close>, which asks
  on every interface with a link-local address and collects who answers. \<^verbatim>\<open>getifaddrs\<close> is a parameter:
  its list, or \<open>None\<close> when it fails. Addresses are as the C code has them, in network byte order.
  \<^verbatim>\<open>inet_ntop\<close>, which only fails for a short buffer, and what is printed are left out.
\<close>

subsection \<open>Interfaces\<close>

text \<open>An entry of the list: name, address family and address if there is one, and netmask.\<close>

record ifaddr =
  ifa_name :: string
  ifa_addr :: "(nat \<times> u32) option"
  ifa_netmask :: "u32 option"

definition AF_INET :: nat where
  "AF_INET = 2"

text \<open>The callback returns an error where the C function returns nonzero. A missing netmask would be read through a null pointer.\<close>

fun foreach_if_af_inet :: "ifaddr list \<Rightarrow> (string \<Rightarrow> u32 \<Rightarrow> u32 \<Rightarrow> ('s, unit) cmd) \<Rightarrow> ('s, unit) cmd" where
  "foreach_if_af_inet [] cb = ret ()"
| "foreach_if_af_inet (ifa # ifas) cb =
    (case ifa_addr ifa of
       None \<Rightarrow> foreach_if_af_inet ifas cb
     | Some (family, ip_addr) \<Rightarrow>
         if family \<noteq> AF_INET then foreach_if_af_inet ifas cb
         else if ip_addr = 0 then foreach_if_af_inet ifas cb
         else (case ifa_netmask ifa of
             None \<Rightarrow> (\<lambda>_. None)
           | Some netmask \<Rightarrow> thenM (cb (ifa_name ifa) ip_addr netmask) (foreach_if_af_inet ifas cb)))"

definition foreach_if :: "ifaddr list option \<Rightarrow> (string \<Rightarrow> u32 \<Rightarrow> u32 \<Rightarrow> ('s, unit) cmd) \<Rightarrow> ('s, unit) cmd" where
  "foreach_if p cb = (case p of None \<Rightarrow> fail Sys_Error | Some ifas \<Rightarrow> foreach_if_af_inet ifas cb)"

text \<open>
  \<^verbatim>\<open>get_hw_addr\<close>: the ioctl gives 14 bytes. The loop runs to \<^verbatim>\<open>sizeof(hwaddr)\<close>, the size of a
  pointer, which is 8: it stores 8 bytes into the 6 of the caller.
\<close>

definition get_hw_addr :: "u8 list io" where
  "get_hw_addr w = (case script w of
     Ev_read None # es \<Rightarrow> Some (Inl Sys_Error, w\<lparr>script := es\<rparr>)
   | Ev_read (Some sa_data) # es \<Rightarrow>
       if length sa_data \<noteq> 14 then None
       else thenM (note_store 6 8) (ret (take 6 sa_data)) (w\<lparr>script := es\<rparr>)
   | _ \<Rightarrow> None)"

subsection \<open>UDP\<close>

definition expect :: "bool \<Rightarrow> err \<Rightarrow> unit io" where
  "expect b e = (if b then ret () else fail e)"

text \<open>\<^verbatim>\<open>setsockopt\<close> and \<^verbatim>\<open>bind\<close>.\<close>

definition udp_bind :: "unit io" where
  "udp_bind = bindM ask_ok (\<lambda>opt. thenM (expect opt Sys_Error) (bindM ask_ok (\<lambda>bound. expect bound Sys_Error)))"

definition udp_pkt_sendto :: "u32 \<Rightarrow> u32 \<Rightarrow> u8 list \<Rightarrow> unit io" where
  "udp_pkt_sendto dest_ip port pkt =
    bindM ask_num (\<lambda>r.
    if r < 0 then fail Sys_Error
    else thenM (act (Sent_to dest_ip port (take (nat r) pkt))) (expect (r = int (length pkt)) Short_Read))"

definition pselect :: "(int \<times> bool) io" where
  "pselect w = (case script w of
     Ev_select n ready # es \<Rightarrow> Some (Inr (n, ready), w\<lparr>script := es\<rparr>) | _ \<Rightarrow> None)"

text \<open>
  The datagram in a buffer of 4096 bytes is checked, and its length field removed. With fewer than 4
  bytes \<^verbatim>\<open>r - 4\<close> wraps, and the checksum runs through all of memory: no result.
\<close>

definition check_datagram :: "u8 list \<Rightarrow> u8 list io" where
  "check_datagram rx =
    (let r = length rx in
     if r < 4 then (\<lambda>_. None)
     else thenM (expect (trailer_is rx (r - 4) (tuner_calc_crc (take (r - 4) rx))) Bad_Crc)
       (thenM (expect (256 * unat (rx ! 2) + unat (rx ! 3) + 8 = r) Short_Read)
         (ret (take 2 rx @ take (r - 8) (drop 4 rx)))))"

definition udp_pkt_recv :: "(u32 \<times> u8 list) option io" where
  "udp_pkt_recv =
    bindM pselect (\<lambda>(n, ready).
    if n < 0 then fail Sys_Error
    else if n = 0 \<or> \<not> ready then ret None
    else bindM recvfrom (\<lambda>r. case r of
        None \<Rightarrow> fail Sys_Error
      | Some (src, rx) \<Rightarrow>
          if length rx > 4096 then (\<lambda>_. None)
          else if rx = [] then fail Empty_Read
          else bindM (check_datagram rx) (\<lambda>body. ret (Some (src, body)))))"

subsection \<open>Discovery\<close>

text \<open>The arguments of the constructor \<^verbatim>\<open>mpgts(ip, mac, myip)\<close> of a tuner that was found.\<close>

record tuner_at =
  at_ip :: u32
  at_mac :: "u8 list"
  at_myip :: u32

text \<open>
  \<^verbatim>\<open>tunerfind2_ctx\<close>. \<open>cap\<close> is the number of objects \<^verbatim>\<open>list\<close> has room for, 0 for a null pointer, and
  \<open>found\<close> the objects constructed in it. The counts are unbounded: an array of \<open>2\<^sup>3\<^sup>2\<close> of these objects,
  each above \<open>2\<^sup>1\<^sup>7\<close> bytes, is more than the address space, so \<^verbatim>\<open>realloc\<close> fails before they wrap.
\<close>

record finder =
  iface_found :: nat
  list_use :: nat
  list_max :: nat
  cap :: nat
  found :: "tuner_at list"
  os :: world

definition on_os :: "'a io \<Rightarrow> (finder, 'a) cmd" where
  "on_os m f = (case m (os f) of None \<Rightarrow> None | Some (r, w) \<Rightarrow> Some (r, f\<lparr>os := w\<rparr>))"

definition query :: "(finder \<Rightarrow> 'a) \<Rightarrow> (finder, 'a) cmd" where
  "query g f = Some (Inr (g f), f)"

definition change :: "(finder \<Rightarrow> finder) \<Rightarrow> (finder, unit) cmd" where
  "change g f = Some (Inr (), g f)"

text \<open>On an error the socket is closed.\<close>

definition closing :: "int \<Rightarrow> 'a io \<Rightarrow> (finder, 'a) cmd" where
  "closing fd m = on_os (tryM m (\<lambda>r. case r of Inl e \<Rightarrow> thenM (act (Closed fd)) (fail e) | Inr x \<Rightarrow> ret x))"

definition discover_pkt :: "u8 list" where
  "discover_pkt = unframed [2, 4, 0xff, 0xff, 0xff, 0xff, 1, 4, 0, 0, 0, 2]"

definition hdhomerun_port :: u32 where
  "hdhomerun_port = 65001"

text \<open>\<^verbatim>\<open>realloc\<close>: the number of blocks stays the same, also when it fails.\<close>

definition realloc :: "bool io" where
  "realloc w = (case script w of Ev_malloc ok # es \<Rightarrow> Some (Inr ok, w\<lparr>script := es\<rparr>) | _ \<Rightarrow> None)"

definition list_room :: "(finder, unit) cmd" where
  "list_room =
    bindM (query (\<lambda>f. list_use f \<ge> list_max f)) (\<lambda>full.
    if full then
      thenM (change (\<lambda>f. f\<lparr>list_max := list_max f + 8\<rparr>))
      (bindM (on_os realloc) (\<lambda>ok.
       if ok then change (\<lambda>f. f\<lparr>cap := list_max f\<rparr>)
       else thenM (change (\<lambda>f. f\<lparr>cap := 0\<rparr>)) (fail No_Memory)))
    else ret ())"

definition list_add :: "tuner_at \<Rightarrow> (finder, unit) cmd" where
  "list_add t =
    bindM (query (\<lambda>f. (cap f, list_use f))) (\<lambda>(n, i).
    thenM (on_os (note_store n (i + 1)))
      (change (\<lambda>f. f\<lparr>found := found f @ [t], list_use := list_use f + 1\<rparr>)))"

text \<open>One round of the loop; it ends when nobody answers within 50 ms.\<close>

definition answer :: "int \<Rightarrow> u32 \<Rightarrow> (finder, unit option) cmd" where
  "answer fd ip_addr =
    bindM (closing fd udp_pkt_recv) (\<lambda>r. case r of
      None \<Rightarrow> ret (Some ())
    | Some (rxaddr, rx) \<Rightarrow>
        if length rx \<noteq> 22 then fail Short_Read
        else thenM list_room
          (thenM (list_add \<lparr>at_ip = rxaddr, at_mac = take 6 (drop 16 rx), at_myip = ip_addr\<rparr>) (ret None)))"

definition link_local :: "u32 \<Rightarrow> u32 \<Rightarrow> bool" where
  "link_local ip_addr netmask \<longleftrightarrow> ntohl ip_addr AND 0xffff0000 = 0xa9fe0000 \<and> ntohl netmask = 0xffff0000"

definition tunerfind2 :: "string \<Rightarrow> u32 \<Rightarrow> u32 \<Rightarrow> (finder, unit) cmd" where
  "tunerfind2 if_name ip_addr netmask =
    (if \<not> link_local ip_addr netmask then ret ()
     else
       thenM (change (\<lambda>f. f\<lparr>iface_found := iface_found f + 1\<rparr>))
       (thenM (on_os get_hw_addr)
       (bindM (on_os ask_socket) (\<lambda>fd.
        if fd = -1 then fail Sys_Error
        else
          thenM (closing fd udp_bind)
          (case pkt_add_crc discover_pkt 2 of
             None \<Rightarrow> (\<lambda>_. None)
           | Some pkt \<Rightarrow>
               thenM (closing fd (udp_pkt_sendto (ip_addr OR NOT netmask) hdhomerun_port pkt))
                 (loopM os (answer fd ip_addr)))))))"

text \<open>
  \<^verbatim>\<open>socket::find\<close>. The value is \<open>None\<close> for a null pointer, otherwise the objects of the array.
\<close>

definition new_finder :: "world \<Rightarrow> finder" where
  "new_finder w = \<lparr>iface_found = 0, list_use = 0, list_max = 8, cap = 8, found = [], os = w\<rparr>"

definition find_in :: "ifaddr list option \<Rightarrow> int \<Rightarrow> (finder, tuner_at list option) cmd" where
  "find_in ifs sock_to_kernel =
    tryM (foreach_if ifs tunerfind2) (\<lambda>r.
    bindM (query iface_found) (\<lambda>n.
    thenM (on_os (act (Closed sock_to_kernel)))
    (if (case r of Inl e \<Rightarrow> True | Inr _ \<Rightarrow> n = 0) then
       bindM (query cap) (\<lambda>c. thenM (if c = 0 then ret () else on_os free_block) (ret None))
     else bindM (query found) (\<lambda>l. ret (Some l)))))"

definition socket_find :: "ifaddr list option \<Rightarrow> tuner_at list option io" where
  "socket_find ifs =
    bindM malloc (\<lambda>ok.
    if \<not> ok then ret None
    else bindM ask_socket (\<lambda>fd.
      if fd = -1 then ret None
      else (\<lambda>w. case find_in ifs fd (new_finder w) of None \<Rightarrow> None | Some (r, f) \<Rightarrow> Some (r, os f))))"

subsection \<open>What discovery does to the world\<close>

definition link_if :: "ifaddr \<Rightarrow> bool" where
  "link_if ifa \<longleftrightarrow> (\<exists>a m. ifa_addr ifa = Some (AF_INET, a) \<and> ifa_netmask ifa = Some m \<and> link_local a m)"

lemma link_local_nonzero: "link_local a m \<Longrightarrow> a \<noteq> 0"
  by (auto simp: link_local_def ntohl_def)

text \<open>The frame of a discovery request, as it goes out.\<close>

definition discover_frame :: "u8 list" where
  "discover_frame = frame 2 [2, 4, 0xff, 0xff, 0xff, 0xff, 1, 4, 0, 0, 0, 2]"

lemma discover_pkt_framed: "pkt_add_crc discover_pkt 2 = Some discover_frame"
  unfolding discover_pkt_def discover_frame_def by (rule pkt_add_crc_unframed)

definition discovery_action :: "ifaddr list \<Rightarrow> action \<Rightarrow> bool" where
  "discovery_action ifs a \<longleftrightarrow> (case a of
     Sent_to dst port bytes \<Rightarrow> port = hdhomerun_port \<and> (\<exists>n. bytes = take n discover_frame) \<and>
       (\<exists>ifa \<in> set ifs. \<exists>a m. ifa_addr ifa = Some (AF_INET, a) \<and> ifa_netmask ifa = Some m \<and>
          link_local a m \<and> dst = a OR NOT m)
   | Overrun c n \<Rightarrow> c = 6 \<and> n = 8
   | Closed fd \<Rightarrow> True
   | _ \<Rightarrow> False)"

text \<open>
  Of the system calls of discovery only the one for the hardware address is answered with bytes
  (\<open>Ev_read\<close>): those still to come. Since a state \<open>w0\<close> only actions in \<open>A\<close> were done, and the buffer
  of 6 bytes was given 8 once for every such answer.
\<close>

definition is_hw :: "os_event \<Rightarrow> bool" where
  "is_hw e \<longleftrightarrow> (case e of Ev_read (Some sa_data) \<Rightarrow> True | _ \<Rightarrow> False)"

definition hw_answers :: "world \<Rightarrow> nat" where
  "hw_answers w = length (filter is_hw (script w))"

definition acts :: "(action \<Rightarrow> bool) \<Rightarrow> world \<Rightarrow> world \<Rightarrow> bool" where
  "acts A w0 w \<longleftrightarrow> (\<exists>as. trace w = trace w0 @ as \<and> (\<forall>a \<in> set as. A a) \<and>
     hw_answers w0 = hw_answers w + count_list as (Overrun 6 8))"

lemma acts_refl: "acts A w w"
  by (simp add: acts_def)

lemma acts_emit: "acts A w0 w \<Longrightarrow> A a \<Longrightarrow> a \<noteq> Overrun 6 8 \<Longrightarrow> acts A w0 (emit a w)"
  unfolding acts_def hw_answers_def
  by (elim exE conjE, rule exI [of _ "as @ [a]" for as], auto)

lemma acts_script:
  "script w = e # es \<Longrightarrow> \<not> is_hw e \<Longrightarrow> acts A w0 (w\<lparr>script := es\<rparr>) = acts A w0 w"
  "acts A w0 (w\<lparr>blocks := b\<rparr>) = acts A w0 w"
  by (simp_all add: acts_def hw_answers_def)

lemma acts_overrun:
  assumes "acts A w0 w" and "script w = e # es" and "is_hw e" and "A (Overrun 6 8)"
  shows "acts A w0 (emit (Overrun 6 8) (w\<lparr>script := es\<rparr>))"
  using assms unfolding acts_def hw_answers_def
  by (elim exE conjE, intro exI [of _ "as @ [Overrun 6 8]" for as], auto)

text \<open>The array has room for what is in it.\<close>

definition finder_inv :: "finder \<Rightarrow> bool" where
  "finder_inv f \<longleftrightarrow> list_use f = length (found f) \<and> list_use f \<le> list_max f \<and> cap f = list_max f"

lemma on_os_iff: "on_os m f = Some (r, f') \<longleftrightarrow> (\<exists>w. m (os f) = Some (r, w) \<and> f' = f\<lparr>os := w\<rparr>)"
  by (auto simp: on_os_def split: option.splits)

lemma finder_inv_os [simp]: "finder_inv (f\<lparr>os := w\<rparr>) = finder_inv f"
  by (simp add: finder_inv_def)

lemma triple_on_os:
  assumes "triple (acts A w0) m (\<lambda>_. acts A w0) (acts A w0)"
  shows "triple (\<lambda>f. finder_inv f \<and> acts A w0 (os f)) (on_os m)
    (\<lambda>_ f. finder_inv f \<and> acts A w0 (os f)) (\<lambda>f. acts A w0 (os f))"
  by (rule tripleI) (auto simp: on_os_iff dest: triple_value [OF assms] triple_error [OF assms])

lemma acts_ask:
  "triple (acts A w0) ask_ok (\<lambda>_. acts A w0) (acts A w0)"
  "triple (acts A w0) ask_num (\<lambda>_. acts A w0) (acts A w0)"
  "triple (acts A w0) recvfrom (\<lambda>_. acts A w0) (acts A w0)"
  "triple (acts A w0) pselect (\<lambda>_. acts A w0) (acts A w0)"
  "triple (acts A w0) ask_socket (\<lambda>_. acts A w0) (acts A w0)"
  "triple (acts A w0) realloc (\<lambda>_. acts A w0) (acts A w0)"
  unfolding ask_ok_def ask_num_def recvfrom_def pselect_def ask_socket_def realloc_def
  by (rule tripleI; auto simp: acts_script(1) is_hw_def split: list.splits os_event.splits)+

lemma acts_expect: "triple (acts A w0) (expect b e) (\<lambda>_. acts A w0) (acts A w0)"
  by (simp add: expect_def triple_ret triple_fail)

lemma acts_check: "triple (acts A w0) (check_datagram rx) (\<lambda>_. acts A w0) (acts A w0)"
  unfolding check_datagram_def Let_def by (auto intro!: triple_intros acts_expect)

lemma acts_act:
  "A a \<Longrightarrow> a \<noteq> Overrun 6 8 \<Longrightarrow> triple (acts A w0) (act a) (\<lambda>_. acts A w0) (acts A w0)"
  by (auto simp: triple_def act_def acts_emit)

lemmas acts_calls = acts_ask acts_expect acts_check acts_act

lemma acts_hw:
  assumes "A (Overrun 6 8)"
  shows "triple (acts A w0) get_hw_addr (\<lambda>_. acts A w0) (acts A w0)"
proof -
  have "acts A w0 w'" if "get_hw_addr w = Some (r, w')" and w: "acts A w0 w" for w r w'
    using that(1) w acts_overrun [OF w _ _ assms]
    by (auto simp: get_hw_addr_def cmd_iffs note_store_def acts_script(1) is_hw_def
        split: list.splits os_event.splits option.splits if_splits)
  then show ?thesis by (intro tripleI) blast+
qed

lemma acts_closing:
  assumes "A (Closed fd)" and "triple (acts A w0) m (\<lambda>_. acts A w0) (acts A w0)"
  shows "triple (\<lambda>f. finder_inv f \<and> acts A w0 (os f)) (closing fd m)
    (\<lambda>_ f. finder_inv f \<and> acts A w0 (os f)) (\<lambda>f. acts A w0 (os f))"
  unfolding closing_def
  by (rule triple_on_os, rule triple_try [OF assms(2)])
    (auto intro!: triple_intros acts_calls assms(1))

lemma acts_udp:
  "triple (acts A w0) udp_bind (\<lambda>_. acts A w0) (acts A w0)"
  "triple (acts A w0) udp_pkt_recv (\<lambda>_. acts A w0) (acts A w0)"
  "(\<And>n. A (Sent_to dst port (take n pkt))) \<Longrightarrow> triple (acts A w0) (udp_pkt_sendto dst port pkt) (\<lambda>_. acts A w0) (acts A w0)"
  unfolding udp_bind_def udp_pkt_recv_def udp_pkt_sendto_def
  by (auto intro!: triple_intros acts_calls split: prod.splits option.splits)

lemma acts_list_room:
  "triple (\<lambda>f. finder_inv f \<and> acts A w0 (os f)) list_room
    (\<lambda>_ f. finder_inv f \<and> list_use f < cap f \<and> acts A w0 (os f)) (\<lambda>f. acts A w0 (os f))"
  by (rule tripleI)
    (auto simp: list_room_def cmd_iffs query_def change_def on_os_def realloc_def finder_inv_def acts_script(1) is_hw_def
      split: option.splits if_splits list.splits os_event.splits)

lemma acts_list_add:
  "triple (\<lambda>f. finder_inv f \<and> list_use f < cap f \<and> acts A w0 (os f)) (list_add t)
    (\<lambda>_ f. finder_inv f \<and> acts A w0 (os f)) (\<lambda>f. acts A w0 (os f))"
  by (rule tripleI)
    (auto simp: list_add_def cmd_iffs query_def change_def on_os_def note_store_def finder_inv_def
      split: option.splits if_splits)

lemma acts_answer:
  assumes "A (Closed fd)"
  shows "triple (\<lambda>f. finder_inv f \<and> acts A w0 (os f)) (answer fd dst)
    (\<lambda>_ f. finder_inv f \<and> acts A w0 (os f)) (\<lambda>f. acts A w0 (os f))"
  unfolding answer_def
  by (rule triple_bind, rule acts_closing, rule assms, rule acts_udp)
    (auto intro!: triple_intros acts_list_room acts_list_add split: option.splits)

lemma acts_tunerfind2:
  assumes "\<And>fd. A (Closed fd)" and "A (Overrun 6 8)"
    and "link_local dst m \<Longrightarrow> (\<And>n. A (Sent_to (dst OR NOT m) hdhomerun_port (take n discover_frame)))"
  shows "triple (\<lambda>f. finder_inv f \<and> acts A w0 (os f)) (tunerfind2 name dst m)
    (\<lambda>_ f. finder_inv f \<and> acts A w0 (os f)) (\<lambda>f. acts A w0 (os f))"
proof -
  have n: "triple (\<lambda>f. finder_inv f \<and> acts A w0 (os f)) (change (\<lambda>f. f\<lparr>iface_found := Suc (iface_found f)\<rparr>))
      (\<lambda>_ f. finder_inv f \<and> acts A w0 (os f)) (\<lambda>f. acts A w0 (os f))"
    by (auto simp: triple_def change_def finder_inv_def)
  have "triple (\<lambda>f. finder_inv f \<and> acts A w0 (os f)) (loopM os (answer fd dst))
      (\<lambda>_ f. finder_inv f \<and> acts A w0 (os f)) (\<lambda>f. acts A w0 (os f))" for fd
    by (rule triple_loop, rule triple_post [OF acts_answer]) (auto simp: assms split: option.splits)
  then show ?thesis unfolding tunerfind2_def discover_pkt_framed option.case
    by (auto intro!: triple_intros n triple_on_os acts_closing acts_udp acts_calls acts_hw assms)
qed

lemma acts_foreach:
  assumes "\<And>fd. A (Closed fd)" and "A (Overrun 6 8)"
    and "\<And>ifa a m n. ifa \<in> set ifs \<Longrightarrow> ifa_addr ifa = Some (AF_INET, a) \<Longrightarrow> ifa_netmask ifa = Some m \<Longrightarrow>
      link_local a m \<Longrightarrow> A (Sent_to (a OR NOT m) hdhomerun_port (take n discover_frame))"
  shows "triple (\<lambda>f. finder_inv f \<and> acts A w0 (os f)) (foreach_if_af_inet ifs tunerfind2)
    (\<lambda>_ f. finder_inv f \<and> acts A w0 (os f)) (\<lambda>f. acts A w0 (os f))"
  using assms(3)
proof (induction ifs)
  case (Cons ifa ifs)
  then have IH: "triple (\<lambda>f. finder_inv f \<and> acts A w0 (os f)) (foreach_if_af_inet ifs tunerfind2)
    (\<lambda>_ f. finder_inv f \<and> acts A w0 (os f)) (\<lambda>f. acts A w0 (os f))" by auto
  have "triple (\<lambda>f. finder_inv f \<and> acts A w0 (os f)) (tunerfind2 (ifa_name ifa) a m)
    (\<lambda>_ f. finder_inv f \<and> acts A w0 (os f)) (\<lambda>f. acts A w0 (os f))"
    if "ifa_addr ifa = Some (AF_INET, a)" "ifa_netmask ifa = Some m" for a m
    by (rule acts_tunerfind2) (use assms(1,2) that in \<open>auto intro: Cons.prems\<close>)
  with IH show ?case by (auto intro!: triple_intros split: option.splits)
qed (auto intro: triple_ret)

lemma find_in_acts:
  assumes "find_in (Some ifs) k f = Some (r, f')" and "finder_inv f"
    and "\<And>f' q. foreach_if_af_inet ifs tunerfind2 f = Some (q, f') \<Longrightarrow> acts A (os f) (os f')"
    and "A (Closed k)"
  shows "acts A (os f) (os f')"
proof -
  from assms(1) obtain q f1 where f1: "foreach_if_af_inet ifs tunerfind2 f = Some (q, f1)"
    and rest: "trace (os f') = trace (emit (Closed k) (os f1))" "script (os f') = script (os f1)"
    by (auto simp: find_in_def foreach_if_def tryM_Some_iff bindM_Some_iff thenM_Some_iff query_def on_os_iff
        act_def free_block_def split: if_splits)
  from acts_emit [where A = A, OF assms(3) [OF f1] assms(4)] rest show ?thesis by (simp add: acts_def hw_answers_def)
qed

lemma socket_find_cases:
  assumes "socket_find ifs w = Some (r, w')"
  obtains (none) "r = Inr None" "trace w' = trace w" "hw_answers w' = hw_answers w"
  | (some) k es f where "script w = Ev_malloc True # Ev_socket k # es" "k \<noteq> -1"
      "find_in ifs k (new_finder (w\<lparr>blocks := blocks w + 1, script := es\<rparr>)) = Some (r, f)" "w' = os f"
proof -
  from assms show thesis
    by (auto simp: socket_find_def bindM_Some_iff malloc_def ask_socket_def hw_answers_def is_hw_def
        split: list.splits os_event.splits if_splits option.splits intro: none some)
qed

text \<open>C20: Whatever the system answers, discovery sends nothing but its request, to the broadcast address of
  interfaces with a link-local address and to port 65001; the array of tuners is never stored into past
  its end; but every hardware address that the system delivers is stored with two bytes past the six
  of the buffer: there are exactly as many such stores as answers of that kind were taken.\<close>

theorem discovery_stays:
  assumes "socket_find (Some ifs) w = Some (r, w')"
  shows "\<exists>as. trace w' = trace w @ as \<and> (\<forall>a \<in> set as. discovery_action ifs a) \<and>
    hw_answers w = hw_answers w' + count_list as (Overrun 6 8)"
proof -
  let ?A = "discovery_action ifs"
  have run: "acts ?A (os f) (os f')"
    if "foreach_if_af_inet ifs tunerfind2 f = Some (q, f')" "finder_inv f" for q f f'
  proof -
    have "triple (\<lambda>g. finder_inv g \<and> acts ?A (os f) (os g)) (foreach_if_af_inet ifs tunerfind2)
      (\<lambda>_ g. finder_inv g \<and> acts ?A (os f) (os g)) (\<lambda>g. acts ?A (os f) (os g))"
      by (rule acts_foreach) (auto simp: discovery_action_def)
    with that show ?thesis by (cases q) (auto dest: triple_value triple_error simp: acts_refl)
  qed
  have "acts ?A w w'"
  proof -
    from assms show ?thesis
    proof (cases rule: socket_find_cases)
      case none
      then show ?thesis by (simp add: acts_def)
    next
      case (some k es f)
      let ?f = "new_finder (w\<lparr>blocks := blocks w + 1, script := es\<rparr>)"
      have i: "finder_inv ?f" by (simp add: finder_inv_def new_finder_def)
      from find_in_acts [OF some(3) i run [OF _ i]] some(1,4) show ?thesis
        by (simp add: discovery_action_def new_finder_def acts_def hw_answers_def is_hw_def)
    qed
  qed
  then show ?thesis by (simp add: acts_def)
qed

subsection \<open>What discovery finds\<close>

text \<open>Tuners that answer: address, type and payload of the frame.\<close>

type_synonym reply = "u32 \<times> u8 \<times> u8 list"

definition grow :: "nat \<Rightarrow> nat \<Rightarrow> nat" where
  "grow n cap0 = (if n < cap0 then cap0 else cap0 + 8)"

fun grown :: "nat \<Rightarrow> nat \<Rightarrow> 'a list \<Rightarrow> nat" where
  "grown n m [] = m"
| "grown n m (a # as) = grown (n + 1) (grow n m) as"

fun reply_events :: "nat \<Rightarrow> nat \<Rightarrow> reply list \<Rightarrow> os_event list" where
  "reply_events n m [] = [Ev_select 0 False]"
| "reply_events n m ((src, t, body) # as) =
    [Ev_select 1 True, Ev_recvfrom (Some (src, frame t body))] @ (if n < m then [] else [Ev_malloc True]) @
    reply_events (n + 1) (grow n m) as"

definition tuner_of :: "u32 \<Rightarrow> reply \<Rightarrow> tuner_at" where
  "tuner_of my a = (case a of (src, t, body) \<Rightarrow> \<lparr>at_ip = src, at_mac = drop 14 body, at_myip = my\<rparr>)"

lemma check_datagram_frame:
  assumes "length body < 65536"
  shows "check_datagram (frame t body) w = Some (Inr ([0, t] @ body), w)"
proof -
  have n: "length (frame t body) - 4 = length body + 4" by simp
  have "drop (length body + 4) (frame t body) = le32 (tuner_calc_crc (take (length body + 4) (frame t body)))"
    by (simp add: frame_def)
  then have "trailer_is (frame t body) (length body + 4) (tuner_calc_crc (take (length body + 4) (frame t body)))"
    by (simp add: trailer_check)
  moreover have "256 * unat (frame t body ! 2) + unat (frame t body ! 3) = length body"
    using payload_len_head [OF assms] by (simp add: payload_len_def frame_def frame_head_def nth_append)
  moreover have "take 2 (frame t body) @ take (length body) (drop 4 (frame t body)) = [0, t] @ body"
    by (simp add: frame_def frame_head_def)
  ultimately show ?thesis
    by (simp add: check_datagram_def Let_def expect_def thenM_def io_simps add.commute [of 4])
qed

text \<open>The finder after tuners have been added.\<close>

definition with_tuners :: "finder \<Rightarrow> tuner_at list \<Rightarrow> nat \<Rightarrow> os_event list \<Rightarrow> finder" where
  "with_tuners f ts m es = f\<lparr>list_use := list_use f + length ts, list_max := m, cap := m,
     found := found f @ ts, os := (os f)\<lparr>script := es\<rparr>\<rparr>"

lemma field_runs:
  "bindM (query g) h f = h (g f) f" "bindM (change c) k f = k () (c f)"
  by (simp_all add: bindM_def tryM_def query_def change_def)

lemmas run_defs = thenM_def io_simps field_runs query_def change_def on_os_def

lemma list_room_run:
  assumes "cap f = list_max f" and "script (os f) = (if list_use f < list_max f then [] else [Ev_malloc True]) @ es"
  shows "list_room f = Some (Inr (), f\<lparr>list_max := grow (list_use f) (list_max f),
    cap := grow (list_use f) (list_max f), os := (os f)\<lparr>script := es\<rparr>\<rparr>)"
proof (cases "list_use f < list_max f")
  case True
  then have "f\<lparr>list_max := list_max f, cap := list_max f, os := (os f)\<lparr>script := es\<rparr>\<rparr> = f"
    using assms by (cases "os f") (simp add: finder.equality)
  moreover have "list_room f = Some (Inr (), f)"
    using True by (simp add: list_room_def run_defs)
  ultimately show ?thesis using True by (simp add: grow_def)
next
  case False
  with assms show ?thesis by (simp add: list_room_def run_defs realloc_def grow_def)
qed

lemma answer_run:
  assumes "finder_inv f" and "length body = 20"
    and "script (os f) = [Ev_select 1 True, Ev_recvfrom (Some (src, frame t body))] @
      (if list_use f < list_max f then [] else [Ev_malloc True]) @ es"
  shows "answer fd my f = Some (Inr None,
    with_tuners f [tuner_of my (src, t, body)] (grow (list_use f) (list_max f)) es)"
proof -
  let ?es = "(if list_use f < list_max f then [] else [Ev_malloc True]) @ es"
  let ?f = "f\<lparr>os := (os f)\<lparr>script := ?es\<rparr>\<rparr>"
  have "udp_pkt_recv (os f) = Some (Inr (Some (src, [0, t] @ body)), (os f)\<lparr>script := ?es\<rparr>)"
    using assms(2,3)
    by (simp add: udp_pkt_recv_def io_simps pselect_def recvfrom_def check_datagram_frame
        flip: length_greater_0_conv)
  then have 1: "closing fd udp_pkt_recv f = Some (Inr (Some (src, [0, t] @ body)), ?f)"
    by (simp add: closing_def on_os_def io_simps)
  have 2: "list_room ?f = Some (Inr (), ?f\<lparr>list_max := grow (list_use f) (list_max f),
    cap := grow (list_use f) (list_max f), os := (os f)\<lparr>script := es\<rparr>\<rparr>)"
    using list_room_run [of ?f es] assms(1) by (simp add: finder_inv_def)
  have "list_use f + 1 \<le> grow (list_use f) (list_max f)"
    using assms(1) by (simp add: grow_def finder_inv_def)
  then show ?thesis using assms(2)
    by (simp add: answer_def bindM_eval(3) [of "closing fd udp_pkt_recv" f, OF 1] thenM_def bindM_eval(3) [of list_room ?f, OF 2])
      (simp add: list_add_def run_defs note_store_def with_tuners_def tuner_of_def)
qed

lemma answer_stop:
  "script (os f) = Ev_select 0 False # es \<Longrightarrow> answer fd my f = Some (Inr (Some ()), f\<lparr>os := (os f)\<lparr>script := es\<rparr>\<rparr>)"
  by (simp add: answer_def closing_def on_os_def udp_pkt_recv_def pselect_def io_simps)

lemma with_tuners_inv: "finder_inv f \<Longrightarrow> list_use f + length ts \<le> m \<Longrightarrow> finder_inv (with_tuners f ts m es)"
  by (simp add: finder_inv_def with_tuners_def)

lemma with_tuners_os: "os (with_tuners f ts m es) = (os f)\<lparr>script := es\<rparr>"
  by (simp add: with_tuners_def)

lemma with_tuners_twice:
  "with_tuners (with_tuners f ts m es) us n fs = with_tuners f (ts @ us) n fs"
  by (simp add: with_tuners_def)

lemma answers_run:
  assumes "finder_inv f" and "\<forall>(src, t, body) \<in> set as. length body = 20"
    and "script (os f) = reply_events (list_use f) (list_max f) as @ es"
  shows "loopM os (answer fd my) f = Some (Inr (),
    with_tuners f (map (tuner_of my) as) (grown (list_use f) (list_max f) as) es)"
  using assms
proof (induction as arbitrary: f)
  case Nil
  then have "loopM os (answer fd my) f = Some (Inr (), f\<lparr>os := (os f)\<lparr>script := es\<rparr>\<rparr>)"
    by (simp add: io_simps answer_stop)
  moreover have "with_tuners f [] (list_max f) es = f\<lparr>os := (os f)\<lparr>script := es\<rparr>\<rparr>"
    using Nil.prems(1) by (simp add: with_tuners_def finder_inv_def)
  ultimately show ?case by simp
next
  case (Cons a as)
  obtain src t body where a: "a = (src, t, body)" by (cases a)
  let ?m = "grow (list_use f) (list_max f)"
  let ?es = "reply_events (list_use f + 1) ?m as @ es"
  let ?f = "with_tuners f [tuner_of my a] ?m ?es"
  have r: "answer fd my f = Some (Inr None, ?f)"
    unfolding a by (rule answer_run) (use Cons.prems a in simp_all)
  have "loopM os (answer fd my) f = loopM os (answer fd my) ?f"
    by (rule loopM_eval(3) [of "answer fd my" f, OF r]) (simp add: with_tuners_os Cons.prems(3) a)
  also have "\<dots> = Some (Inr (), with_tuners ?f (map (tuner_of my) as) (grown (list_use ?f) (list_max ?f) as) es)"
  proof (rule Cons.IH)
    have "list_use f + 1 \<le> ?m" using Cons.prems(1) by (simp add: grow_def finder_inv_def)
    then show "finder_inv ?f" using Cons.prems(1) by (simp add: with_tuners_inv)
    show "script (os ?f) = reply_events (list_use ?f) (list_max ?f) as @ es" by (simp add: with_tuners_def)
  qed (use Cons.prems in auto)
  also have "\<dots> = Some (Inr (), with_tuners f (map (tuner_of my) (a # as)) (grown (list_use f) (list_max f) (a # as)) es)"
    by (simp add: with_tuners_twice) (simp add: with_tuners_def)
  finally show ?case .
qed

text \<open>
  An interface on which tuners are asked: the 14 bytes of its hardware address, the descriptor of the
  socket, and the replies.
\<close>

type_synonym site = "u8 list \<times> int \<times> reply list"

definition site_ok :: "site \<Rightarrow> bool" where
  "site_ok s \<longleftrightarrow> (case s of (sa, fd, as) \<Rightarrow> length sa = 14 \<and> fd \<noteq> -1 \<and> (\<forall>(src, t, body) \<in> set as. length body = 20))"

definition replies :: "site \<Rightarrow> reply list" where
  "replies s = (case s of (sa, fd, as) \<Rightarrow> as)"

definition site_events :: "nat \<Rightarrow> nat \<Rightarrow> site \<Rightarrow> os_event list" where
  "site_events n m s = (case s of (sa, fd, as) \<Rightarrow>
    [Ev_read (Some sa), Ev_socket fd, Ev_ok True, Ev_ok True, Ev_num 20] @ reply_events n m as)"

fun sites_events :: "nat \<Rightarrow> nat \<Rightarrow> site list \<Rightarrow> os_event list" where
  "sites_events n m [] = []"
| "sites_events n m (s # ss) =
    site_events n m s @ sites_events (n + length (replies s)) (grown n m (replies s)) ss"

text \<open>The tuners of a system: those that answer on an interface get its address as their own.\<close>

fun tuners :: "ifaddr list \<Rightarrow> site list \<Rightarrow> tuner_at list" where
  "tuners [] ss = []"
| "tuners (ifa # ifas) ss =
    (case ifa_addr ifa of
       Some (family, a) \<Rightarrow>
         if link_if ifa then map (tuner_of a) (replies (hd ss)) @ tuners ifas (tl ss) else tuners ifas ss
     | None \<Rightarrow> tuners ifas ss)"

text \<open>The finder apart from the counter of interfaces and the trace.\<close>

definition finder_like :: "finder \<Rightarrow> finder \<Rightarrow> bool" where
  "finder_like f g \<longleftrightarrow> list_use f = list_use g \<and> list_max f = list_max g \<and> cap f = cap g \<and> found f = found g \<and>
    script (os f) = script (os g)"

lemma grown_le: "n \<le> m \<Longrightarrow> n + length as \<le> grown n m as"
proof (induction as arbitrary: n m)
  case (Cons a as)
  have "n + 1 \<le> grow n m" using Cons.prems by (simp add: grow_def)
  from Cons.IH [OF this] show ?case by simp
qed simp

lemma tunerfind2_run:
  assumes "finder_inv f" and "link_local a m" and "site_ok s"
    and "script (os f) = site_events (list_use f) (list_max f) s @ es"
  obtains f' where "tunerfind2 name a m f = Some (Inr (), f')" "iface_found f' = iface_found f + 1"
    "finder_like f' (with_tuners f (map (tuner_of a) (replies s)) (grown (list_use f) (list_max f) (replies s)) es)"
    "finder_inv f'"
proof -
  obtain sa fd as where s: "s = (sa, fd, as)" by (cases s)
  let ?es = "reply_events (list_use f) (list_max f) as @ es"
  have len: "length discover_frame = 20" by (simp add: discover_frame_def)
  let ?g = "f\<lparr>iface_found := iface_found f + 1, os := emit (Sent_to (a OR NOT m) hdhomerun_port discover_frame)
    (emit (Overrun 6 8) ((os f)\<lparr>script := ?es\<rparr>))\<rparr>"
  have fd: "fd \<noteq> -1" "length sa = 14" and as: "\<forall>(src, t, body) \<in> set as. length body = 20"
    using assms(3) by (simp_all add: site_ok_def s)
  have "get_hw_addr ((os f)\<lparr>script := Ev_read (Some sa) # es'\<rparr>) =
      Some (Inr (take 6 sa), emit (Overrun 6 8) ((os f)\<lparr>script := es'\<rparr>))" for es'
    using fd(2) by (simp add: get_hw_addr_def thenM_def io_simps note_store_def)
  then have hw: "get_hw_addr (os f) = Some (Inr (take 6 sa), emit (Overrun 6 8)
      ((os f)\<lparr>script := [Ev_socket fd, Ev_ok True, Ev_ok True, Ev_num 20] @ ?es\<rparr>))"
    using assms(4) by (simp add: site_events_def s)
      (metis world.surjective world.update_convs(1))
  have run: "tunerfind2 name a m f = loopM os (answer fd a) ?g"
    using assms(2) fd(1)
    by (simp add: tunerfind2_def discover_pkt_framed run_defs hw ask_socket_def closing_def udp_bind_def
        ask_ok_def expect_def udp_pkt_sendto_def ask_num_def act_def len emit_def)
  have inv: "finder_inv ?g" using assms(1) by (simp add: finder_inv_def)
  let ?r = "with_tuners ?g (map (tuner_of a) as) (grown (list_use ?g) (list_max ?g) as) es"
  show thesis
  proof (rule that [of ?r])
    show "tunerfind2 name a m f = Some (Inr (), ?r)"
      unfolding run by (rule answers_run [OF inv as]) simp
    show "iface_found ?r = iface_found f + 1" by (simp add: with_tuners_def)
    show "finder_like ?r
      (with_tuners f (map (tuner_of a) (replies s)) (grown (list_use f) (list_max f) (replies s)) es)"
      by (simp add: finder_like_def with_tuners_def replies_def s)
    show "finder_inv ?r"
      using inv by (rule with_tuners_inv) (use assms(1) in \<open>simp add: grown_le finder_inv_def\<close>)
  qed
qed

lemma foreach_run:
  assumes "finder_inv f" and "length ss = length (filter link_if ifas)" and "\<forall>s \<in> set ss. site_ok s"
    and "\<forall>ifa \<in> set ifas. ifa_netmask ifa \<noteq> None"
    and "script (os f) = sites_events (list_use f) (list_max f) ss @ es"
  shows "\<exists>f'. foreach_if_af_inet ifas tunerfind2 f = Some (Inr (), f') \<and> iface_found f' = iface_found f + length ss \<and>
    found f' = found f @ tuners ifas ss \<and> script (os f') = es"
  using assms
proof (induction ifas arbitrary: f ss)
  case Nil
  then show ?case by (simp add: io_simps)
next
  case (Cons ifa ifas)
  show ?case
  proof (cases "link_if ifa")
    case True
    then obtain a m where ifa: "ifa_addr ifa = Some (AF_INET, a)" "ifa_netmask ifa = Some m" and ll: "link_local a m"
      by (auto simp: link_if_def)
    from Cons.prems(2) True obtain s ss' where ss: "ss = s # ss'" by (cases ss) auto
    let ?m = "grown (list_use f) (list_max f) (replies s)"
    have ok: "site_ok s" using Cons.prems(3) ss by simp
    have scr: "script (os f) = site_events (list_use f) (list_max f) s @
        sites_events (list_use f + length (replies s)) ?m ss' @ es"
      using Cons.prems(5) ss by simp
    obtain f1 where
      f1: "tunerfind2 (ifa_name ifa) a m f = Some (Inr (), f1)" "iface_found f1 = iface_found f + 1" "finder_inv f1" and
      like: "finder_like f1 (with_tuners f (map (tuner_of a) (replies s)) ?m
        (sites_events (list_use f + length (replies s)) ?m ss' @ es))"
      by (rule tunerfind2_run [OF Cons.prems(1) ll ok scr, of "ifa_name ifa"])
    from like have eqs: "list_use f1 = list_use f + length (replies s)" "list_max f1 = ?m"
      "found f1 = found f @ map (tuner_of a) (replies s)"
      "script (os f1) = sites_events (list_use f + length (replies s)) ?m ss' @ es"
      by (simp_all add: finder_like_def with_tuners_def)
    have "\<exists>f'. foreach_if_af_inet ifas tunerfind2 f1 = Some (Inr (), f') \<and> iface_found f' = iface_found f1 + length ss' \<and>
        found f' = found f1 @ tuners ifas ss' \<and> script (os f') = es"
      by (rule Cons.IH) (use Cons.prems(2-4) ss True f1(3) in \<open>simp_all add: eqs\<close>)
    moreover have "a \<noteq> 0" using link_local_nonzero ll by blast
    then have "foreach_if_af_inet (ifa # ifas) tunerfind2 f = foreach_if_af_inet ifas tunerfind2 f1"
      by (simp add: ifa thenM_def bindM_eval(3) [of "tunerfind2 (ifa_name ifa) a m" f, OF f1(1)])
    ultimately show ?thesis using f1(2) by (simp add: eqs ss True ifa) 
  next
    case False
    have IH: "\<exists>f'. foreach_if_af_inet ifas tunerfind2 f = Some (Inr (), f') \<and> iface_found f' = iface_found f + length ss \<and>
        found f' = found f @ tuners ifas ss \<and> script (os f') = es"
      by (rule Cons.IH) (use Cons.prems False in auto)
    have "tunerfind2 (ifa_name ifa) a m f = Some (Inr (), f)"
      if "ifa_addr ifa = Some (AF_INET, a)" "ifa_netmask ifa = Some m" for a m
      using that False by (auto simp: tunerfind2_def link_if_def io_simps)
    with IH False Cons.prems(4) show ?thesis
      by (auto simp: thenM_def io_simps split: option.splits)
  qed
qed

lemma find_run:
  assumes "length ss = length (filter link_if ifas)" and "ss \<noteq> []" and "\<forall>s \<in> set ss. site_ok s"
    and "\<forall>ifa \<in> set ifas. ifa_netmask ifa \<noteq> None" and "k \<noteq> -1"
    and "script w = [Ev_malloc True, Ev_socket k] @ sites_events 0 8 ss @ es"
  shows "\<exists>w'. socket_find (Some ifas) w = Some (Inr (Some (tuners ifas ss)), w') \<and> script w' = es"
proof -
  let ?f = "new_finder (w\<lparr>blocks := blocks w + 1, script := sites_events 0 8 ss @ es\<rparr>)"
  have "\<exists>f'. foreach_if_af_inet ifas tunerfind2 ?f = Some (Inr (), f') \<and> iface_found f' = iface_found ?f + length ss \<and>
        found f' = found ?f @ tuners ifas ss \<and> script (os f') = es"
    by (rule foreach_run) (use assms in \<open>simp_all add: finder_inv_def new_finder_def\<close>)
  then obtain f' where f': "foreach_if_af_inet ifas tunerfind2 ?f = Some (Inr (), f')" "iface_found f' \<noteq> 0"
      "found f' = tuners ifas ss" "script (os f') = es"
    using assms(2) by (auto simp: new_finder_def)
  then have "find_in (Some ifas) k ?f = Some (Inr (Some (tuners ifas ss)), f'\<lparr>os := emit (Closed k) (os f')\<rparr>)"
    by (simp add: find_in_def foreach_if_def run_defs tryM_eval(2) [of "foreach_if_af_inet ifas tunerfind2" ?f, OF f'(1)] act_def)
  then show ?thesis using assms(5,6) f'(4)
    by (simp add: socket_find_def io_simps malloc_def ask_socket_def)
qed

text \<open>C7: Discovery finds exactly the tuners that answer: for any interfaces, and any replies of 20 bytes of
  payload on each that has a link-local address, whatever their number, the result lists every
  replying tuner once, in order, with the address the reply came from, the hardware address at
  the end of its payload, and the interface's own address.\<close>

theorem discovery_finds:
  assumes "length ss = length (filter link_if ifas)" and "ss \<noteq> []" and "\<forall>s \<in> set ss. site_ok s"
    and "\<forall>ifa \<in> set ifas. ifa_netmask ifa \<noteq> None" and "k \<noteq> -1"
    and "script w = [Ev_malloc True, Ev_socket k] @ sites_events 0 8 ss @ es"
  shows "\<exists>w'. socket_find (Some ifas) w = Some (Inr (Some (tuners ifas ss)), w') \<and> script w' = es"
  by (rule find_run [OF assms])

text \<open>An example: the loopback interface and one with the address 169.254.1.2; one tuner answers from 169.254.1.9.\<close>

definition example_ifs :: "ifaddr list" where
  "example_ifs = [\<lparr>ifa_name = ''lo'', ifa_addr = Some (2, 0x0100007f), ifa_netmask = Some 0xff\<rparr>,
     \<lparr>ifa_name = ''eth0'', ifa_addr = Some (2, 0x0201fea9), ifa_netmask = Some 0xffff\<rparr>]"

definition example_reply :: reply where
  "example_reply = (0x0901fea9, 3, replicate 14 7 @ [0, 0x21, 0x33, 1, 2, 3])"

definition example_world :: world where
  "example_world = \<lparr>script = [Ev_malloc True, Ev_socket 3] @ sites_events 0 8 [(replicate 14 0, 5, [example_reply])],
     trace = [], blocks = 0\<rparr>"

lemma example_link: "filter link_if example_ifs = [\<lparr>ifa_name = ''eth0'', ifa_addr = Some (2, 0x0201fea9), ifa_netmask = Some 0xffff\<rparr>]"
proof -
  have "link_local 0x0201fea9 0xffff" by code_simp
  moreover have "\<not> link_local 0x0100007f 0xff" by code_simp
  ultimately show ?thesis by (simp add: example_ifs_def link_if_def AF_INET_def)
qed

theorem discovery_finds_witness:
  "\<exists>w'. socket_find (Some example_ifs) example_world =
     Some (Inr (Some [\<lparr>at_ip = 0x0901fea9, at_mac = [0, 0x21, 0x33, 1, 2, 3], at_myip = 0x0201fea9\<rparr>]), w') \<and>
     script w' = []"
proof -
  let ?ss = "[(replicate 14 0, 5, [example_reply])]"
  have l: "link_if \<lparr>ifa_name = ''eth0'', ifa_addr = Some (2, 0x0201fea9), ifa_netmask = Some 0xffff\<rparr>"
    "\<not> link_if \<lparr>ifa_name = ''lo'', ifa_addr = Some (2, 0x0100007f), ifa_netmask = Some 0xff\<rparr>"
    using example_link by (simp_all add: example_ifs_def split: if_splits)
  have "\<exists>w'. socket_find (Some example_ifs) example_world = Some (Inr (Some (tuners example_ifs ?ss)), w') \<and> script w' = []"
    by (rule discovery_finds [where k = 3])
      (simp_all add: example_link, simp_all add: example_ifs_def site_ok_def example_reply_def example_world_def)
  moreover have "tuners example_ifs ?ss = [\<lparr>at_ip = 0x0901fea9, at_mac = [0, 0x21, 0x33, 1, 2, 3], at_myip = 0x0201fea9\<rparr>]"
    using l by (simp add: example_ifs_def replies_def tuner_of_def example_reply_def)
  ultimately show ?thesis by simp
qed

lemma example_run: "\<exists>w' l. socket_find (Some example_ifs) example_world = Some (Inr (Some l), w') \<and> script w' = []"
proof -
  define l where "l = tuners example_ifs [(replicate 14 0, 5, [example_reply])]"
  have "\<exists>w'. socket_find (Some example_ifs) example_world = Some (Inr (Some l), w') \<and> script w' = []"
    unfolding l_def
    by (rule find_run [where k = 3])
      (simp_all add: example_link, simp_all add: example_ifs_def site_ok_def example_reply_def example_world_def)
  then show ?thesis by blast
qed

theorem discovery_stays_witness:
  "\<exists>r w'. socket_find (Some example_ifs) example_world = Some (r, w') \<and>
     (\<forall>a \<in> set (trace w'). discovery_action example_ifs a) \<and> count_list (trace w') (Overrun 6 8) = 1"
proof -
  obtain w' l where w': "socket_find (Some example_ifs) example_world = Some (Inr (Some l), w')" "script w' = []"
    using example_run by blast
  have "trace example_world = []" "hw_answers example_world = 1" "hw_answers w' = 0"
    by (simp_all add: hw_answers_def w'(2) example_world_def is_hw_def site_events_def
        example_reply_def)
  with discovery_stays [OF w'(1)] w'(1) show ?thesis by auto
qed

subsection \<open>Descriptors\<close>

definition closed_fds :: "action list \<Rightarrow> int list" where
  "closed_fds tr = concat (map (\<lambda>a. case a of Closed fd \<Rightarrow> [fd] | _ \<Rightarrow> []) tr)"

text \<open>The sockets a script still opens, by their descriptors.\<close>

definition socket_fds :: "world \<Rightarrow> int multiset" where
  "socket_fds w = mset (concat (map (\<lambda>e. case e of Ev_socket fd \<Rightarrow> if fd = -1 then [] else [fd] | _ \<Rightarrow> []) (script w)))"

definition descriptors_kept :: "world \<Rightarrow> world \<Rightarrow> bool" where
  "descriptors_kept w w' \<longleftrightarrow>
    closed_fds (trace w') = closed_fds (trace w) \<and> socket_fds w = socket_fds w' \<and> blocks w' = blocks w"

interpretation fds: state_order descriptors_kept
  by unfold_locales (simp_all add: descriptors_kept_def)

definition finder_kept :: "finder \<Rightarrow> finder \<Rightarrow> bool" where
  "finder_kept f f' \<longleftrightarrow> descriptors_kept (os f) (os f') \<and> iface_found f' = iface_found f"

interpretation fkept: state_order finder_kept
  by unfold_locales (auto simp: finder_kept_def descriptors_kept_def)

lemma closed_fds_add [simp]: "closed_fds (tr @ [a]) = closed_fds tr @ (case a of Closed fd \<Rightarrow> [fd] | _ \<Rightarrow> [])"
  by (simp add: closed_fds_def)

lemma kept_on_os: "keeps_ok descriptors_kept m \<Longrightarrow> keeps_ok finder_kept (on_os m)"
  by (auto simp: keeps_ok_def on_os_iff finder_kept_def)

lemma kept_ask:
  "keeps_ok descriptors_kept ask_ok" "keeps_ok descriptors_kept ask_num"
  "keeps_ok descriptors_kept recvfrom" "keeps_ok descriptors_kept pselect" "keeps_ok descriptors_kept realloc"
  unfolding ask_ok_def ask_num_def recvfrom_def pselect_def realloc_def
  by (auto simp: keeps_ok_def descriptors_kept_def socket_fds_def split: list.splits os_event.splits)

lemma kept_expect: "keeps_ok descriptors_kept (expect b e)"
  by (simp add: expect_def fds.ok_ret fds.ok_fail)

lemma kept_none: "keeps_ok R (\<lambda>_. None)"
  by (simp add: keeps_ok_def)

lemma kept_check: "keeps_ok descriptors_kept (check_datagram rx)"
  unfolding check_datagram_def Let_def by (auto intro!: fds.ok_intros kept_expect kept_none)

lemma kept_act:
  "keeps_ok descriptors_kept (act (Sent_to a p bs))" "keeps_ok descriptors_kept (note_store c n)"
  by (auto simp: keeps_ok_def descriptors_kept_def socket_fds_def act_def note_store_def)

lemma kept_hw: "keeps_ok descriptors_kept get_hw_addr"
  by (auto simp: keeps_ok_def descriptors_kept_def socket_fds_def get_hw_addr_def cmd_iffs note_store_def
      split: list.splits os_event.splits option.splits if_splits)

lemma kept_udp:
  "keeps_ok descriptors_kept udp_bind" "keeps_ok descriptors_kept udp_pkt_recv"
  "keeps_ok descriptors_kept (udp_pkt_sendto a p pkt)"
  unfolding udp_bind_def udp_pkt_recv_def udp_pkt_sendto_def
  by (auto intro!: fds.ok_intros kept_ask kept_expect kept_check kept_act kept_none split: prod.splits option.splits)

lemma kept_closing: "keeps_ok descriptors_kept m \<Longrightarrow> keeps_ok finder_kept (closing fd m)"
  unfolding closing_def
proof (rule kept_on_os)
  assume m: "keeps_ok descriptors_kept m"
  show "keeps_ok descriptors_kept
      (tryM m (\<lambda>r. case r of Inl e \<Rightarrow> thenM (act (Closed fd)) (fail e) | Inr x \<Rightarrow> ret x))"
    unfolding keeps_ok_def
  proof (intro allI impI)
    fix w x w'
    assume "tryM m (\<lambda>r. case r of Inl e \<Rightarrow> thenM (act (Closed fd)) (fail e) | Inr x \<Rightarrow> ret x) w = Some (Inr x, w')"
    then obtain q w1 where "m w = Some (q, w1)"
      "(case q of Inl e \<Rightarrow> thenM (act (Closed fd)) (fail e) | Inr x \<Rightarrow> ret x) w1 = Some (Inr x, w')"
      by (auto simp: tryM_Some_iff)
    with m show "descriptors_kept w w'" by (cases q) (auto simp: thenM_Some_iff dest: keeps_okD)
  qed
qed

lemma kept_fields:
  "keeps_ok finder_kept (query g)"
  "(\<And>f. os (c f) = os f \<and> iface_found (c f) = iface_found f) \<Longrightarrow> keeps_ok finder_kept (change c)"
  by (auto simp: keeps_ok_def finder_kept_def query_def change_def fds.refl)

lemma kept_answer: "keeps_ok finder_kept (answer fd my)"
proof -
  have "keeps_ok finder_kept list_room" "keeps_ok finder_kept (list_add t)" for t
    unfolding list_room_def list_add_def
    by (auto intro!: fkept.ok_intros kept_on_os kept_ask kept_act kept_fields split: prod.splits)
  then show ?thesis unfolding answer_def
    by (auto intro!: fkept.ok_intros kept_closing kept_udp split: option.splits)
qed

text \<open>A socket is opened, and not closed, for every interface on which it asked.\<close>

definition asked_on :: "nat \<Rightarrow> finder \<Rightarrow> finder \<Rightarrow> bool" where
  "asked_on n f f' \<longleftrightarrow> closed_fds (trace (os f')) = closed_fds (trace (os f)) \<and>
    (\<exists>left. size left = n \<and> socket_fds (os f) = socket_fds (os f') + left) \<and>
    blocks (os f') = blocks (os f) \<and> iface_found f' = iface_found f + n"

lemma asked_on_trans: "asked_on n f g \<Longrightarrow> asked_on k g h \<Longrightarrow> asked_on (n + k) f h"
  unfolding asked_on_def by (elim conjE exE) (intro conjI exI [of _ "a + b" for a b]; simp)

lemma asked_on_kept: "finder_kept f g \<Longrightarrow> asked_on 0 f g"
  by (simp add: asked_on_def finder_kept_def descriptors_kept_def)

lemma asked_tunerfind2:
  assumes "tunerfind2 name a m f = Some (Inr (), f')"
  shows "asked_on (if link_local a m then 1 else 0) f f'"
proof (cases "link_local a m")
  case False
  with assms show ?thesis by (simp add: tunerfind2_def asked_on_def)
next
  case True
  let ?f = "f\<lparr>iface_found := iface_found f + 1\<rparr>"
  from assms True obtain f1 x fd f2 where f1: "on_os get_hw_addr ?f = Some (Inr x, f1)"
    and f2: "on_os ask_socket f1 = Some (Inr fd, f2)"
    and fd: "fd \<noteq> -1" and rest: "thenM (closing fd udp_bind) (thenM (closing fd (udp_pkt_sendto (a OR NOT m) hdhomerun_port discover_frame))
      (loopM os (answer fd a))) f2 = Some (Inr (), f')"
    by (auto simp: tunerfind2_def discover_pkt_framed thenM_Inr_iff bindM_Inr_iff change_def split: if_splits)
  have "finder_kept ?f f1" using keeps_okD [OF kept_on_os [OF kept_hw] f1] .
  moreover have "asked_on 1 f f2" if "finder_kept ?f f1"
    using that f2 fd by (auto simp: on_os_iff ask_socket_def asked_on_def finder_kept_def descriptors_kept_def socket_fds_def
        intro!: exI [of _ "{#fd#}"] split: list.splits os_event.splits)
  moreover have "keeps_ok finder_kept (thenM (closing fd udp_bind)
      (thenM (closing fd (udp_pkt_sendto (a OR NOT m) hdhomerun_port discover_frame)) (loopM os (answer fd a))))"
    by (intro fkept.ok_then fkept.ok_loop kept_closing kept_udp kept_answer)
  from asked_on_kept [OF keeps_okD [OF this rest]] have "asked_on 0 f2 f'" .
  ultimately show ?thesis using asked_on_trans [of 1 f f2 0 f'] True by simp
qed

lemma asked_foreach:
  "foreach_if_af_inet ifas tunerfind2 f = Some (Inr (), f') \<Longrightarrow> asked_on (length (filter link_if ifas)) f f'"
proof (induction ifas arbitrary: f)
  case Nil
  then show ?case by (simp add: asked_on_def)
next
  case (Cons ifa ifas)
  consider (skip) "\<not> link_if ifa" "foreach_if_af_inet ifas tunerfind2 f = Some (Inr (), f')"
    | (call) a m f1 where "link_if ifa \<longleftrightarrow> link_local a m" "tunerfind2 (ifa_name ifa) a m f = Some (Inr (), f1)"
        "foreach_if_af_inet ifas tunerfind2 f1 = Some (Inr (), f')"
    using Cons.prems link_local_nonzero
    by (fastforce simp: link_if_def thenM_Inr_iff split: option.splits if_splits)
  then show ?case
  proof cases
    case skip
    with Cons.IH show ?thesis by simp
  next
    case call
    from asked_on_trans [OF asked_tunerfind2 [OF call(2)] Cons.IH [OF call(3)]] call(1)
    show ?thesis by (cases "link_local a m") simp_all
  qed
qed

text \<open>A successful discovery leaks one socket for every interface it asked on: it opened one more than
  there are interfaces with a link-local address and closed only the one it asked the kernel with. The
  array it returns is the only block it leaves allocated.\<close>

lemma found_sockets:
  assumes "socket_find (Some ifas) w = Some (Inr (Some l), w')"
  shows "(\<exists>k left. closed_fds (trace w') = closed_fds (trace w) @ [k] \<and>
      socket_fds w = socket_fds w' + {#k#} + left \<and> size left = length (filter link_if ifas)) \<and>
    filter link_if ifas \<noteq> [] \<and> blocks w' = blocks w + 1"
  using assms
proof (cases rule: socket_find_cases)
  case (some k es f)
  let ?f = "new_finder (w\<lparr>blocks := blocks w + 1, script := es\<rparr>)"
  from some(3) obtain q f1 where q: "foreach_if_af_inet ifas tunerfind2 ?f = Some (q, f1)"
    and ok: "\<not> (case q of Inl e \<Rightarrow> True | Inr _ \<Rightarrow> iface_found f1 = 0)" "os f = emit (Closed k) (os f1)"
    by (auto simp: find_in_def foreach_if_def tryM_Some_iff bindM_Some_iff thenM_Some_iff query_def on_os_iff act_def
        split: if_splits)
  then have f1: "foreach_if_af_inet ifas tunerfind2 ?f = Some (Inr (), f1)"
    and "iface_found f1 \<noteq> 0" "os f = emit (Closed k) (os f1)" by (cases q; simp)+
  with asked_foreach [OF f1] some(1,2,4) show ?thesis
    by (auto simp: asked_on_def new_finder_def socket_fds_def)
qed simp

end
