(* ===== verification/Sez_Scan.thy ===== *)
theory Sez_Scan
  imports Sez_Tuner "HOL-Library.Multiset" "HOL-Library.Sublist"
begin

text \<open>
  The channel scan, \<^verbatim>\<open>tuner::scan\<close> of \<^verbatim>\<open>tuner.cpp\<close>: both demodulators step through the table of
  channels in parallel, first the even then the odd indices, on the antenna in use or on one
  antenna after the other; the channels found come back as a sorted array.
\<close>

subsection \<open>The code\<close>

text \<open>\<^verbatim>\<open>tuner_scan_cmp\<close>, and \<^verbatim>\<open>qsort\<close> with it. Elements that compare equal are equal, so the result
  of \<^verbatim>\<open>qsort\<close> does not depend on its algorithm.\<close>

definition tuner_scan_cmp :: "u32 \<Rightarrow> u32 \<Rightarrow> int" where
  "tuner_scan_cmp a b = sint (a - b)"

fun cmp_insert :: "u32 \<Rightarrow> u32 list \<Rightarrow> u32 list" where
  "cmp_insert x [] = [x]"
| "cmp_insert x (y # ys) = (if tuner_scan_cmp x y \<le> 0 then x # y # ys else y # cmp_insert x ys)"

definition qsort_found :: "u32 list \<Rightarrow> u32 list" where
  "qsort_found xs = foldr cmp_insert xs []"

text \<open>\<^verbatim>\<open>tuner_scan_call_cb\<close>: the position of a channel in the order of the scan, and the numbers the
  callback is called with. The arithmetic is that of \<^verbatim>\<open>unsigned\<close>, \<open>found\<close> holds what was found.\<close>

definition scan_position :: "u32 \<Rightarrow> u32" where
  "scan_position i = i div 4 + (i AND 1) * 13"

definition scan_progress :: "u32 \<Rightarrow> tuner_antennas \<Rightarrow> bool \<Rightarrow> u32 list \<Rightarrow> u32 \<times> u32" where
  "scan_progress i0 ant ant_valid found =
    (let n = 25;
         i = (if i0 \<noteq> 0 then scan_position (i0 - 1) + 1 else i0);
         shift = (if ant = ant2 then n else if ant = coax then n * 2 else 0)
     in if ant_valid then (i, n + 1)
        else
          (let i = (if length found \<ge> 3 then
                 (let found_i = scan_position (last found);
                      found_i3 = found_i + shift
                  in if found_i < n
                     then (i - found_i) * (n * 3 - found_i3 + 1) div (n - found_i + 1) + found_i
                     else i)
               else i)
           in (i + shift, n * 3 + 1)))"

definition call_cb :: "bool \<Rightarrow> u32 \<Rightarrow> bool \<Rightarrow> u32 list \<Rightarrow> unit tuner_cmd" where
  "call_cb cb i ant_valid found =
    bindM (gets active_ant) (\<lambda>ant.
      if cb then
        (case scan_progress i ant ant_valid found of (idx, mx) \<Rightarrow>
           sock (\<lambda>w. Some (Inr (), emit (Progress idx mx) w)))
      else ret ())"

text \<open>The values the loop variable \<open>i\<close> takes in the body of the inner loop, from its head.\<close>

function schedule :: "nat \<Rightarrow> nat list" where
  "schedule i =
    (if i \<ge> 50 then (if odd i then [] else 1 # schedule (1 + 4)) else i # schedule (i + 4))"
  by pat_completeness auto
termination by (relation "measure (\<lambda>i. if odd i then 54 - i else 60 + (54 - i))") auto

declare schedule.simps [simp del]

text \<open>Tune channel \<open>j\<close> to the table entry \<open>i + 2 j\<close>, and ask whether it locked.\<close>

definition scan_tune :: "(nat \<Rightarrow> u32) \<Rightarrow> u32 \<Rightarrow> nat \<Rightarrow> nat \<Rightarrow> unit tuner_cmd" where
  "scan_tune beyond cr_ms i j =
    (if i + j * 2 < 50 then
       if ch_freq ! (i + j * 2) = 0 then ret ()
       else set_freq beyond (of_nat j) (of_nat (i + j * 2) + TVCH_MIN)
              (if cr_ms \<le> 20 then cr_ms else 0)
     else ret ())"

definition scan_check :: "nat \<Rightarrow> nat \<Rightarrow> u32 list \<Rightarrow> u32 list tuner_cmd" where
  "scan_check i j found =
    (if i + j * 2 < 50 then
       bindM (sock (get_demod8 (of_nat j) 0x11d)) (\<lambda>b.
       if b AND 0x80 = 0 then ret found
       else
         thenM (sock (note_store (4 * 50) (4 * (length found + 1))))
         (bindM (gets ch_state) (\<lambda>cs. ret (found @ [ch_tvch (cs (of_nat j))]))))
     else ret found)"

definition scan_step :: "(nat \<Rightarrow> u32) \<Rightarrow> bool \<Rightarrow> bool \<Rightarrow> u32 \<Rightarrow> nat \<Rightarrow> u32 list \<Rightarrow> u32 list tuner_cmd" where
  "scan_step beyond cb ant_valid cr_ms i found =
    thenM (call_cb cb (of_nat i + 1) ant_valid found)
    (thenM (scan_tune beyond cr_ms i 0)
    (thenM (scan_tune beyond cr_ms i 1)
    (thenM (if cr_ms > 20 then sock (usleep (unat ((cr_ms - 20) * 1000))) else ret ())
    (bindM (scan_check i 0 found) (scan_check i 1)))))"

fun scan_pass :: "(nat \<Rightarrow> u32) \<Rightarrow> bool \<Rightarrow> bool \<Rightarrow> u32 \<Rightarrow> nat list \<Rightarrow> u32 list \<Rightarrow> u32 list tuner_cmd" where
  "scan_pass beyond cb ant_valid cr_ms [] found = ret found"
| "scan_pass beyond cb ant_valid cr_ms (i # is) found =
    bindM (scan_step beyond cb ant_valid cr_ms i found) (scan_pass beyond cb ant_valid cr_ms is)"

text \<open>The error exits that free \<^verbatim>\<open>find\<close>; the label \<^verbatim>\<open>fail\<close> also restores register 0x12a.\<close>

definition or_free :: "'a tuner_cmd \<Rightarrow> 'a tuner_cmd" where
  "or_free m = tryM m (\<lambda>r. case r of Inl e \<Rightarrow> thenM (sock free_block) (fail e) | Inr x \<Rightarrow> ret x)"

definition or_restore :: "u8 \<Rightarrow> u8 \<Rightarrow> 'a tuner_cmd \<Rightarrow> 'a tuner_cmd" where
  "or_restore old0 old1 m = tryM m (\<lambda>r. case r of
      Inl e \<Rightarrow> thenM (sock free_block)
        (tryM (sock (set_demod8 0 0x12a old0)) (\<lambda>_.
         tryM (sock (set_demod8 1 0x12a old1)) (\<lambda>_. fail e)))
    | Inr x \<Rightarrow> ret x)"

text \<open>\<^verbatim>\<open>(tuner_antennas) (get_antenna() + 1)\<close>\<close>

fun ant_next :: "tuner_antennas \<Rightarrow> tuner_antennas" where
  "ant_next nc = ant1" | "ant_next ant1 = ant2" | "ant_next ant2 = coax" | "ant_next coax = coax"

text \<open>The outer loop, one round per antenna; the first argument bounds the rounds.\<close>

fun scan_rounds ::
  "nat \<Rightarrow> (nat \<Rightarrow> u32) \<Rightarrow> bool \<Rightarrow> bool \<Rightarrow> u32 \<Rightarrow> u8 \<Rightarrow> u8 \<Rightarrow> u32 list \<Rightarrow> u32 list tuner_cmd" where
  "scan_rounds 0 beyond cb ant_valid cr_ms old0 old1 found = (\<lambda>_. None)"
| "scan_rounds (Suc n) beyond cb ant_valid cr_ms old0 old1 found =
    bindM (or_restore old0 old1 (scan_pass beyond cb ant_valid cr_ms (schedule 0) found)) (\<lambda>found.
    if length found \<ge> 3 \<or> ant_valid then ret found
    else bindM (gets active_ant) (\<lambda>ant.
      if ant = coax then ret found
      else
        thenM (set_amp 0 off)
        (thenM (set_amp 1 off)
        (thenM (or_free (set_antenna beyond (ant_next ant)))
        (scan_rounds n beyond cb ant_valid cr_ms old0 old1 found)))))"

definition quiet_fm :: "u8 \<Rightarrow> u8 tuner_cmd" where
  "quiet_fm j = sock (bindM (get_demod8 j 0x12a) (\<lambda>old.
     thenM (set_demod8 j 0x12a (old AND NOT 0x20)) (ret old)))"

text \<open>There are three antennas, so three rounds are enough.\<close>

definition scan_from :: "(nat \<Rightarrow> u32) \<Rightarrow> bool \<Rightarrow> bool \<Rightarrow> u32 \<Rightarrow> u32 list tuner_cmd" where
  "scan_from beyond cb ant_valid cr_ms =
    bindM (sock malloc) (\<lambda>ok.
    if \<not> ok then fail No_Memory
    else
      thenM (call_cb cb 0 ant_valid [])
      (bindM (or_free (quiet_fm 0)) (\<lambda>old0.
      bindM (or_free (quiet_fm 1)) (\<lambda>old1.
      bindM (scan_rounds 3 beyond cb ant_valid cr_ms old0 old1 []) (\<lambda>found.
      thenM (or_free (sock (thenM (set_demod8 0 0x12a old0) (set_demod8 1 0x12a old1))))
      (ret (qsort_found found)))))))"

text \<open>The result is the array \<^verbatim>\<open>*chlist\<close>, a block the caller owns.\<close>

definition scan :: "(nat \<Rightarrow> u32) \<Rightarrow> bool \<Rightarrow> u32 \<Rightarrow> u32 list tuner_cmd" where
  "scan beyond cb cr_ms =
    bindM (gets active_ant) (\<lambda>ant.
    if ant = nc then
      bindM (gets ch_state) (\<lambda>cs.
      if ch_i (cs 0) \<noteq> off \<or> ch_i (cs 1) \<noteq> off then fail Amps_On
      else thenM (set_antenna beyond ant1)
        (scan_from beyond cb False (if cr_ms < 20 then 20 else cr_ms)))
    else scan_from beyond cb True cr_ms)"

subsection \<open>Order\<close>

text \<open>The table entries one step is about, for one value of \<open>i\<close>: that they are the ones tuned to is shown below.\<close>

definition visited :: "nat \<Rightarrow> nat list" where
  "visited i = i # (if i + 2 < 50 then [i + 2] else [])"

lemma schedule_0: "schedule 0 =
  [0, 4, 8, 12, 16, 20, 24, 28, 32, 36, 40, 44, 48, 1, 5, 9, 13, 17, 21, 25, 29, 33, 37, 41, 45, 49]"
  by code_simp

lemma visited_schedule: "concat (map visited (schedule 0)) =
  map (\<lambda>k. 2 * k) [0..<25] @ map (\<lambda>k. 2 * k + 1) [0..<25]"
  by code_simp

subsection \<open>Sorting\<close>

lemma cmp_le:
  assumes "a < 2 ^ 31" and "b < 2 ^ 31"
  shows "tuner_scan_cmp a b \<le> 0 \<longleftrightarrow> a \<le> b"
proof -
  have u: "uint a < 2 ^ 31" "uint b < 2 ^ 31" "0 \<le> uint a" "0 \<le> uint b"
    using assms by (simp_all add: word_less_def)
  have v: "- (2 ^ 31) \<le> uint a - uint b" "uint a - uint b < 2 ^ 31" using u by linarith+
  have "sint (a - b) = signed_take_bit 31 (uint a - uint b)"
    using signed_take_bit_take_bit [of 31 32 "uint a - uint b"]
    by (simp add: sint_uint uint_word_ariths take_bit_eq_mod)
  also have "\<dots> = uint a - uint b"
    using v by (intro signed_take_bit_int_eq_self) simp_all
  finally show ?thesis by (simp add: tuner_scan_cmp_def word_le_def)
qed

lemma mset_cmp_insert: "mset (cmp_insert x xs) = add_mset x (mset xs)"
  by (induction xs) auto

lemma mset_qsort_found: "mset (qsort_found xs) = mset xs"
  by (induction xs) (simp_all add: qsort_found_def mset_cmp_insert)

lemma set_qsort_found: "set (qsort_found xs) = set xs"
  using mset_qsort_found by (metis set_mset_mset)

lemma sorted_cmp_insert:
  "sorted xs \<Longrightarrow> \<forall>y \<in> set (x # xs). y < 2 ^ 31 \<Longrightarrow> sorted (cmp_insert x xs)"
proof (induction xs)
  case (Cons y ys)
  have "set (cmp_insert x ys) = insert x (set ys)"
    by (metis mset_cmp_insert set_mset_add_mset_insert set_mset_mset)
  with Cons cmp_le [of x y] show ?case by (fastforce simp del: One_nat_def)
qed simp

lemma sorted_qsort_found: "\<forall>y \<in> set xs. y < 2 ^ 31 \<Longrightarrow> sorted (qsort_found xs)"
proof (induction xs)
  case (Cons x xs)
  then have "sorted (qsort_found xs)" "\<forall>y \<in> set (x # qsort_found xs). y < 2 ^ 31"
    by (simp_all add: set_qsort_found)
  then show ?case using sorted_cmp_insert by (simp add: qsort_found_def)
qed (simp add: qsort_found_def)

subsection \<open>What a pass over the table finds\<close>

lemma set_freq_tvch:
  assumes "set_freq beyond ch tvch ms t = Some (Inr u, t')" and "tvch \<noteq> -1"
  shows "ch_tvch (ch_state t' ch) = tvch"
  using set_freq_ok [OF assms(1)] assms(2) by auto

lemma ch_freq_nonzero: "i < 50 \<Longrightarrow> ch_freq ! i \<noteq> 0"
proof -
  assume "i < 50"
  have "list_all (\<lambda>f. f \<noteq> 0) ch_freq" by code_simp
  with \<open>i < 50\<close> show ?thesis by (simp add: list_all_length)
qed

definition tvch_of :: "nat \<Rightarrow> u32" where
  "tvch_of k = of_nat (k + 2)"

lemma tvch_of_range: "k < 50 \<Longrightarrow> 2 \<le> tvch_of k \<and> tvch_of k \<le> 51 \<and> tvch_of k \<noteq> -1"
proof -
  assume k: "k < 50"
  have "list_all (\<lambda>k. 2 \<le> tvch_of k \<and> tvch_of k \<le> 51 \<and> tvch_of k \<noteq> -1) [0..<50]" by code_simp
  with k show ?thesis by (simp add: list_all_iff)
qed

lemma unat_tvch_of: "k < 50 \<Longrightarrow> unat (tvch_of k) = k + 2"
  unfolding tvch_of_def unat_of_nat by simp

lemma tvch_of_inj: "j < 50 \<Longrightarrow> k < 50 \<Longrightarrow> tvch_of j = tvch_of k \<Longrightarrow> j = k"
  by (drule arg_cong [where f = unat]) (simp only: unat_tvch_of)

lemma scan_tune_ok:
  assumes "scan_tune beyond cr_ms i j t = Some (Inr u, t')" and "j < 2"
  shows "active_ant t' = active_ant t \<and>
    (i + j * 2 < 50 \<longrightarrow> ch_tvch (ch_state t' (of_nat j)) = tvch_of (i + j * 2)) \<and>
    (c \<noteq> of_nat j \<longrightarrow> ch_tvch (ch_state t' c) = ch_tvch (ch_state t c))"
proof (cases "i + j * 2 < 50")
  case True
  let ?ms = "if cr_ms \<le> 20 then cr_ms else 0"
  have tv: "of_nat (i + j * 2) + 2 = tvch_of (i + j * 2)" by (simp add: tvch_of_def)
  from True assms(1) have "set_freq beyond (of_nat j) (of_nat (i + j * 2) + 2) ?ms t = Some (Inr u, t')"
    unfolding scan_tune_def using ch_freq_nonzero [OF True] by (simp only: if_True if_False)
  then have s: "set_freq beyond (of_nat j) (tvch_of (i + j * 2)) ?ms t = Some (Inr u, t')"
    unfolding tv .
  show ?thesis
    using set_freq_tvch [OF s] tvch_of_range [OF True] set_freq_fields(2,5) [OF s] by blast
qed (use assms in \<open>simp add: scan_tune_def\<close>)

lemma scan_check_ok:
  assumes "scan_check i j found t = Some (Inr found', t')"
  shows "(\<exists>w. t' = t\<lparr>net := w\<rparr> \<and> blocks w = blocks (net t)) \<and>
    (found' = found \<or> i + j * 2 < 50 \<and> found' = found @ [ch_tvch (ch_state t (of_nat j))])"
proof (cases "i + j * 2 < 50")
  case True
  with assms obtain b t1 where 1: "sock (get_demod8 (of_nat j) 0x11d) t = Some (Inr b, t1)" and
    2: "(if b AND 0x80 = 0 then ret found
       else thenM (sock (note_store (4 * 50) (4 * (length found + 1))))
         (bindM (gets ch_state) (\<lambda>cs. ret (found @ [ch_tvch (cs (of_nat j))])))) t1 = Some (Inr found', t')"
    unfolding scan_check_def by (simp only: if_True bindM_Inr_iff) blast
  from 1 have "\<exists>w. t1 = t\<lparr>net := w\<rparr> \<and> blocks w = blocks (net t)" by (auto dest: get_demod8_ok)
  with 2 True show ?thesis
    by (auto simp: thenM_Inr_iff note_store_def emit_def split: if_splits)
qed (use assms in \<open>auto simp: scan_check_def intro: exI [of _ "net t"]\<close>)

lemma call_cb_ok:
  "call_cb cb i v found t = Some (r, t') \<Longrightarrow>
   r = Inr () \<and> (\<exists>w. t' = t\<lparr>net := w\<rparr> \<and> blocks w = blocks (net t) \<and> script w = script (net t))"
  by (auto simp: call_cb_def emit_def split: if_splits prod.splits intro: exI [of _ "net t"])

lemma scan_step_ok:
  assumes "scan_step beyond cb v cr_ms i found t = Some (Inr found', t')" and "i < 50"
  shows "active_ant t' = active_ant t \<and>
    (\<exists>fs. subseq fs (map tvch_of (visited i)) \<and> found' = found @ fs)"
proof -
  from assms(1) obtain u0 t0 u1 t1 u2 t2 u3 t3 f4 t4 where
    0: "call_cb cb (of_nat i + 1) v found t = Some (Inr u0, t0)" and
    1: "scan_tune beyond cr_ms i 0 t0 = Some (Inr u1, t1)" and
    2: "scan_tune beyond cr_ms i 1 t1 = Some (Inr u2, t2)" and
    3: "(if cr_ms > 20 then sock (usleep (unat ((cr_ms - 20) * 1000))) else ret ()) t2 = Some (Inr u3, t3)" and
    4: "scan_check i 0 found t3 = Some (Inr f4, t4)" and
    5: "scan_check i 1 f4 t4 = Some (Inr found', t')"
    unfolding scan_step_def thenM_Inr_iff bindM_Inr_iff by blast
  from 3 have 3: "active_ant t3 = active_ant t2" "ch_state t3 = ch_state t2"
    by (auto split: if_splits)
  from scan_tune_ok [OF 1, of 1] scan_tune_ok [OF 2, of 0] assms(2) have
    c: "active_ant t2 = active_ant t0" "ch_tvch (ch_state t2 0) = tvch_of i"
      "i + 2 < 50 \<longrightarrow> ch_tvch (ch_state t2 1) = tvch_of (i + 2)" by simp_all
  from call_cb_ok [OF 0] have "active_ant t0 = active_ant t" by auto
  with c 3 scan_check_ok [OF 4] scan_check_ok [OF 5]
  have a: "active_ant t' = active_ant t" and
    f4: "f4 = found \<or> f4 = found @ [tvch_of i]" and
    f5: "found' = f4 \<or> i + 2 < 50 \<and> found' = f4 @ [tvch_of (i + 2)]" by auto
  have "\<exists>fs. subseq fs (map tvch_of (visited i)) \<and> found' = found @ fs"
    using f4 f5
  proof (elim disjE conjE)
  qed (auto simp: visited_def)
  with a show ?thesis by blast
qed


lemma scan_pass_ok:
  "scan_pass beyond cb v cr_ms is found t = Some (Inr found', t') \<Longrightarrow> \<forall>i \<in> set is. i < 50 \<Longrightarrow>
   active_ant t' = active_ant t \<and>
   (\<exists>fs. subseq fs (map tvch_of (concat (map visited is))) \<and> found' = found @ fs)"
proof (induction "is" arbitrary: found t)
  case (Cons i "is")
  from Cons.prems(1) obtain f1 t1 where
    1: "scan_step beyond cb v cr_ms i found t = Some (Inr f1, t1)" and
    2: "scan_pass beyond cb v cr_ms is f1 t1 = Some (Inr found', t')"
    by (auto simp: bindM_Inr_iff)
  from scan_step_ok [OF 1] Cons.prems(2) obtain f where
    f: "active_ant t1 = active_ant t" "subseq f (map tvch_of (visited i))" "f1 = found @ f" by auto
  from Cons.IH [OF 2] Cons.prems(2) obtain fs where
    fs: "active_ant t' = active_ant t1" "subseq fs (map tvch_of (concat (map visited is)))"
      "found' = f1 @ fs" by auto
  have "subseq (f @ fs) (map tvch_of (concat (map visited (i # is))))"
    using list_emb_append_mono [OF f(2) fs(2)] by simp
  with f fs show ?case by auto
qed simp

lemma distinct_channels: "distinct (map tvch_of (concat (map visited (schedule 0))))"
proof -
  have "distinct (concat (map visited (schedule 0)))"
    unfolding visited_schedule by code_simp
  moreover have "\<forall>k \<in> set (concat (map visited (schedule 0))). k < 50"
    unfolding visited_schedule by auto
  ultimately show ?thesis
    unfolding distinct_map inj_on_def using tvch_of_inj by blast
qed

lemma channels_range: "set (map tvch_of (concat (map visited (schedule 0)))) \<subseteq> {2..51}"
proof -
  have "\<forall>k \<in> set (concat (map visited (schedule 0))). k < 50"
    unfolding visited_schedule by auto
  then show ?thesis using tvch_of_range unfolding set_map atLeastAtMost_def atLeast_def atMost_def
    by blast
qed

lemma length_channels: "length (map tvch_of (concat (map visited (schedule 0)))) = 50"
  unfolding visited_schedule by simp

lemma full_pass_ok:
  assumes "scan_pass beyond cb v cr_ms (schedule 0) found t = Some (Inr found', t')"
  shows "active_ant t' = active_ant t \<and>
    (\<exists>fs. distinct fs \<and> set fs \<subseteq> {2..51} \<and> length fs \<le> 50 \<and> found' = found @ fs)"
proof -
  have "\<forall>i \<in> set (schedule 0). i < 50" unfolding schedule_0 by simp
  from scan_pass_ok [OF assms this] obtain fs where
    fs: "active_ant t' = active_ant t" "found' = found @ fs"
      "subseq fs (map tvch_of (concat (map visited (schedule 0))))" by blast
  from fs(3) obtain N where N: "fs = nths (map tvch_of (concat (map visited (schedule 0)))) N"
    unfolding subseq_conv_nths by blast
  have "distinct fs" unfolding N by (rule distinct_nthsI [OF distinct_channels])
  moreover have "set fs \<subseteq> {2..51}"
    unfolding N by (rule order_trans [OF set_nths_subset channels_range])
  moreover have "length fs \<le> 50"
    using list_emb_length [OF fs(3)] length_channels by simp
  ultimately show ?thesis using fs(1,2) by blast
qed

subsection \<open>The heap and the wire during a scan\<close>

definition net_blocks :: "tuner \<Rightarrow> tuner \<Rightarrow> bool" where
  "net_blocks t t' \<longleftrightarrow> same_blocks (net t) (net t')"

interpretation stock: state_order net_blocks
  unfolding net_blocks_def by unfold_locales (simp_all add: same_blocks_def)

lemma set_amp_stock: "keeps_ok net_blocks (set_amp ch s)"
  unfolding keeps_ok_def net_blocks_def same_blocks_def using set_amp_fields(5) by blast

lemma set_freq_stock: "keeps_ok net_blocks (set_freq beyond ch tvch ms)"
  unfolding keeps_ok_def net_blocks_def same_blocks_def
proof (intro allI impI)
  fix t u t' assume "set_freq beyond ch tvch ms t = Some (Inr u, t')"
  from set_freq_ok [OF this] show "blocks (net t') = blocks (net t)"
    by (auto dest!: set_amp_fields(5) bus.response dest: reset_demod_blocks split: if_splits)
qed

lemma gets_stock: "keeps_ok net_blocks (gets f)"
  by (simp add: keeps_ok_def net_blocks_def same_blocks_def)

lemma modify_stock: "(\<And>t. net (f t) = net t) \<Longrightarrow> keeps_ok net_blocks (modify f)"
  by (simp add: keeps_ok_def net_blocks_def same_blocks_def)

lemma set_antenna_stock: "keeps_ok net_blocks (set_antenna beyond ant)"
  unfolding set_antenna_def apply_antenna_def Let_def
  by (intro stock.ok_intros gets_stock modify_stock set_amp_stock set_freq_stock) simp

lemma sock_stock: "keeps_ok same_blocks m \<Longrightarrow> keeps_ok net_blocks (sock m)"
  by (auto simp: keeps_ok_def net_blocks_def)

lemma commands_stock:
  "keeps_ok same_blocks (get_demod8 ch a)" "keeps_ok same_blocks (set_demod8 ch a v)"
  "keeps_ok same_blocks (usleep n)" "keeps_ok same_blocks (note_store c k)"
  "keeps_ok same_blocks (\<lambda>w. Some (Inr (), emit x w))"
  by (auto simp: keeps_ok_def same_blocks_def usleep_def note_store_def
      dest: get_demod8_ok set_demod8_ok)

lemma scan_step_stock: "keeps_ok net_blocks (scan_step beyond cb v cr_ms i found)"
  unfolding scan_step_def call_cb_def scan_tune_def scan_check_def case_prod_beta
  by (intro stock.ok_intros gets_stock set_freq_stock sock_stock commands_stock)

lemma scan_pass_stock: "keeps_ok net_blocks (scan_pass beyond cb v cr_ms is found)"
  by (induction "is" arbitrary: found) (auto intro!: stock.ok_intros scan_step_stock)

lemma or_free_Inr: "or_free m t = Some (Inr x, t') \<longleftrightarrow> m t = Some (Inr x, t')"
  by (auto simp: or_free_def tryM_Some_iff thenM_Inr_iff split: sum.splits) (metis sum.exhaust)

lemma or_restore_Inr: "or_restore a b m t = Some (Inr x, t') \<longleftrightarrow> m t = Some (Inr x, t')"
  by (auto simp: or_restore_def tryM_Some_iff thenM_Inr_iff split: sum.splits) (metis sum.exhaust)

lemma keeps_ok_or_free: "keeps_ok R m \<Longrightarrow> keeps_ok R (or_free m)"
  by (simp add: keeps_ok_def or_free_Inr)

lemma keeps_ok_or_restore: "keeps_ok R m \<Longrightarrow> keeps_ok R (or_restore a b m)"
  by (simp add: keeps_ok_def or_restore_Inr)

lemma scan_rounds_stock: "keeps_ok net_blocks (scan_rounds n beyond cb v cr_ms a b found)"
proof (induction n arbitrary: found)
  case (Suc n)
  then show ?case
    by (auto intro!: stock.ok_intros keeps_ok_or_free keeps_ok_or_restore scan_pass_stock gets_stock
        set_amp_stock set_antenna_stock)
qed (simp add: keeps_ok_def)

lemma scan_step_extends: "keeps net_extends (scan_step beyond cb v cr_ms i found)"
proof -
  have "keeps extends (\<lambda>w. Some (Inr (), emit x w))" for x
    by (auto simp: keeps_def extends_def emit_def)
  then show ?thesis
    unfolding scan_step_def call_cb_def scan_tune_def scan_check_def case_prod_beta
    by (intro wire.keeps_intros gets_extends set_freq_extends sock_extends commands_grow
        keeps_extends_calls)
qed

lemma scan_pass_extends: "keeps net_extends (scan_pass beyond cb v cr_ms is found)"
  by (induction "is" arbitrary: found) (auto intro!: wire.keeps_intros scan_step_extends)

lemma scan_rounds_extends: "keeps_ok net_extends (scan_rounds n beyond cb v cr_ms a b found)"
proof (induction n arbitrary: found)
  case (Suc n)
  then show ?case
    by (auto intro!: wire.ok_intros keeps_ok_or_free keeps_ok_or_restore
        keeps_imp_ok [OF scan_pass_extends] keeps_imp_ok [OF gets_extends]
        keeps_imp_ok [OF set_amp_extends] keeps_imp_ok [OF set_antenna_extends])
qed (simp add: keeps_ok_def)

subsection \<open>Invariants across a scan\<close>

text \<open>What the scan needs of the tuner: the operations it calls keep a property of the tuner's
  fields when they succeed.\<close>

locale scan_client =
  fixes P :: "tuner \<Rightarrow> bool"
  assumes net_free: "P (t\<lparr>net := w\<rparr>) = P t"
    and switch_off: "set_amp c off t = Some (Inr u, t') \<Longrightarrow> P t \<Longrightarrow> P t'"
    and tune: "set_freq beyond c tvch ms t = Some (Inr u, t') \<Longrightarrow> P t \<Longrightarrow> P t'"
    and select: "set_antenna beyond ant t = Some (Inr u, t') \<Longrightarrow> P t \<Longrightarrow> P t'"

sublocale scan_client \<subseteq> state_order "\<lambda>t t'. P t \<longrightarrow> P t'"
  by unfold_locales simp_all

context scan_client begin

abbreviation (input) kept where "kept \<equiv> \<lambda>t t'. P t \<longrightarrow> P t'"

lemma calls:
  "keeps_ok kept (sock m)" "keeps_ok kept (gets f)" "keeps_ok kept (set_amp c off)"
  "keeps_ok kept (set_freq beyond c tvch ms)" "keeps_ok kept (set_antenna beyond ant)"
  using switch_off tune select by (auto simp: keeps_ok_def net_free)

lemma step: "keeps_ok kept (scan_step beyond cb v cr_ms i found)"
  unfolding scan_step_def call_cb_def scan_tune_def scan_check_def case_prod_beta
  by (intro ok_intros calls)

lemma pass: "keeps_ok kept (scan_pass beyond cb v cr_ms is found)"
  by (induction "is" arbitrary: found) (auto intro!: ok_intros step)

lemma rounds: "keeps_ok kept (scan_rounds n beyond cb v cr_ms a b found)"
proof (induction n arbitrary: found)
  case (Suc n)
  then show ?case
    by (auto intro!: ok_intros keeps_ok_or_free keeps_ok_or_restore pass calls)
qed (simp add: keeps_ok_def)

lemma whole: "keeps_ok kept (scan beyond cb cr_ms)"
  unfolding scan_def scan_from_def quiet_fm_def call_cb_def case_prod_beta
  by (intro ok_intros keeps_ok_or_free rounds calls)

end

lemma set_amp_off_tuned:
  assumes "set_amp c off t = Some (Inr u, t')" and "tuned t"
  shows "tuned t'"
proof -
  have "channel_fits (active_ant t) (ch_state t' k)" if "channel_fits (active_ant t) (ch_state t k)" for k
  proof (cases "k = c")
    case True
    then show ?thesis using set_amp_fields(4) [OF assms(1)] by (simp add: channel_fits_off)
  next
    case False
    with set_amp_fields(3,4) [OF assms(1), of k] that show ?thesis
      by (simp add: channel_fits_def)
  qed
  with assms(2) set_amp_fields(2) [OF assms(1)] show ?thesis by (simp add: tuned_def)
qed

interpretation sweep: scan_client "\<lambda>t. tuned t \<and> coherent t"
proof unfold_locales
  fix t w show "(tuned (t\<lparr>net := w\<rparr>) \<and> coherent (t\<lparr>net := w\<rparr>)) = (tuned t \<and> coherent t)"
    by (simp add: tuned_def coherent_def)
next
  fix c t u t'
  assume "set_amp c off t = Some (Inr u, t')" "tuned t \<and> coherent t"
  then show "tuned t' \<and> coherent t'" using set_amp_off_tuned lines.amp by blast
next
  fix beyond c tvch ms t u t'
  assume "set_freq beyond c tvch ms t = Some (Inr u, t')" "tuned t \<and> coherent t"
  then show "tuned t' \<and> coherent t'"
    using set_freq_tuned keeps_okD [OF lines.set_freq_keeps] by blast
next
  fix beyond ant t u t'
  assume "set_antenna beyond ant t = Some (Inr u, t')" "tuned t \<and> coherent t"
  then show "tuned t' \<and> coherent t'"
    using set_antenna_tuned keeps_okD [OF lines.set_antenna_keeps] by blast
qed

subsection \<open>The result of a scan\<close>

lemma set_amp_antenna: "set_amp c s t = Some (r, t') \<Longrightarrow> active_ant t' = active_ant t"
  using set_amp_fields(2) set_amp_err(2) by (cases r) blast+

lemma apply_antenna_antenna:
  "apply_antenna beyond ant ch t = Some (Inr u, t') \<Longrightarrow> active_ant t' = active_ant t"
  by (auto simp: apply_antenna_def Let_def dest: set_amp_antenna set_freq_fields(2) split: if_splits)

lemma antenna_selected:
  "set_antenna beyond ant t = Some (Inr u, t') \<Longrightarrow> active_ant t' = ant"
  by (auto simp: set_antenna_def thenM_Inr_iff dest!: apply_antenna_antenna)

lemma scan_rounds_ok:
  "scan_rounds n beyond cb v cr_ms a b found t = Some (Inr res, t') \<Longrightarrow> active_ant t \<noteq> nc \<Longrightarrow>
   length found \<le> 2 \<Longrightarrow> set found \<subseteq> {2..51} \<Longrightarrow>
   length res \<le> 52 \<and> set res \<subseteq> {2..51} \<and> active_ant t' \<noteq> nc \<and>
   (v \<longrightarrow> active_ant t' = active_ant t \<and> (\<exists>fs. distinct fs \<and> length fs \<le> 50 \<and> res = found @ fs))"
proof (induction n arbitrary: found t)
  case (Suc n)
  from Suc.prems(1) obtain f t1 where
    1: "scan_pass beyond cb v cr_ms (schedule 0) found t = Some (Inr f, t1)" and
    2: "(if length f \<ge> 3 \<or> v then ret f
       else bindM (gets active_ant) (\<lambda>ant. if ant = coax then ret f
         else thenM (set_amp 0 off) (thenM (set_amp 1 off)
           (thenM (or_free (set_antenna beyond (ant_next ant)))
           (scan_rounds n beyond cb v cr_ms a b f))))) t1 = Some (Inr res, t')"
    unfolding scan_rounds.simps by (auto simp only: bindM_Inr_iff or_restore_Inr)
  from full_pass_ok [OF 1] obtain fs where fs: "active_ant t1 = active_ant t" "distinct fs"
    "set fs \<subseteq> {2..51}" "length fs \<le> 50" "f = found @ fs" by blast
  then have f: "length f \<le> 52" "set f \<subseteq> {2..51}" using Suc.prems(3,4) by auto
  show ?case
  proof (cases "(length f \<ge> 3 \<or> v) \<or> active_ant t1 = coax")
    case True
    with 2 have "res = f" "t' = t1" by (auto split: if_splits)
    with fs f Suc.prems(2) True show ?thesis by auto
  next
    case False
    with 2 obtain u2 t2 u3 t3 u4 t4 where
      "set_amp 0 off t1 = Some (Inr u2, t2)" "set_amp 1 off t2 = Some (Inr u3, t3)" and
      4: "set_antenna beyond (ant_next (active_ant t1)) t3 = Some (Inr u4, t4)" and
      5: "scan_rounds n beyond cb v cr_ms a b f t4 = Some (Inr res, t')"
      by (auto simp: thenM_Inr_iff or_free_Inr)
    have "active_ant t4 \<noteq> nc"
      using 4 antenna_selected by (cases "active_ant t1") auto
    from Suc.IH [OF 5 this] False f show ?thesis by auto
  qed
qed simp

lemma quiet_fm_iff:
  "quiet_fm j t = Some (Inr old, t') \<longleftrightarrow> (\<exists>w1 w2. get_demod8 j 0x12a (net t) = Some (Inr old, w1) \<and>
     set_demod8 j 0x12a (old AND NOT 0x20) w1 = Some (Inr (), w2) \<and> t' = t\<lparr>net := w2\<rparr>)"
  unfolding quiet_fm_def sock_Some_iff bindM_Inr_iff thenM_Inr_iff by auto

lemma quiet_fm_ok:
  assumes "quiet_fm j t = Some (Inr old, t')"
  shows "\<exists>w. t' = t\<lparr>net := w\<rparr> \<and> blocks w = blocks (net t) \<and> trace w = trace (net t) @
    [Sent (frame 0x0c (read_request j 0x12a 1)), Overrun 5 9,
     Sent (frame 0x0c (write_request j 0x12a [old AND NOT 0x20]))]"
  using assms by (auto simp: quiet_fm_iff dest!: get_demod8_ok set_demod8_ok)

lemma length_qsort_found: "length (qsort_found xs) = length xs"
  by (metis mset_qsort_found size_mset)

lemma distinct_qsort_found: "distinct (qsort_found xs) = distinct xs"
  by (metis mset_eq_imp_distinct_iff mset_qsort_found)

text \<open>The frames that switch the modulation off, and those that restore it. \<open>quieted\<close> is the first loop over
  the demodulators: \<open>old0\<close> and \<open>old1\<close> are the values the two reads return.\<close>

definition quiet_frames :: "u8 \<Rightarrow> u8 \<Rightarrow> action list" where
  "quiet_frames old0 old1 =
    [Sent (frame 0x0c (read_request 0 0x12a 1)), Overrun 5 9,
     Sent (frame 0x0c (write_request 0 0x12a [old0 AND NOT 0x20])),
     Sent (frame 0x0c (read_request 1 0x12a 1)), Overrun 5 9,
     Sent (frame 0x0c (write_request 1 0x12a [old1 AND NOT 0x20]))]"

definition restore_frames :: "u8 \<Rightarrow> u8 \<Rightarrow> action list" where
  "restore_frames old0 old1 = [Sent (frame 0x0c (write_request 0 0x12a [old0])),
     Sent (frame 0x0c (write_request 1 0x12a [old1]))]"

definition quieted :: "u8 \<Rightarrow> u8 \<Rightarrow> world \<Rightarrow> world \<Rightarrow> bool" where
  "quieted old0 old1 w w' \<longleftrightarrow> (\<exists>w1 w2 w3. get_demod8 0 0x12a w = Some (Inr old0, w1) \<and>
     set_demod8 0 0x12a (old0 AND NOT 0x20) w1 = Some (Inr (), w2) \<and>
     get_demod8 1 0x12a w2 = Some (Inr old1, w3) \<and>
     set_demod8 1 0x12a (old1 AND NOT 0x20) w3 = Some (Inr (), w'))"

lemma quieted_trace: "quieted old0 old1 w w' \<Longrightarrow> trace w' = trace w @ quiet_frames old0 old1"
  by (auto simp: quieted_def quiet_frames_def dest!: get_demod8_ok set_demod8_ok)

text \<open>A command reads one value from one script.\<close>

lemma quieted_unique: "quieted a b w w' \<Longrightarrow> quieted c d w w'' \<Longrightarrow> a = c \<and> b = d"
  by (auto simp: quieted_def)

lemma malloc_ok: "sock malloc t = Some (Inr True, t') \<Longrightarrow>
  \<exists>w. t' = t\<lparr>net := w\<rparr> \<and> blocks w = blocks (net t) + 1 \<and> trace w = trace (net t)"
  by (auto simp: malloc_def split: list.splits os_event.splits)

lemma call_cb_trace:
  "call_cb cb i v found t = Some (r, t') \<Longrightarrow>
   \<exists>tr. trace (net t') = trace (net t) @ tr \<and> (\<forall>a \<in> set tr. \<exists>j m. a = Progress j m)"
  by (auto simp: call_cb_def split: if_splits prod.splits)

lemma call_cb_run: "\<exists>w. call_cb cb i v found t = Some (Inr (), t\<lparr>net := w\<rparr>) \<and> script w = script (net t)"
  by (cases "scan_progress i (active_ant t) v found")
    (auto simp: call_cb_def io_simps sock_def emit_def intro: exI [of _ "net t"])

text \<open>The start of a scan up to the first channel, and its end, in terms of the values read.\<close>

definition restores :: "tuner \<Rightarrow> tuner \<Rightarrow> bool" where
  "restores t t' \<longleftrightarrow> (\<exists>old0 old1 w0 w4 pre mid. script w0 = tl (script (net t)) \<and>
     trace w0 = trace (net t) @ pre \<and> (\<forall>a \<in> set pre. \<exists>i m. a = Progress i m) \<and> quieted old0 old1 w0 w4 \<and>
     trace w4 = trace w0 @ quiet_frames old0 old1 \<and>
     trace (net t') = trace w4 @ mid @ restore_frames old0 old1)"

lemma scan_from_ok:
  assumes "scan_from beyond cb v cr_ms t = Some (Inr res, t')" and "active_ant t \<noteq> nc"
  shows "sorted res \<and> set res \<subseteq> {2..51} \<and> length res \<le> 52 \<and> active_ant t' \<noteq> nc \<and>
    blocks (net t') = blocks (net t) + 1 \<and>
    (v \<longrightarrow> active_ant t' = active_ant t \<and> distinct res \<and> length res \<le> 50) \<and> restores t t'"
proof -
  from assms(1) obtain t1 u2 t2 old0 t3 old1 t4 found t5 u6 where
    1: "sock malloc t = Some (Inr True, t1)" and
    2: "call_cb cb 0 v [] t1 = Some (Inr u2, t2)" and
    3: "quiet_fm 0 t2 = Some (Inr old0, t3)" and
    4: "quiet_fm 1 t3 = Some (Inr old1, t4)" and
    5: "scan_rounds 3 beyond cb v cr_ms old0 old1 [] t4 = Some (Inr found, t5)" and
    6: "sock (thenM (set_demod8 0 0x12a old0) (set_demod8 1 0x12a old1)) t5 = Some (Inr u6, t')" and
    res: "res = qsort_found found"
    unfolding scan_from_def bindM_Inr_iff thenM_Inr_iff or_free_Inr ret_Some_iff
    by (fastforce simp: thenM_Inr_iff bindM_Inr_iff or_free_Inr split: if_splits)
  from malloc_ok [OF 1] call_cb_ok [OF 2] quiet_fm_ok [OF 3] quiet_fm_ok [OF 4]
  have a: "active_ant t4 \<noteq> nc" "active_ant t4 = active_ant t" "blocks (net t4) = blocks (net t) + 1"
    using assms(2) by auto
  obtain pre where pre: "trace (net t2) = trace (net t) @ pre" "\<forall>a \<in> set pre. \<exists>j m. a = Progress j m"
    using malloc_ok [OF 1] call_cb_trace [OF 2] by auto
  have sc2: "script (net t2) = tl (script (net t))"
    using 1 call_cb_ok [OF 2] by (auto simp: malloc_Some)
  from 3 4 have q: "quieted old0 old1 (net t2) (net t4)"
    by (auto simp: quiet_fm_iff quieted_def)
  from scan_rounds_ok [OF 5 a(1)] have f: "length found \<le> 52" "set found \<subseteq> {2..51}"
    "active_ant t5 \<noteq> nc" "v \<longrightarrow> active_ant t5 = active_ant t4 \<and> distinct found \<and> length found \<le> 50"
    by auto
  from keeps_okD [OF scan_rounds_extends 5] obtain mid where
    tr5: "trace (net t5) = trace (net t4) @ mid" by (auto simp: net_extends_def extends_def)
  from keeps_okD [OF scan_rounds_stock 5] have b5: "blocks (net t5) = blocks (net t4)"
    by (simp add: net_blocks_def same_blocks_def)
  from 6 have t': "active_ant t' = active_ant t5" "blocks (net t') = blocks (net t5)"
    "trace (net t') = trace (net t5) @ restore_frames old0 old1"
    by (auto simp: thenM_Inr_iff restore_frames_def dest!: set_demod8_ok)
  have "x < 2 ^ 31" if "x \<in> set found" for x
  proof -
    from that f(2) have "x \<le> 51" by auto
    also have "(51 :: u32) < 2 ^ 31" by simp
    finally show ?thesis .
  qed
  then have "sorted res" unfolding res by (intro sorted_qsort_found) blast
  moreover have "set res \<subseteq> {2..51}" "length res \<le> 52" "v \<longrightarrow> distinct res \<and> length res \<le> 50"
    using f unfolding res set_qsort_found length_qsort_found distinct_qsort_found by blast+
  moreover have "restores t t'"
    unfolding restores_def using sc2 pre q quieted_trace [OF q] tr5 t'(3)
    by (intro exI [of _ old0] exI [of _ old1] exI [of _ "net t2"] exI [of _ "net t4"] exI [of _ pre]
        exI [of _ mid]) simp
  ultimately show ?thesis using a f t'(1,2) b5 by simp
qed

text \<open>Selecting an antenna with both amplifiers off asks nothing of the tuner.\<close>

lemma select_idle:
  assumes "ch_i (ch_state t 0) = off" and "ch_i (ch_state t 1) = off"
  shows "set_antenna beyond ant t = Some (Inr (), t\<lparr>active_ant := ant\<rparr>)"
  using assms by (simp add: set_antenna_def apply_antenna_def io_simps thenM_def)

text \<open>C6: A scan that succeeds returns a sorted list of channel numbers from 2 to 51 in one block,
  the only one it leaves allocated. Before it tunes to anything it reads register 0x12a of both
  demodulators and clears bit 5 of the two values read; the last two frames it sends write these
  values back as they were read, bit 5 included. On a fixed antenna no channel is listed twice;
  with the search for an antenna, two results of abandoned antennas may stay in the list, so that
  up to 52 entries go into the array of 50.\<close>

theorem scan_result:
  assumes "scan beyond cb cr_ms t = Some (Inr res, t')"
  shows "sorted res \<and> set res \<subseteq> {2..51} \<and> length res \<le> 52 \<and> active_ant t' \<noteq> nc \<and>
    blocks (net t') = blocks (net t) + 1 \<and>
    (active_ant t \<noteq> nc \<longrightarrow> active_ant t' = active_ant t \<and> distinct res \<and> length res \<le> 50) \<and>
    (active_ant t = nc \<longrightarrow> ch_i (ch_state t 0) = off \<and> ch_i (ch_state t 1) = off) \<and>
    (\<exists>old0 old1 w0 w4 pre mid. script w0 = tl (script (net t)) \<and> trace w0 = trace (net t) @ pre \<and>
       (\<forall>a \<in> set pre. \<exists>i m. a = Progress i m) \<and> quieted old0 old1 w0 w4 \<and>
       trace w4 = trace w0 @ quiet_frames old0 old1 \<and>
       trace (net t') = trace w4 @ mid @ restore_frames old0 old1)"
proof (cases "active_ant t = nc")
  case False
  with assms have "scan_from beyond cb True cr_ms t = Some (Inr res, t')" by (simp add: scan_def)
  from scan_from_ok [OF this False] False show ?thesis unfolding restores_def by blast
next
  case True
  with assms obtain u t1 where o: "ch_i (ch_state t 0) = off" "ch_i (ch_state t 1) = off" and
    1: "set_antenna beyond ant1 t = Some (Inr u, t1)" and
    2: "scan_from beyond cb False (if cr_ms < 20 then 20 else cr_ms) t1 = Some (Inr res, t')"
    by (auto simp: scan_def thenM_Inr_iff split: if_splits)
  from 1 select_idle [OF o] have t1: "t1 = t\<lparr>active_ant := ant1\<rparr>" by simp
  then have "active_ant t1 \<noteq> nc" by simp
  from scan_from_ok [OF 2 this] True o show ?thesis unfolding restores_def by (simp add: t1)
qed

text \<open>A scan keeps the tuner's invariants.\<close>

theorem scan_invariant:
  assumes "scan beyond cb cr_ms t = Some (Inr res, t')" and "tuned t" and "coherent t"
  shows "tuned t' \<and> coherent t'"
  using keeps_okD [OF sweep.whole assms(1)] assms(2,3) by blast

subsection \<open>Three rounds\<close>

fun antennas_left :: "tuner_antennas \<Rightarrow> nat" where
  "antennas_left nc = 4" | "antennas_left ant1 = 3" | "antennas_left ant2 = 2"
| "antennas_left coax = 1"

lemma scan_pass_antenna:
  "or_restore a b (scan_pass beyond cb v cr_ms (schedule 0) found) t = Some (Inr f, t') \<Longrightarrow>
   active_ant t' = active_ant t"
  unfolding or_restore_Inr using full_pass_ok by blast

lemma scan_rounds_enough:
  "antennas_left (active_ant t) \<le> n \<Longrightarrow> active_ant t \<noteq> nc \<Longrightarrow>
   scan_rounds (n + k) beyond cb v cr_ms a b found t = scan_rounds n beyond cb v cr_ms a b found t"
proof (induction n arbitrary: found t)
  case 0
  then show ?case by (cases "active_ant t") simp_all
next
  case (Suc n)
  let ?rest = "\<lambda>m f. thenM (set_amp 0 off) (thenM (set_amp 1 off)
    (thenM (or_free (set_antenna beyond (ant_next (active_ant t)))) (scan_rounds m beyond cb v cr_ms a b f)))"
  have rest: "?rest (n + k) f t1 = ?rest n f t1" if "active_ant t \<noteq> coax" for f t1
  proof -
    have "scan_rounds (n + k) beyond cb v cr_ms a b f t4 = scan_rounds n beyond cb v cr_ms a b f t4"
      if "set_antenna beyond (ant_next (active_ant t)) t3 = Some (Inr u4, t4)" for t3 u4 t4
      using antenna_selected [OF that] Suc.prems \<open>active_ant t \<noteq> coax\<close>
      by (intro Suc.IH) (cases "active_ant t"; simp)+
    then show ?thesis
      by (simp add: thenM_def bindM_def tryM_def or_free_Inr split: option.split sum.split prod.split)
  qed
  show ?case
  proof (cases "or_restore a b (scan_pass beyond cb v cr_ms (schedule 0) found) t")
    case (Some q)
    obtain r t1 where q: "q = (r, t1)" by fastforce
    show ?thesis
    proof (cases r)
      case (Inr f)
      with Some q have 1: "or_restore a b (scan_pass beyond cb v cr_ms (schedule 0) found) t =
        Some (Inr f, t1)" by simp
      have "active_ant t1 = active_ant t" by (rule scan_pass_antenna [OF 1])
      with 1 rest [of f t1] show ?thesis by (cases v) (simp_all add: io_simps)
    qed (use Some q in \<open>simp add: io_simps\<close>)
  qed (simp add: io_simps)
qed

subsection \<open>What a scan sends\<close>















subsection \<open>A run\<close>

text \<open>The answers of a tuner on the coaxial input in a scan without demodulator resets, where
  the table entries in \<open>locked\<close> are received. The amplifier inputs never change.\<close>

definition tune_answers :: "nat \<Rightarrow> nat \<Rightarrow> os_event list" where
  "tune_answers i j =
    (if i + j * 2 < 50 then
       (let f = ch_freq_at (\<lambda>_. 695) (i + j * 2 + 2) in
        answered (pll_request (of_nat j) f (fst (the (band_of f)))) [])
     else [])"

definition check_answers :: "nat set \<Rightarrow> nat \<Rightarrow> nat \<Rightarrow> os_event list" where
  "check_answers locked i j =
    (if i + j * 2 < 50 then
       answered (read_request (of_nat j) 0x11d 1) [if i + j * 2 \<in> locked then 0x80 else 0]
     else [])"

definition step_answers :: "nat set \<Rightarrow> nat \<Rightarrow> os_event list" where
  "step_answers locked i = tune_answers i 0 @ tune_answers i 1 @ check_answers locked i 0 @
     check_answers locked i 1"

definition on_coax :: "tuner \<Rightarrow> bool" where
  "on_coax t \<longleftrightarrow> active_ant t = coax \<and> ch_i (ch_state t 0) = external \<and> ch_i (ch_state t 1) = external"

definition coax_found :: "nat set \<Rightarrow> nat \<Rightarrow> u32 list" where
  "coax_found locked i = map tvch_of (filter (\<lambda>k. k \<in> locked) (visited i))"

lemma tv_bands: "i < 50 \<Longrightarrow> \<exists>bs tai. band_of (ch_freq_at (\<lambda>_. 695) (i + 2)) = Some (bs, tai)"
proof -
  assume i: "i < 50"
  have "list_all (\<lambda>i. band_of (ch_freq_at (\<lambda>_. 695) (i + 2)) \<noteq> None) [0..<50]" by code_simp
  with i show ?thesis by (auto simp: list_all_iff)
qed

lemma scan_tune_run:
  assumes "on_coax t" and "j < 2" and "script (net t) = tune_answers i j @ es"
  shows "\<exists>t'. scan_tune (\<lambda>_. 695) 0 i j t = Some (Inr (), t') \<and> on_coax t' \<and> script (net t') = es"
proof (cases "i + j * 2 < 50")
  case False
  with assms show ?thesis by (auto simp: scan_tune_def tune_answers_def)
next
  case True
  let ?k = "i + j * 2"
  let ?f = "ch_freq_at (\<lambda>_. 695) (?k + 2)"
  from tv_bands [OF True] obtain bs tai where b: "band_of ?f = Some (bs, tai)" by blast
  from assms(2) have "j = 0 \<or> j = 1" by auto
  then have ch: "(of_nat j :: u8) = 0 \<or> (of_nat j :: u8) = 1" "\<not> 2 \<le> (of_nat j :: u8)" by auto
  have i: "ch_i (ch_state t (of_nat j)) = external" "active_ant t = coax"
    using assms(1) ch(1) by (auto simp: on_coax_def)
  have u: "unat (tvch_of ?k) = ?k + 2" "unat (tvch_of ?k - 2) = ?k"
    using unat_tvch_of [OF True] tvch_of_range [OF True] by (simp_all add: unat_sub)
  have nz: "ch_freq_at (\<lambda>_. 695) ?k \<noteq> 0"
    using True ch_freq_nonzero [OF True] by (simp add: ch_freq_at_def)
  have r: "\<not> (2 \<le> (of_nat j :: u8) \<or> ((tvch_of ?k < 2 \<or> 51 < tvch_of ?k) \<and> tvch_of ?k \<noteq> -1))"
    using tvch_of_range [OF True] ch(2) by auto
  have s: "script (net t) = answered (pll_request (of_nat j) ?f bs) [] @ es"
    using assms(3) True b by (simp add: tune_answers_def Let_def)
  have w: "write_then_read (unframed (pll_request (of_nat j) ?f bs)) 8 (net t) =
    Some (Inr (frame_head 0x0d []), (net t)\<lparr>script := es, blocks := blocks (net t) + 1,
      trace := trace (net t) @ [Sent (frame 0x0c (pll_request (of_nat j) ?f bs))]\<rparr>)"
    using write_then_read_eval [OF s, of 8] by (simp add: overrun_if_def)
  have amp: "set_amp (of_nat j) external t = Some (Inr (), t)"
    using i ch(2) by (simp add: set_amp_def io_simps)
  have sf: "set_freq (\<lambda>_. 695) (of_nat j) (tvch_of ?k) 0 t = Some (Inr (),
    tvch_set (of_nat j) (tvch_of ?k) (t\<lparr>net := (net t)\<lparr>script := es,
      trace := trace (net t) @ [Sent (frame 0x0c (pll_request (of_nat j) ?f bs))]\<rparr>\<rparr>))"
    using r nz b i amp w tvch_of_range [OF True]
    by (simp add: set_freq_def u Let_def thenM_def io_simps sock_def free_block_def tvch_set_def)
  have tv: "of_nat ?k + 2 = tvch_of ?k" by (simp add: tvch_of_def)
  have "scan_tune (\<lambda>_. 695) 0 i j t = set_freq (\<lambda>_. 695) (of_nat j) (tvch_of ?k) 0 t"
    using True ch_freq_nonzero [OF True] unfolding scan_tune_def tv by simp
  with sf assms(1) show ?thesis by (auto simp: on_coax_def)
qed

lemma scan_check_run:
  assumes "j < 2" and "script (net t) = check_answers locked i j @ es"
    and "i + j * 2 < 50 \<longrightarrow> ch_tvch (ch_state t (of_nat j)) = tvch_of (i + j * 2)"
  shows "\<exists>w. scan_check i j found t = Some (Inr (found @
      (if i + j * 2 < 50 \<and> i + j * 2 \<in> locked then [tvch_of (i + j * 2)] else [])), t\<lparr>net := w\<rparr>) \<and>
    script w = es"
proof (cases "i + j * 2 < 50")
  case False
  with assms show ?thesis
    by (auto simp: scan_check_def check_answers_def intro: exI [of _ "net t"])
next
  case True
  let ?b = "if i + j * 2 \<in> locked then 0x80 else 0 :: u8"
  from assms(1) have "j = 0 \<or> j = 1" by auto
  then have "\<not> bad_address (of_nat j) 0x11d" by (auto simp: bad_address_def)
  from get_demod8_eval [OF _ this, of "net t" ?b es] assms(2) True obtain w where
    "get_demod8 (of_nat j) 0x11d (net t) = Some (Inr ?b, w)" "script w = es"
    by (auto simp: check_answers_def)
  with True assms(3) show ?thesis
    by (cases "i + j * 2 \<in> locked")
      (auto simp: scan_check_def io_simps sock_def thenM_def note_store_def)
qed

lemma scan_step_run:
  assumes "on_coax t" and "script (net t) = step_answers locked i @ es" and "i < 50"
  shows "\<exists>t'. scan_step (\<lambda>_. 695) cb True 0 i found t = Some (Inr (found @ coax_found locked i), t') \<and>
    on_coax t' \<and> script (net t') = es"
proof -
  from call_cb_run obtain w0 where
    0: "call_cb cb (of_nat i + 1) True found t = Some (Inr (), t\<lparr>net := w0\<rparr>)" "script w0 = script (net t)" by blast
  have "on_coax (t\<lparr>net := w0\<rparr>)" using assms(1) by (simp add: on_coax_def)
  from scan_tune_run [OF this, of 0 i] assms(2) 0(2) obtain t1 where
    1: "scan_tune (\<lambda>_. 695) 0 i 0 (t\<lparr>net := w0\<rparr>) = Some (Inr (), t1)" "on_coax t1"
      "script (net t1) = tune_answers i 1 @ check_answers locked i 0 @ check_answers locked i 1 @ es"
    by (auto simp: step_answers_def)
  from scan_tune_run [OF 1(2) _ 1(3)] obtain t2 where
    2: "scan_tune (\<lambda>_. 695) 0 i 1 t1 = Some (Inr (), t2)" "on_coax t2"
      "script (net t2) = check_answers locked i 0 @ check_answers locked i 1 @ es" by auto
  have tv: "ch_tvch (ch_state t2 0) = tvch_of i" "i + 2 < 50 \<longrightarrow> ch_tvch (ch_state t2 1) = tvch_of (i + 2)"
    using scan_tune_ok [OF 1(1), of 1] scan_tune_ok [OF 2(1), of 0] assms(3) by simp_all
  from scan_check_run [where j = 0 and i = i and found = found, unfolded mult_0 add_0_right, OF _ 2(3)]
    tv assms(3) obtain w3 where
    3: "scan_check i 0 found t2 = Some (Inr (found @ (if i \<in> locked then [tvch_of i] else [])), t2\<lparr>net := w3\<rparr>)"
      "script w3 = check_answers locked i 1 @ es" by auto
  from scan_check_run [where j = 1 and i = i and t = "t2\<lparr>net := w3\<rparr>" and es = es and locked = locked
      and found = "found @ (if i \<in> locked then [tvch_of i] else [])", unfolded mult_1] 3(2) tv
  obtain w4 where
    4: "scan_check i 1 (found @ (if i \<in> locked then [tvch_of i] else [])) (t2\<lparr>net := w3\<rparr>) =
      Some (Inr ((found @ (if i \<in> locked then [tvch_of i] else [])) @
        (if i + 2 < 50 \<and> i + 2 \<in> locked then [tvch_of (i + 2)] else [])), t2\<lparr>net := w4\<rparr>)"
      "script w4 = es" by auto
  have "scan_step (\<lambda>_. 695) cb True 0 i found t = Some (Inr (found @ coax_found locked i), t2\<lparr>net := w4\<rparr>)"
    using 0(1) 1(1) 2(1) 3(1) 4(1)
    by (simp add: scan_step_def thenM_def io_simps coax_found_def visited_def)
  with 2(2) 4(2) show ?thesis by (auto simp: on_coax_def)
qed

lemma scan_pass_run:
  "on_coax t \<Longrightarrow> \<forall>i \<in> set is. i < 50 \<Longrightarrow>
   script (net t) = concat (map (step_answers locked) is) @ es \<Longrightarrow>
   \<exists>t'. scan_pass (\<lambda>_. 695) cb True 0 is found t =
     Some (Inr (found @ concat (map (coax_found locked) is)), t') \<and> on_coax t' \<and> script (net t') = es"
proof (induction "is" arbitrary: found t)
  case (Cons i "is")
  have "script (net t) = step_answers locked i @ concat (map (step_answers locked) is) @ es"
    using Cons.prems(3) by simp
  from scan_step_run [where cb = cb and found = found, OF Cons.prems(1) this] Cons.prems(2) obtain t1 where
    1: "scan_step (\<lambda>_. 695) cb True 0 i found t = Some (Inr (found @ coax_found locked i), t1)"
      "on_coax t1" "script (net t1) = concat (map (step_answers locked) is) @ es" by auto
  from Cons.prems(2) have "\<forall>i \<in> set is. i < 50" by simp
  from Cons.IH [OF 1(2) this 1(3), of "found @ coax_found locked i"] obtain t' where
    "scan_pass (\<lambda>_. 695) cb True 0 is (found @ coax_found locked i) t1 =
      Some (Inr ((found @ coax_found locked i) @ concat (map (coax_found locked) is)), t')"
    "on_coax t'" "script (net t') = es" by blast
  with 1(1) show ?case by (intro exI [of _ t']) (simp add: io_simps)
qed simp

definition scan_answers :: "nat set \<Rightarrow> u8 \<Rightarrow> u8 \<Rightarrow> os_event list" where
  "scan_answers locked old0 old1 = Ev_malloc True #
     answered (read_request 0 0x12a 1) [old0] @
     answered (write_request 0 0x12a [old0 AND NOT 0x20]) [] @
     answered (read_request 1 0x12a 1) [old1] @
     answered (write_request 1 0x12a [old1 AND NOT 0x20]) [] @
     concat (map (step_answers locked) (schedule 0)) @
     answered (write_request 0 0x12a [old0]) [] @
     answered (write_request 1 0x12a [old1]) []"

lemma quiet_fm_run:
  assumes "j < 2" and "script (net t) = answered (read_request j 0x12a 1) [old] @
    answered (write_request j 0x12a [old AND NOT 0x20]) [] @ es"
  shows "\<exists>w. quiet_fm j t = Some (Inr old, t\<lparr>net := w\<rparr>) \<and> script w = es"
proof -
  from assms(1) have "\<not> 2 < j" by auto
  then have ok: "\<not> bad_address j 0x12a" by (simp add: bad_address_def)
  from get_demod8_eval [OF assms(2) ok] obtain w1 where
    1: "get_demod8 j 0x12a (net t) = Some (Inr old, w1)"
      "script w1 = answered (write_request j 0x12a [old AND NOT 0x20]) [] @ es" by auto
  from set_demod8_eval [OF 1(2) ok] obtain w2 where
    "set_demod8 j 0x12a (old AND NOT 0x20) w1 = Some (Inr (), w2)" "script w2 = es" by auto
  with 1(1) show ?thesis
    by (intro exI [of _ w2]) (simp add: quiet_fm_def sock_def io_simps thenM_def)
qed

lemma scan_run:
  assumes "on_coax t" and "script (net t) = scan_answers locked old0 old1"
  shows "\<exists>t'. scan (\<lambda>_. 695) cb 0 t =
    Some (Inr (qsort_found (concat (map (coax_found locked) (schedule 0)))), t') \<and> script (net t') = []"
proof -
  let ?r = "answered (write_request 0 0x12a [old0]) [] @ answered (write_request 1 0x12a [old1]) [] @ []"
  let ?p = "concat (map (step_answers locked) (schedule 0)) @ ?r"
  let ?q1 = "answered (read_request 1 0x12a 1) [old1] @
     answered (write_request 1 0x12a [old1 AND NOT 0x20]) [] @ ?p"
  let ?q0 = "answered (read_request 0 0x12a 1) [old0] @
     answered (write_request 0 0x12a [old0 AND NOT 0x20]) [] @ ?q1"
  obtain wm where m: "malloc (net t) = Some (Inr True, wm)" and wm: "script wm = ?q0"
    using assms(2) by (auto simp: malloc_def scan_answers_def)
  obtain w0 where c: "call_cb cb 0 True [] (t\<lparr>net := wm\<rparr>) = Some (Inr (), t\<lparr>net := w0\<rparr>)" and w0: "script w0 = ?q0"
    using call_cb_run [where cb = cb and i = 0 and v = True and found = "[]" and t = "t\<lparr>net := wm\<rparr>"] wm by auto
  let ?t0 = "t\<lparr>net := w0\<rparr>"
  from quiet_fm_run [of 0 ?t0 old0 ?q1] w0 obtain w1 where
    q0: "quiet_fm 0 ?t0 = Some (Inr old0, t\<lparr>net := w1\<rparr>)" and w1: "script w1 = ?q1" by auto
  from quiet_fm_run [of 1 "t\<lparr>net := w1\<rparr>" old1 ?p] w1 obtain w2 where
    q1: "quiet_fm 1 (t\<lparr>net := w1\<rparr>) = Some (Inr old1, t\<lparr>net := w2\<rparr>)" and w2: "script w2 = ?p" by auto
  have "on_coax (t\<lparr>net := w2\<rparr>)" using assms(1) by (simp add: on_coax_def)
  from scan_pass_run [OF this, of "schedule 0" locked ?r cb "[]"] w2 obtain t3 where
    p: "scan_pass (\<lambda>_. 695) cb True 0 (schedule 0) [] (t\<lparr>net := w2\<rparr>) =
      Some (Inr (concat (map (coax_found locked) (schedule 0))), t3)" and t3: "script (net t3) = ?r"
    by (auto simp: schedule_0)
  have r: "scan_rounds 3 (\<lambda>_. 695) cb True 0 old0 old1 [] (t\<lparr>net := w2\<rparr>) =
      Some (Inr (concat (map (coax_found locked) (schedule 0))), t3)"
    using p or_restore_Inr [of old0 old1 "scan_pass (\<lambda>_. 695) cb True 0 (schedule 0) []"]
    by (simp add: numeral_3_eq_3 io_simps)
  have ok: "\<not> bad_address 0 0x12a" "\<not> bad_address 1 0x12a" by (simp_all add: bad_address_def)
  have t3': "script (net t3) = (answered (write_request 0 0x12a [old0]) [] @
      answered (write_request 1 0x12a [old1]) []) @ []"
    unfolding t3 by (simp only: append.assoc)
  obtain tr where w: "thenM (set_demod8 0 0x12a old0) (set_demod8 1 0x12a old1) (net t3) =
      Some (Inr (), (net t3)\<lparr>script := [], trace := trace (net t3) @ tr\<rparr>)"
    by (rule runsE [OF runs_then [OF runs_set_demod8 [OF ok(1), of old0] runs_set_demod8 [OF ok(2), of old1]] t3'])
  obtain w4 where
    f: "thenM (set_demod8 0 0x12a old0) (set_demod8 1 0x12a old1) (net t3) = Some (Inr (), w4)" "script w4 = []"
    by (rule that [OF w]) simp
  have o: "sock malloc t = Some (Inr True, t\<lparr>net := wm\<rparr>)"
    "or_free (quiet_fm 0) ?t0 = Some (Inr old0, t\<lparr>net := w1\<rparr>)"
    "or_free (quiet_fm 1) (t\<lparr>net := w1\<rparr>) = Some (Inr old1, t\<lparr>net := w2\<rparr>)"
    "or_free (sock (thenM (set_demod8 0 0x12a old0) (set_demod8 1 0x12a old1))) t3 = Some (Inr (), t3\<lparr>net := w4\<rparr>)"
    by (simp_all only: or_free_Inr q0 q1) (simp_all add: m sock_def f)
  have "scan_from (\<lambda>_. 695) cb True 0 t =
      Some (Inr (qsort_found (concat (map (coax_found locked) (schedule 0)))), t3\<lparr>net := w4\<rparr>)"
    unfolding scan_from_def bindM_Inr_iff thenM_Inr_iff [of "call_cb cb 0 True []"]
    by (rule exI, rule exI, rule conjI, rule o(1))
      (simp add: thenM_Inr_iff [of "call_cb cb 0 True []"] thenM_Inr_iff [of "or_free m" for m] bindM_Inr_iff c o r)
  moreover have "active_ant t = coax" using assms(1) by (simp add: on_coax_def)
  ultimately show ?thesis using f(2) by (simp add: scan_def io_simps)
qed







text \<open>Channels 5 and 12 are received, 12 first.\<close>

definition coax_tuner :: tuner where
  "coax_tuner = \<lparr>cur_gpio = 0x2805, active_ant = coax,
     ch_state = (\<lambda>_. \<lparr>ch_i = external, ch_tvch = 2\<rparr>), myip = 0,
     net = \<lparr>script = scan_answers {3, 10} 0x35 0x15, trace = [], blocks = 0\<rparr>\<rparr>"

lemma coax_scan: "\<exists>t'. scan (\<lambda>_. 695) cb 0 coax_tuner = Some (Inr [5, 12], t')"
proof -
  have "qsort_found (concat (map (coax_found {3, 10}) (schedule 0))) = [5, 12]" by code_simp
  with scan_run [of coax_tuner "{3, 10}" "0x35" "0x15"] show ?thesis
    by (fastforce simp: coax_tuner_def on_coax_def)
qed


lemma coax_fields: "active_ant coax_tuner = coax" "blocks (net coax_tuner) = 0" "trace (net coax_tuner) = []"
  by (simp_all add: coax_tuner_def)

text \<open>What the coaxial tuner is read for register 0x12a.\<close>

lemma coax_quieted:
  assumes "script w = tl (script (net coax_tuner))"
  shows "\<exists>w'. quieted 0x35 0x15 w w'"
proof -
  let ?p = "concat (map (step_answers {3, 10}) (schedule 0)) @
    answered (write_request 0 0x12a [0x35]) [] @ answered (write_request 1 0x12a [0x15]) []"
  let ?q = "answered (read_request 1 0x12a 1) [0x15] @ answered (write_request 1 0x12a [0x15 AND NOT 0x20]) [] @ ?p"
  have "script (net (coax_tuner\<lparr>net := w\<rparr>)) = answered (read_request 0 0x12a 1) [0x35] @
      answered (write_request 0 0x12a [0x35 AND NOT 0x20]) [] @ ?q"
    by (simp add: assms coax_tuner_def scan_answers_def)
  from quiet_fm_run [OF _ this] obtain w1 where
    1: "quiet_fm 0 (coax_tuner\<lparr>net := w\<rparr>) = Some (Inr 0x35, coax_tuner\<lparr>net := w1\<rparr>)" "script w1 = ?q" by auto
  from quiet_fm_run [of 1 "coax_tuner\<lparr>net := w1\<rparr>" "0x15" ?p] 1(2) obtain w2 where
    "quiet_fm 1 (coax_tuner\<lparr>net := w1\<rparr>) = Some (Inr 0x15, coax_tuner\<lparr>net := w2\<rparr>)" by auto
  moreover have "coax_tuner\<lparr>net := a\<rparr> = coax_tuner\<lparr>net := b\<rparr> \<longleftrightarrow> a = b" for a b
    by (metis tuner.select_convs(5) tuner.surjective tuner.update_convs(5))
  ultimately show ?thesis using 1(1) by (auto simp: quiet_fm_iff quieted_def)
qed

theorem scan_result_witness:
  "\<exists>t' tr. scan (\<lambda>_. 695) False 0 coax_tuner = Some (Inr [5, 12], t') \<and> active_ant t' = coax \<and>
     blocks (net t') = 1 \<and> trace (net t') = tr @ restore_frames 0x35 0x15"
proof -
  from coax_scan obtain t' where r: "scan (\<lambda>_. 695) False 0 coax_tuner = Some (Inr [5, 12], t')" by blast
  note s = scan_result [OF r]
  from s obtain old0 old1 w0 w4 mid where w0: "script w0 = tl (script (net coax_tuner))"
    and q: "quieted old0 old1 w0 w4" and tr: "trace (net t') = trace w4 @ mid @ restore_frames old0 old1"
    by blast
  from coax_quieted [OF w0] quieted_unique [OF q] have "old0 = 0x35" "old1 = 0x15" by blast+
  moreover from s have "active_ant t' = coax" "blocks (net t') = 1" unfolding coax_fields by simp_all
  ultimately show ?thesis using tr r by (intro exI [of _ t'] exI [of _ "trace w4 @ mid"]) simp
qed


theorem scan_invariant_witness:
  "case scan (\<lambda>_. 695) False 0 coax_tuner of
     Some (Inr res, t') \<Rightarrow> tuned t' \<and> coherent t'
   | _ \<Rightarrow> False"
proof -
  from coax_scan obtain t' where r: "scan (\<lambda>_. 695) False 0 coax_tuner = Some (Inr [5, 12], t')" by blast
  have "amp_lines 0x2805 external external = Some 0x2805" by (simp add: amp_lines_def)
  then have "tuned coax_tuner" "coherent coax_tuner"
    by (simp_all add: coax_tuner_def tuned_def channel_fits_def coherent_def)
  from scan_invariant [OF r this] show ?thesis unfolding r by simp
qed

subsection \<open>The antenna\<close>

text \<open>Every command but the selection of an antenna leaves the antenna alone, also when it fails.\<close>

definition same_antenna :: "tuner \<Rightarrow> tuner \<Rightarrow> bool" where
  "same_antenna t t' \<longleftrightarrow> active_ant t' = active_ant t"

interpretation fixed: state_order same_antenna
  by unfold_locales (auto simp: same_antenna_def)

lemma fixed_fields:
  "keeps same_antenna (sock m)" "keeps same_antenna (gets g)"
  "(\<And>t. active_ant (f t) = active_ant t) \<Longrightarrow> keeps same_antenna (modify f)"
  by (auto simp: keeps_def same_antenna_def sock_Some_iff gets_def modify_def)

lemma fixed_set_amp: "keeps same_antenna (set_amp ch s)"
  by (auto simp: keeps_def same_antenna_def dest: set_amp_antenna)

lemma fixed_set_freq: "keeps same_antenna (set_freq beyond ch tvch ms)"
  unfolding set_freq_def Let_def
  by (auto split: option.split intro!: fixed.keeps_intros fixed.tryI fixed_fields fixed_set_amp)

lemma fixed_pass: "keeps same_antenna (scan_pass beyond cb v cr is found)"
proof -
  have tune: "keeps same_antenna (scan_tune beyond cr i j)" for i j
    unfolding scan_tune_def by (auto intro: fixed.ret fixed_set_freq)
  have check: "keeps same_antenna (scan_check i j found)" for i j found
    unfolding scan_check_def by (auto intro!: fixed.keeps_intros fixed_fields)
  have cb: "keeps same_antenna (call_cb cb i v found)" for i found
    unfolding call_cb_def by (auto intro!: fixed.keeps_intros fixed_fields split: prod.split)
  have "keeps same_antenna (scan_step beyond cb v cr i found)" for i found
    unfolding scan_step_def by (auto intro!: fixed.keeps_intros fixed_fields tune check cb)
  then show ?thesis by (induction "is" arbitrary: found) (auto intro!: fixed.keeps_intros)
qed

lemma set_antenna_any:
  assumes "set_antenna beyond ant t = Some (r, t')" shows "active_ant t' = ant"
proof -
  have "keeps same_antenna (apply_antenna beyond ant ch)" for ch
    unfolding apply_antenna_def Let_def
    by (auto intro!: fixed.keeps_intros fixed_fields fixed_set_amp fixed_set_freq)
  then have "keeps same_antenna (thenM (apply_antenna beyond ant 0) (apply_antenna beyond ant 1))"
    by (intro fixed.thenI)
  with assms show ?thesis by (auto simp: set_antenna_def then_modify same_antenna_def dest!: keepsD)
qed

text \<open>A scan only ever moves on to antennas with a higher number.\<close>

definition forward :: "tuner \<Rightarrow> tuner \<Rightarrow> bool" where
  "forward t t' \<longleftrightarrow> active_ant t \<le> active_ant t'"

interpretation onward: state_order forward
  by unfold_locales (auto simp: forward_def)

lemma ant_next_up: "a \<le> ant_next a"
  by (cases a) (simp_all add: ant_order)

lemma forward_fixed: "keeps same_antenna m \<Longrightarrow> keeps forward m"
  by (auto simp: keeps_def same_antenna_def forward_def)

lemma forward_selected:
  assumes "ant \<le> b" and "keeps same_antenna m"
  shows "\<And>t r t'. active_ant t = ant \<Longrightarrow> thenM m (or_free (set_antenna beyond b)) t = Some (r, t') \<Longrightarrow> forward t t'"
proof -
  fix t r t' assume a: "active_ant t = ant" and run: "thenM m (or_free (set_antenna beyond b)) t = Some (r, t')"
  have "active_ant t' = b" if "or_free (set_antenna beyond b) t1 = Some (r, t')" for t1 r t'
  proof -
    from that obtain q t2 where 1: "set_antenna beyond b t1 = Some (q, t2)"
      and 2: "(case q of Inl e \<Rightarrow> thenM (sock free_block) (fail e) | Inr x \<Rightarrow> ret x) t2 = Some (r, t')"
      by (auto simp: or_free_def tryM_Some_iff)
    from set_antenna_any [OF 1] 2 show ?thesis
      by (cases q) (auto simp: thenM_Some_iff sock_Some_iff)
  qed
  with run a assms show "forward t t'"
    by (auto simp: thenM_Some_iff forward_def same_antenna_def dest: keepsD)
qed

lemma forward_rounds: "keeps forward (scan_rounds n beyond cb v cr a b found)"
proof (induction n arbitrary: found)
  case (Suc n)
  let ?move = "\<lambda>ant. thenM (thenM (set_amp 0 off) (set_amp 1 off)) (or_free (set_antenna beyond (ant_next ant)))"
  have assoc: "thenM p (thenM q (thenM m k)) = thenM (thenM (thenM p q) m) k" for p q m and k :: "u32 list tuner_cmd"
    by (rule ext) (simp add: thenM_def bindM_def tryM_def fail_def split: option.split prod.split sum.split)
  have move: "forward t t'" if "?move (active_ant t) t = Some (r, t')" for t r t'
    by (rule forward_selected [OF ant_next_up _ refl that]) (intro fixed.thenI fixed_set_amp)
  have step: "keeps forward (bindM (gets active_ant) (\<lambda>ant. if ant = coax then ret f
    else thenM (?move ant) (scan_rounds n beyond cb v cr a b f)))" for f
    unfolding keeps_def
  proof (intro allI impI)
    fix s r s' assume run: "bindM (gets active_ant) (\<lambda>ant. if ant = coax then ret f
      else thenM (?move ant) (scan_rounds n beyond cb v cr a b f)) s = Some (r, s')"
    let ?go = "thenM (?move (active_ant s)) (scan_rounds n beyond cb v cr a b f)"
    show "forward s s'"
    proof (cases "active_ant s = coax")
      case False
      with run have "?go s = Some (r, s')" by simp
      then show ?thesis unfolding thenM_Some_iff [of "?move (active_ant s)"]
        using move keepsD [OF Suc] onward.trans by blast
    qed (use run in \<open>simp add: onward.refl\<close>)
  qed
  have "keeps same_antenna (or_restore a b (scan_pass beyond cb v cr (schedule 0) found))"
    unfolding or_restore_def
    by (auto intro!: fixed.tryI fixed_pass fixed.thenI fixed_fields fixed.fail fixed.ret split: sum.split)
  from onward.bindI [OF forward_fixed [OF this] onward.ifI [OF onward.ret step]]
  show ?case unfolding scan_rounds.simps assoc .
qed (simp add: keeps_def)

lemma fixed_rounds: "keeps same_antenna (scan_rounds n beyond cb True cr a b found)"
proof (cases n)
  case (Suc m)
  have "keeps same_antenna (or_restore a b (scan_pass beyond cb True cr (schedule 0) found))"
    unfolding or_restore_def
    by (auto intro!: fixed.tryI fixed_pass fixed.thenI fixed_fields fixed.fail fixed.ret split: sum.split)
  then show ?thesis unfolding Suc scan_rounds.simps
    by (intro fixed.bindI) (simp_all add: fixed.ret)
qed (simp add: keeps_def)

lemma from_rounds:
  assumes "state_order R" and "\<And>m :: unit io. keeps R (sock m)" and "\<And>m :: bool io. keeps R (sock m)"
    and "\<And>m :: u8 io. keeps R (sock m)" and "keeps R (gets active_ant)"
    and "\<And>a b. keeps R (scan_rounds 3 beyond cb v cr a b [])"
  shows "keeps R (scan_from beyond cb v cr)"
proof -
  note r = state_order.bindI [OF assms(1)] state_order.thenI [OF assms(1)] state_order.ret [OF assms(1)]
    state_order.fail [OF assms(1)] state_order.tryI [OF assms(1)] assms(2-6)
  show ?thesis unfolding scan_from_def quiet_fm_def call_cb_def or_free_def
    by (auto intro!: r split: sum.split prod.split)
qed

text \<open>However a scan ends, it ends on the antenna it started on; if that was none, it ends on one that is, unless
  it has refused to start because an amplifier is on.\<close>

theorem scan_antenna:
  assumes "scan beyond cb cr t = Some (r, t')"
  shows "(active_ant t \<noteq> nc \<longrightarrow> active_ant t' = active_ant t) \<and>
    (active_ant t = nc \<and> r \<noteq> Inl Amps_On \<longrightarrow> ant1 \<le> active_ant t')"
proof -
  have up: "keeps forward (scan_from beyond cb v c)" for v c
    by (rule from_rounds [OF onward.state_order_axioms])
      (auto intro: forward_fixed fixed_fields forward_rounds)
  have eq: "keeps same_antenna (scan_from beyond cb True c)" for c
    by (rule from_rounds [OF fixed.state_order_axioms]) (auto intro: fixed_fields fixed_rounds)
  show ?thesis
  proof (cases "active_ant t = nc")
    case False
    with assms keepsD [OF eq] show ?thesis by (auto simp: scan_def same_antenna_def)
  next
    case True
    have "active_ant t' = ant1" if "set_antenna beyond ant1 t = Some (Inl e, t')" for e
      using set_antenna_any [OF that] .
    moreover have "ant1 \<le> active_ant t'" if "set_antenna beyond ant1 t = Some (Inr u, t1)"
      "scan_from beyond cb False c t1 = Some (r, t')" for u t1 c
      using set_antenna_any [OF that(1)] keepsD [OF up that(2)] by (simp add: forward_def)
    ultimately show ?thesis using assms True
      by (auto simp: scan_def thenM_Some_iff split: if_splits)
  qed
qed

theorem scan_antenna_witness:
  "\<exists>t'. scan (\<lambda>_. 695) False 0 coax_tuner = Some (Inr [5, 12], t') \<and> active_ant t' = coax"
proof -
  from coax_scan obtain t' where r: "scan (\<lambda>_. 695) False 0 coax_tuner = Some (Inr [5, 12], t')" by blast
  from scan_antenna [OF r] r show ?thesis by (simp add: coax_tuner_def)
qed

end
