(* ===== verification/Sez_Traffic.thy ===== *)
theory Sez_Traffic
  imports Sez_Discovery Sez_Scan
begin

text \<open>
  Relations of the system before and after a command that every call between \<^verbatim>\<open>open\<close> and \<^verbatim>\<open>close\<close> keeps: a
  locale asks for them on the calls of the system, and lifts them to the tuner, the demultiplexers, the
  thread and \<^verbatim>\<open>start_ts\<close>.
\<close>

definition net_lift :: "(world \<Rightarrow> world \<Rightarrow> bool) \<Rightarrow> tuner \<Rightarrow> tuner \<Rightarrow> bool" where
  "net_lift R t t' \<longleftrightarrow> R (net t) (net t')"

definition env_lift :: "(world \<Rightarrow> world \<Rightarrow> bool) \<Rightarrow> mpgatsc \<Rightarrow> mpgatsc \<Rightarrow> bool" where
  "env_lift R a a' \<longleftrightarrow> R (env a) (env a')"

definition sys_lift :: "(world \<Rightarrow> world \<Rightarrow> bool) \<Rightarrow> mpgts \<Rightarrow> mpgts \<Rightarrow> bool" where
  "sys_lift R s s' \<longleftrightarrow> R (sys s) (sys s')"

locale traffic = state_order R for R :: "world \<Rightarrow> world \<Rightarrow> bool" +
  assumes exchange: "keeps R (write_then_read (unframed req) n)"
    and calls: "keeps R (usleep us)" "keeps R malloc" "keeps R free_block" "keeps R gettimeofday" "keeps R (note_store c n)"
      "keeps R ask_ok" "keeps R ask_num" "keeps R recvfrom" "keeps R realloc"
      "keeps R (act (Dumped p))" "keeps R (act Dump_closed)" "keeps R (\<lambda>w. Some (Inr (), emit (Progress i m) w))"

sublocale traffic \<subseteq> nets: state_order "net_lift R"
  by unfold_locales (auto simp: net_lift_def intro: refl trans)

sublocale traffic \<subseteq> envs: state_order "env_lift R"
  by unfold_locales (auto simp: env_lift_def intro: refl trans)

sublocale traffic \<subseteq> syss: state_order "sys_lift R"
  by unfold_locales (auto simp: sys_lift_def intro: refl trans)

context traffic begin

lemma none: "keeps Q (\<lambda>_. None :: ((err + 'b) \<times> 's) option)"
  by (simp add: keeps_def)

subsection \<open>Registers\<close>

lemma command: "keeps R (bindM (write_then_read (unframed req) n) (reply k f))"
  unfolding reply_def by (intro bindI exchange) (auto intro!: keeps_intros calls)

lemma registers:
  "keeps R get_gpio" "keeps R (set_gpio v)" "keeps R (get_demod8 ch a)" "keeps R (set_demod8 ch a b)"
  "keeps R (get_demodN ch a len)"
  by (simp_all add: command_defs command fail)

lemma reset: "keeps R (reset_demod ch ms)"
  unfolding reset_demod_def Let_def by (intro keeps_intros registers calls)

lemma table: "keeps R (write_table ch l)"
  by (induction ch l rule: write_table.induct) (auto intro!: keeps_intros registers)

lemma bus: "keeps R (bus_request b)"
  unfolding bus_request_def by (auto intro!: keeps_intros exchange calls)

subsection \<open>The tuner\<close>

lemma socks: "keeps R m \<Longrightarrow> keeps (net_lift R) (sock m)"
  by (auto simp: keeps_def net_lift_def)

lemma fields: "keeps (net_lift R) (gets g)" "(\<And>t. net (f t) = net t) \<Longrightarrow> keeps (net_lift R) (modify f)"
  by (auto simp: keeps_def net_lift_def refl)

lemmas tuner_steps = nets.keeps_intros nets.tryI socks fields none

lemma amp: "keeps (net_lift R) (set_amp ch s)"
  unfolding set_amp_def Let_def by (auto intro!: tuner_steps registers split: option.split)

lemma freq: "keeps (net_lift R) (set_freq beyond ch tvch ms)"
  unfolding set_freq_def Let_def
  by (auto intro!: tuner_steps amp exchange calls reset split: option.split)

lemma antenna: "keeps (net_lift R) (set_antenna beyond a)"
  unfolding set_antenna_def apply_antenna_def Let_def by (auto intro!: tuner_steps amp freq)

lemma initialized: "keeps (net_lift R) tuner_init"
proof -
  have "keeps R (case m of VSB \<Rightarrow> thenM (write_table ch vsb1) (thenM (reset_demod ch 20)
      (bindM (get_demod8 ch 0x50e) (\<lambda>b. thenM (set_demod8 ch 0x50e (b OR 0x20)) (reset_demod ch 20)))) | _ \<Rightarrow> ret ())" for m ch
    by (cases m) (auto intro!: keeps_intros registers table reset)
  then have "keeps (net_lift R) (set_modulation ch m)" for ch m
    unfolding set_modulation_def by (intro nets.ifI nets.fail socks keeps_intros registers)
  then show ?thesis
    unfolding tuner_init_def init_channel_def get_str_def Let_def
    by (auto intro!: tuner_steps amp exchange calls split: option.split)
qed

lemma streaming:
  "keeps (net_lift R) (get_mse ch)" "keeps (net_lift R) (start_ts ch port)" "keeps (net_lift R) (stop_ts ch)"
  unfolding get_mse_def start_ts_def stop_ts_def Let_def
  by (auto intro!: nets.keeps_intros fields socks keeps_intros registers bus)

lemma scanning: "keeps (net_lift R) (scan beyond cb cr)"
proof -
  have pass: "keeps (net_lift R) (scan_pass beyond cb v c l found)" for v c l found
  proof (induction l arbitrary: found)
    case (Cons i l)
    have "keeps (net_lift R) (scan_step beyond cb v c i found)"
      unfolding scan_step_def scan_tune_def scan_check_def call_cb_def
      by (auto intro!: tuner_steps registers calls freq split: prod.split)
    with Cons show ?case by (auto intro!: nets.bindI)
  qed (simp add: nets.ret)
  have rounds: "keeps (net_lift R) (scan_rounds n beyond cb v c a b found)" for n v c a b found
    by (induction n arbitrary: found)
      (auto simp: or_restore_def or_free_def intro!: tuner_steps pass amp antenna registers calls split: sum.split)
  show ?thesis
    unfolding scan_def scan_from_def quiet_fm_def call_cb_def or_free_def
    by (auto intro!: tuner_steps keeps_intros rounds antenna registers calls split: sum.split prod.split)
qed

subsection \<open>The demultiplexers\<close>

lemma env_steps:
  "keeps (env_lift R) (look g)" "keeps (env_lift R) (need v)" "keeps (env_lift R) (set_pktlen pid n)"
  "keeps (env_lift R) (store pid i xs)" "keeps R m \<Longrightarrow> keeps (env_lift R) (call m)"
  "(\<And>a. env (f a) = env a) \<Longrightarrow> keeps (env_lift R) (put f)"
  by (auto simp: keeps_def env_lift_def set_pktlen_def store_iff call_def refl split: option.splits)

lemmas atsc_steps = envs.keeps_intros env_steps calls

lemma packet: "keeps (env_lift R) (thread_demux iconv fresh pkt)"
proof -
  have "keeps (env_lift R) (parse_tbl iconv pkt len pid)" for pkt len pid
    unfolding parse_tbl_def parse_pat_def parse_psip_mgt_def parse_psip_vct_def parse_pmt_def pat_apply_def pat_room_def
      parse_vct_def
    by (auto intro!: atsc_steps split: prod.splits)
  then show ?thesis
    unfolding thread_demux_def dump_packet_def unit_start_def unit_continue_def start_at_def buf_room_def deliver_def
      close_dump_def Let_def
    by (auto intro!: atsc_steps split: option.splits)
qed

lemma demux_init: "keeps (env_lift R) atsc_init"
  unfolding atsc_init_def open_iconv_def free_vct_def restart_dump_def close_dump_def
  by (auto intro!: atsc_steps)

lemma dump: "keeps (env_lift R) (open_dump name)"
  unfolding open_dump_def by (auto intro!: atsc_steps)

subsection \<open>The receiver\<close>

lemma parts:
  "keeps R m \<Longrightarrow> keeps (sys_lift R) (on_sys m)"
  "keeps (net_lift R) t \<Longrightarrow> keeps (sys_lift R) (on_tun t)"
  "keeps (env_lift R) a \<Longrightarrow> keeps (sys_lift R) (on_atsc i a)"
  "keeps (sys_lift R) (see g)"
  unfolding keeps_def sys_lift_def part_iffs net_lift_def env_lift_def
  by (fastforce simp: refl)+

lemma upds: "(\<And>s. sys_lift R s (f s)) \<Longrightarrow> keeps (sys_lift R) (upd f)"
  by (simp add: keeps_def)

lemma want_upd: "keeps (sys_lift R) (upd (\<lambda>s. s\<lparr>want_reset := f s\<rparr>))"
  by (rule upds) (simp add: sys_lift_def refl)

lemma thread: "keeps (sys_lift R) (thr_step iconv fresh pc)"
proof -
  have feed: "keeps (env_lift R) (feed iconv fresh ps)" for ps
    by (induction ps) (auto intro!: envs.keeps_intros packet)
  have "keeps (sys_lift R) (receive iconv fresh i)" for i
    unfolding receive_def by (auto intro!: syss.keeps_intros parts calls feed split: option.splits)
  then show ?thesis
    by (cases pc) (auto intro!: syss.keeps_intros parts calls demux_init none want_upd)
qed

lemma caller: "keeps (sys_lift R) (main_step pc)"
proof -
  have "keeps (sys_lift R) (upd (\<lambda>s. s\<lparr>atsc := f s\<rparr>))" for f
    by (rule upds) (simp add: sys_lift_def refl)
  then show ?thesis
    by (cases pc) (auto intro!: syss.keeps_intros syss.tryI parts calls streaming none want_upd)
qed

lemma requested: "keeps (sys_lift R) (request_ts ch)"
  unfolding request_ts_def by (auto intro!: syss.keeps_intros parts)

end

subsection \<open>The trace grows\<close>

lemma extends_more:
  "keeps extends realloc" "keeps extends (\<lambda>w. Some (Inr (), emit (Progress i m) w))"
  by (auto simp: realloc_def keeps_def extends_def split: list.splits os_event.splits)

interpretation growth: traffic extends
  by unfold_locales (rule bus_grows keeps_extends_calls extends_more)+

subsection \<open>Descriptors stay\<close>

definition same_fds :: "world \<Rightarrow> world \<Rightarrow> bool" where
  "same_fds w w' \<longleftrightarrow> closed_fds (trace w') = closed_fds (trace w) \<and> socket_fds w' = socket_fds w"

interpretation quiet: state_order same_fds
  by unfold_locales (auto simp: same_fds_def)

text \<open>The descriptors a script opens depend on its events of \<^verbatim>\<open>::socket\<close> alone.\<close>

abbreviation is_socket :: "os_event \<Rightarrow> bool" where
  "is_socket \<equiv> \<lambda>e. case e of Ev_socket fd \<Rightarrow> True | _ \<Rightarrow> False"

lemma socket_fds_filter:
  "filter is_socket (script w') = filter is_socket (script w) \<Longrightarrow> socket_fds w' = socket_fds w"
proof -
  have f: "concat (map (\<lambda>e. case e of Ev_socket fd \<Rightarrow> if fd = -1 then [] else [fd] | _ \<Rightarrow> []) es) =
    concat (map (\<lambda>e. case e of Ev_socket fd \<Rightarrow> if fd = -1 then [] else [fd] | _ \<Rightarrow> []) (filter is_socket es))" for es
    by (induction es) (auto split: os_event.split)
  show "filter is_socket (script w') = filter is_socket (script w) \<Longrightarrow> socket_fds w' = socket_fds w"
    unfolding socket_fds_def by (subst (1 2) f) simp
qed

lemma quiet_calls:
  "keeps same_fds (usleep us)" "keeps same_fds malloc" "keeps same_fds free_block" "keeps same_fds gettimeofday"
  "keeps same_fds (note_store c n)" "keeps same_fds ask_ok" "keeps same_fds ask_num" "keeps same_fds recvfrom"
  "keeps same_fds realloc" "keeps same_fds (act (Dumped p))" "keeps same_fds (act Dump_closed)"
  "keeps same_fds (\<lambda>w. Some (Inr (), emit (Progress i m) w))" "keeps same_fds fionread"
  by (auto simp: keeps_def same_fds_def socket_fds_def usleep_def malloc_def free_block_def gettimeofday_def note_store_def
      ask_ok_def ask_num_def recvfrom_def realloc_def act_def fionread_def closed_fds_def
      split: list.splits os_event.splits option.splits)

lemma write_loop_sockets:
  "write_loop pkt es = Some (r, es', out) \<Longrightarrow> filter is_socket es' = filter is_socket es"
  by (induction pkt es arbitrary: r es' out rule: write_loop.induct) (auto split: if_splits option.splits)

lemma read_loop_sockets:
  "read_loop n es = Some (r, es', inp) \<Longrightarrow> filter is_socket es' = filter is_socket es"
  by (induction n es arbitrary: r es' inp rule: read_loop.induct) (auto split: if_splits option.splits)

lemma select_wait_sockets:
  "select_wait t0 es = Some (r, es') \<Longrightarrow> filter is_socket es' = filter is_socket es"
  by (induction t0 es arbitrary: r es' rule: select_wait.induct)
    (auto split: if_splits list.splits os_event.splits)

lemma quiet_loops:
  "keeps same_fds (read_bytes n)" "keeps same_fds (wait_readable t0)" "keeps same_fds (socket_write pkt t)"
  by (auto simp: keeps_def same_fds_def read_bytes_Some wait_readable_Some socket_write_def
      split: option.splits
      intro!: socket_fds_filter dest: write_loop_sockets read_loop_sockets select_wait_sockets)

lemma quiet_exchange: "keeps same_fds (write_then_read pkt n)"
proof -
  have "keeps same_fds (socket_read cap)" for cap
    unfolding socket_read_def Let_def
    by (auto intro!: quiet.keeps_intros quiet_calls quiet_loops split: sum.split prod.split)
  then show ?thesis
    unfolding write_then_read_def take_reply_def
    by (auto intro!: quiet.keeps_intros quiet.tryI quiet_calls quiet_loops split: sum.split prod.split)
qed

interpretation descriptors: traffic same_fds
  by unfold_locales (rule quiet_exchange quiet_calls)+

end
