(* ===== verification/Sez_Probe.thy ===== *)
theory Sez_Probe
  imports Sez_Discovery Sez_Scan
begin

text \<open>
  The command line's work on one tuner (\<^verbatim>\<open>main.cpp\<close>): reading keys, starting a stream, and finding which of
  the channels the scan found are strong. What is printed on the way is left out.

  While the main thread sleeps or talks to the tuner the receiver's thread runs. What it does then is a
  parameter \<open>meanwhile\<close>, a function on the object: theorems quantify over it.
\<close>

subsection \<open>Keyboard\<close>

text \<open>
  \<^verbatim>\<open>rawgetch\<close>: the terminal is switched to raw mode, read and switched back. Without a key \<^verbatim>\<open>fgetc\<close> returns
  \<^verbatim>\<open>EOF\<close>, and \<^verbatim>\<open>errno\<close>, which nothing has cleared, tells an error from no key.
\<close>

definition rawgetch :: "int io" where
  "rawgetch =
    bindM ask_ok (\<lambda>got.
    if \<not> got then ret (-1)
    else bindM ask_ok (\<lambda>raw.
      if \<not> raw then ret (-1)
      else bindM ask_num (\<lambda>r.
        bindM ask_ok (\<lambda>orig.
        if \<not> orig then ret (-1)
        else if r = -1 then bindM ask_num (\<lambda>errno. ret (if errno = 0 then 0 else -1))
        else ret r))))"

subsection \<open>Starting a stream while the thread runs\<close>

text \<open>The steps of \<^verbatim>\<open>start_ts\<close>, with \<open>meanwhile\<close> between them; seven are enough for every call.\<close>

fun start_rounds :: "(mpgts \<Rightarrow> mpgts) \<Rightarrow> nat \<Rightarrow> main_pc \<Rightarrow> unit ts_cmd" where
  "start_rounds meanwhile 0 pc = (\<lambda>_. None)"
| "start_rounds meanwhile (Suc n) (Returned failed) = (if failed then fail Timed_Out else ret ())"
| "start_rounds meanwhile (Suc n) pc =
    bindM (main_step pc) (\<lambda>pc'. thenM (upd meanwhile) (start_rounds meanwhile n pc'))"

definition mpgts_start_ts :: "(mpgts \<Rightarrow> mpgts) \<Rightarrow> u8 \<Rightarrow> unit ts_cmd" where
  "mpgts_start_ts meanwhile ch =
    bindM (request_ts ch) (\<lambda>pc. thenM (upd meanwhile) (start_rounds meanwhile 7 pc))"

definition sleep_ts :: "(mpgts \<Rightarrow> mpgts) \<Rightarrow> nat \<Rightarrow> unit ts_cmd" where
  "sleep_ts meanwhile us = thenM (on_sys (usleep us)) (upd meanwhile)"

fun steps_left :: "main_pc \<Rightarrow> nat" where
  "steps_left (Requesting ch w) = 7"
| "steps_left (Waiting ch k) = 3 + (3 - k)"
| "steps_left (Tuning ch) = 2"
| "steps_left (Returned b) = 1"
| "steps_left Idle = 1"

lemma main_step_closer: "main_step pc s = Some (Inr pc', s') \<Longrightarrow> pc' \<noteq> Idle \<Longrightarrow> steps_left pc' < steps_left pc"
  by (cases pc) (auto simp: cmd_iffs tryM_Some_iff split: if_splits)

lemma rounds_enough:
  "steps_left pc \<le> n \<Longrightarrow> pc \<noteq> Idle \<Longrightarrow> start_rounds meanwhile (n + k) pc = start_rounds meanwhile n pc"
proof (induction n arbitrary: pc)
  case 0
  then show ?case by (cases pc) simp_all
next
  case (Suc n)
  have next_pc: "start_rounds meanwhile (n + k) pc' = start_rounds meanwhile n pc'"
    if "main_step pc s = Some (Inr pc', s')" "pc \<in> {Requesting ch i, Waiting ch j, Tuning ch}" for s pc' s' ch i j
  proof (rule Suc.IH)
    show "pc' \<noteq> Idle" using that by (auto simp: cmd_iffs tryM_Some_iff split: if_splits)
    then show "steps_left pc' \<le> n" using main_step_closer [OF that(1)] Suc.prems(1) by simp
  qed
  have rest: "bindM (main_step pc) (\<lambda>pc'. thenM (upd meanwhile) (start_rounds meanwhile (n + k) pc')) =
      bindM (main_step pc) (\<lambda>pc'. thenM (upd meanwhile) (start_rounds meanwhile n pc'))"
    if "pc \<in> {Requesting ch i, Waiting ch j, Tuning ch}" for ch i j
    by (rule ext) (use next_pc [OF _ that] in \<open>auto simp: bindM_def tryM_def thenM_def split: option.split sum.split\<close>)
  show ?case
  proof (cases pc)
    case (Requesting ch w)
    with rest [of ch w] show ?thesis by (simp del: main_step.simps)
  next
    case (Waiting ch j)
    with rest [of ch 0 j] show ?thesis by (simp del: main_step.simps)
  next
    case (Tuning ch)
    with rest [of ch] show ?thesis by (simp del: main_step.simps)
  qed (use Suc.prems in simp_all)
qed

text \<open>Every call of \<^verbatim>\<open>start_ts\<close> returns within the seven rounds it is given; more make no difference.\<close>

lemma start_rounds_enough:
  assumes "request_ts ch s = Some (Inr pc, s')"
  shows "start_rounds meanwhile (7 + k) pc = start_rounds meanwhile 7 pc"
  by (rule rounds_enough) (use assms in \<open>auto simp: request_ts_def cmd_iffs split: if_splits\<close>)

subsection \<open>Strong channels\<close>

type_synonym u64 = "64 word"

text \<open>Milliseconds between two times, as the C expression computes them from seconds and microseconds.\<close>

definition ms_between :: "int \<Rightarrow> int \<Rightarrow> u64" where
  "ms_between t_start t_now =
    (let us = t_now mod 1000000 - t_start mod 1000000
     in word_of_int ((t_now div 1000000 - t_start div 1000000) * 1000 +
          (if us < 0 then - ((- us) div 1000) else us div 1000)))"

text \<open>
  The locals of \<^verbatim>\<open>do_item\<close>: \<open>ends\<close> is the array \<^verbatim>\<open>end\<close>, 0 for a channel that is free, \<open>use\<close> and
  \<open>cur_ms\<close> the locals \<^verbatim>\<open>ch\<close> and \<^verbatim>\<open>cur_ms\<close>.
\<close>

record strong =
  s_obj :: mpgts
  t_start :: int
  ends :: "u8 \<Rightarrow> u64"
  endch :: "u8 \<Rightarrow> u32"
  strongch :: "u32 list"
  use :: u8
  cur_ms :: u64

type_synonym 'a strong_cmd = "(strong, 'a) cmd"

definition s_on :: "'a ts_cmd \<Rightarrow> 'a strong_cmd" where
  "s_on m s = (case m (s_obj s) of None \<Rightarrow> None | Some (r, x) \<Rightarrow> Some (r, s\<lparr>s_obj := x\<rparr>))"

definition s_see :: "(strong \<Rightarrow> 'a) \<Rightarrow> 'a strong_cmd" where
  "s_see f s = Some (Inr (f s), s)"

definition s_put :: "(strong \<Rightarrow> strong) \<Rightarrow> unit strong_cmd" where
  "s_put f s = Some (Inr (), f s)"

definition look_at_clock :: "unit strong_cmd" where
  "look_at_clock = bindM (s_on (on_sys gettimeofday)) (\<lambda>now. s_put (\<lambda>s. s\<lparr>cur_ms := ms_between (t_start s) now\<rparr>))"

definition free_slot :: "u8 \<Rightarrow> unit strong_cmd" where
  "free_slot ch = s_put (\<lambda>s. s\<lparr>ends := (ends s)(ch := 0)\<rparr>)"

text \<open>The store into \<^verbatim>\<open>strongch\<close>, an array of \<^verbatim>\<open>n_ch\<close> entries.\<close>

definition add_strong :: "nat \<Rightarrow> u8 \<Rightarrow> unit strong_cmd" where
  "add_strong n_ch ch =
    bindM (s_see (\<lambda>s. length (strongch s))) (\<lambda>i.
    thenM (s_on (on_sys (note_store (4 * n_ch) (4 * (i + 1)))))
      (s_put (\<lambda>s. s\<lparr>strongch := strongch s @ [endch s ch]\<rparr>)))"

text \<open>Whether the tune on \<open>ch\<close> has come to an end: timed out, or found to be strong.\<close>

definition tune_ended :: "nat \<Rightarrow> u8 \<Rightarrow> bool strong_cmd" where
  "tune_ended n_ch ch =
    bindM (s_see (\<lambda>s. ends s ch < cur_ms s)) (\<lambda>late.
    if late then thenM (free_slot ch) (ret True)
    else bindM (s_on (on_tun (get_mse ch))) (\<lambda>(status, ptmse, eqmse).
      if status > 3 then thenM (add_strong n_ch ch) (thenM (free_slot ch) (ret True))
      else ret False))"

text \<open>One round of the search for a tuner channel that is free.\<close>

definition find_slot :: "(mpgts \<Rightarrow> mpgts) \<Rightarrow> nat \<Rightarrow> unit option strong_cmd" where
  "find_slot meanwhile n_ch =
    thenM look_at_clock
    (bindM (s_see use) (\<lambda>ch.
     bindM (s_see (\<lambda>s. ends s ch)) (\<lambda>e.
     bindM (if e = 0 then ret True else tune_ended n_ch ch) (\<lambda>stop.
     if stop then ret (Some ())
     else
       thenM (if ch + 1 \<ge> NUM_CHANNELS
              then thenM (s_on (sleep_ts meanwhile 100000)) (s_put (\<lambda>s. s\<lparr>use := 0\<rparr>))
              else s_put (\<lambda>s. s\<lparr>use := ch + 1\<rparr>))
         (ret None)))))"

definition s_world :: "strong \<Rightarrow> world" where
  "s_world s = sys (s_obj s)"

definition try_channel :: "(nat \<Rightarrow> u32) \<Rightarrow> (mpgts \<Rightarrow> mpgts) \<Rightarrow> nat \<Rightarrow> u32 \<Rightarrow> unit strong_cmd" where
  "try_channel beyond meanwhile n_ch tv =
    thenM (s_put (\<lambda>s. s\<lparr>use := 0\<rparr>))
    (thenM (loopM s_world (find_slot meanwhile n_ch))
    (bindM (s_see use) (\<lambda>ch.
     thenM (s_put (\<lambda>s. s\<lparr>ends := (ends s)(ch := cur_ms s + 1000), endch := (endch s)(ch := tv)\<rparr>))
     (thenM (s_on (on_tun (set_freq beyond ch tv 20)))
       (s_on (sleep_ts meanwhile 100000))))))"

fun try_channels :: "(nat \<Rightarrow> u32) \<Rightarrow> (mpgts \<Rightarrow> mpgts) \<Rightarrow> nat \<Rightarrow> u32 list \<Rightarrow> unit strong_cmd" where
  "try_channels beyond meanwhile n_ch [] = ret ()"
| "try_channels beyond meanwhile n_ch (tv # tvs) =
    thenM (try_channel beyond meanwhile n_ch tv) (try_channels beyond meanwhile n_ch tvs)"

text \<open>The second loop, which finishes the tunes that are still running: the value is whether \<open>ch\<close> is one.\<close>

definition still_running :: "nat \<Rightarrow> u8 \<Rightarrow> bool strong_cmd" where
  "still_running n_ch ch =
    thenM look_at_clock
    (bindM (s_see (\<lambda>s. ends s ch)) (\<lambda>e.
     if e = 0 then ret False
     else bindM (tune_ended n_ch ch) (\<lambda>stop. ret (\<not> stop))))"

definition drain :: "(mpgts \<Rightarrow> mpgts) \<Rightarrow> nat \<Rightarrow> unit option strong_cmd" where
  "drain meanwhile n_ch =
    bindM (still_running n_ch 0) (\<lambda>r0.
    bindM (still_running n_ch 1) (\<lambda>r1.
    if \<not> r0 \<and> \<not> r1 then ret (Some ())
    else thenM (s_on (sleep_ts meanwhile 100000)) (ret None)))"

definition strong_channels :: "(nat \<Rightarrow> u32) \<Rightarrow> (mpgts \<Rightarrow> mpgts) \<Rightarrow> u32 list \<Rightarrow> u32 list ts_cmd" where
  "strong_channels beyond meanwhile chlist =
    bindM (on_sys gettimeofday) (\<lambda>t0.
    (\<lambda>x. case thenM (try_channels beyond meanwhile (length chlist) chlist)
            (thenM (loopM s_world (drain meanwhile (length chlist))) (s_see strongch))
            \<lparr>s_obj = x, t_start = t0, ends = (\<lambda>_. 0), endch = (\<lambda>_. 0), strongch = [], use = 0, cur_ms = 0\<rparr>
          of None \<Rightarrow> None | Some (r, s) \<Rightarrow> Some (r, s_obj s)))"

subsection \<open>The strong channels\<close>

lemma s_see_iff [simp]: "s_see f s = Some (r, s') \<longleftrightarrow> r = Inr (f s) \<and> s' = s"
  by (auto simp: s_see_def)

lemma s_put_iff [simp]: "s_put f s = Some (r, s') \<longleftrightarrow> r = Inr () \<and> s' = f s"
  by (auto simp: s_put_def)

lemma s_on_iff: "s_on m s = Some (r, s') \<longleftrightarrow> (\<exists>x. m (s_obj s) = Some (r, x) \<and> s' = s\<lparr>s_obj := x\<rparr>)"
  by (auto simp: s_on_def split: option.splits)

text \<open>The channels being tried.\<close>

definition busy :: "strong \<Rightarrow> u32 multiset" where
  "busy s = (if ends s 0 \<noteq> 0 then {#endch s 0#} else {#}) + (if ends s 1 \<noteq> 0 then {#endch s 1#} else {#})"

definition strong_inv :: "u32 list \<Rightarrow> strong \<Rightarrow> bool" where
  "strong_inv tried s \<longleftrightarrow> mset (strongch s) + busy s \<subseteq># mset tried \<and> use s < 2"

lemma two_channels: "(ch :: u8) < 2 \<Longrightarrow> ch = 0 \<or> ch = 1"
  by unat_arith

lemma busy_fields [simp]:
  "busy (s\<lparr>s_obj := x\<rparr>) = busy s" "busy (s\<lparr>use := ch\<rparr>) = busy s" "busy (s\<lparr>cur_ms := m\<rparr>) = busy s"
  "busy (s\<lparr>strongch := l\<rparr>) = busy s"
  by (simp_all add: busy_def)

lemma busy_free:
  assumes "ch < 2"
  shows "busy s = (if ends s ch \<noteq> 0 then {#endch s ch#} else {#}) + busy (s\<lparr>ends := (ends s)(ch := 0)\<rparr>)"
  using two_channels [OF assms] by (elim disjE) (simp_all add: busy_def)

lemma busy_start:
  assumes "ch < 2" and "ends s ch = 0"
  shows "busy (s\<lparr>ends := (ends s)(ch := e), endch := (endch s)(ch := tv)\<rparr>) \<subseteq># add_mset tv (busy s)"
  using two_channels [OF assms(1)] assms(2) by (elim disjE) (simp_all add: busy_def)

lemma strong_inv_fields [simp]:
  "strong_inv l (s\<lparr>s_obj := x\<rparr>) = strong_inv l s" "strong_inv l (s\<lparr>cur_ms := m\<rparr>) = strong_inv l s"
  by (simp_all add: strong_inv_def)

lemma strong_on: "triple (strong_inv l) (s_on m) (\<lambda>_. strong_inv l) (\<lambda>_. True)"
  by (rule tripleI) (auto simp: s_on_iff)

lemma strong_use: "ch < 2 \<Longrightarrow> strong_inv l s \<Longrightarrow> strong_inv l (s\<lparr>use := ch\<rparr>)"
  by (simp add: strong_inv_def)

lemma strong_clock: "triple (strong_inv l) look_at_clock (\<lambda>_. strong_inv l) (\<lambda>_. True)"
  by (rule tripleI) (auto simp: look_at_clock_def cmd_iffs s_on_iff)

lemma strong_free:
  assumes "ch < 2" and "strong_inv l s"
  shows "strong_inv l (s\<lparr>ends := (ends s)(ch := 0)\<rparr>)"
proof -
  have "busy (s\<lparr>ends := (ends s)(ch := 0)\<rparr>) \<subseteq># busy s" by (subst busy_free [OF assms(1)]) simp
  then have "mset (strongch s) + busy (s\<lparr>ends := (ends s)(ch := 0)\<rparr>) \<subseteq># mset (strongch s) + busy s" by simp
  from subset_mset.order_trans [OF this, of "mset l"] assms(2) show ?thesis by (simp add: strong_inv_def)
qed

lemma strong_add:
  assumes "ch < 2" and "strong_inv l s" and "ends s ch \<noteq> 0"
  shows "strong_inv l (s\<lparr>strongch := strongch s @ [endch s ch], ends := (ends s)(ch := 0)\<rparr>)"
proof -
  let ?s = "s\<lparr>ends := (ends s)(ch := 0)\<rparr>"
  have "busy (s\<lparr>strongch := strongch s @ [endch s ch], ends := (ends s)(ch := 0)\<rparr>) = busy ?s"
    by (simp add: busy_def)
  moreover have "busy s = add_mset (endch s ch) (busy ?s)"
    using busy_free [OF assms(1), of s] assms(3) by simp
  ultimately show ?thesis using assms(2) by (simp add: strong_inv_def)
qed

lemma strong_tune_ended:
  assumes "ch < 2" and "strong_inv l s" and "ends s ch \<noteq> 0" and "tune_ended n ch s = Some (Inr stop, s')"
  shows "strong_inv l s' \<and> use s' = use s \<and> (stop \<longrightarrow> ends s' ch = 0)"
proof -
  have "strong_inv l ((s\<lparr>s_obj := x\<rparr>)\<lparr>strongch := strongch s @ [endch s ch], ends := (ends s)(ch := 0)\<rparr>)" for x
    using strong_add [of ch l "s\<lparr>s_obj := x\<rparr>"] assms(1-3) by simp
  with assms(4) strong_free [OF assms(1,2)] assms(2) show ?thesis
    by (auto simp: tune_ended_def add_strong_def free_slot_def cmd_iffs s_on_iff split: if_splits prod.splits)
qed

lemma strong_find_slot:
  assumes "strong_inv l s" and "find_slot meanwhile n s = Some (Inr r, s')"
  shows "strong_inv l s' \<and> (r = Some () \<longrightarrow> ends s' (use s') = 0)"
proof -
  from assms(2) obtain s1 where s1: "look_at_clock s = Some (Inr (), s1)"
    and "\<exists>stop s2. (if ends s1 (use s1) = 0 then ret True else tune_ended n (use s1)) s1 = Some (Inr stop, s2) \<and>
      (if stop then ret (Some ())
       else thenM (if use s1 + 1 \<ge> NUM_CHANNELS
              then thenM (s_on (sleep_ts meanwhile 100000)) (s_put (\<lambda>s. s\<lparr>use := 0\<rparr>))
              else s_put (\<lambda>s. s\<lparr>use := use s1 + 1\<rparr>)) (ret None)) s2 = Some (Inr r, s')"
    by (auto simp: find_slot_def thenM_Inr_iff bindM_Inr_iff)
  then obtain stop s2
    where s2: "(if ends s1 (use s1) = 0 then ret True else tune_ended n (use s1)) s1 = Some (Inr stop, s2)"
      and k: "(if stop then ret (Some ())
       else thenM (if use s1 + 1 \<ge> NUM_CHANNELS
              then thenM (s_on (sleep_ts meanwhile 100000)) (s_put (\<lambda>s. s\<lparr>use := 0\<rparr>))
              else s_put (\<lambda>s. s\<lparr>use := use s1 + 1\<rparr>)) (ret None)) s2 = Some (Inr r, s')" by blast
  from k have s': "if stop then r = Some () \<and> s' = s2
      else r = None \<and> ((\<exists>x. s' = s2\<lparr>s_obj := x, use := 0\<rparr>) \<or> s' = s2\<lparr>use := use s1 + 1\<rparr> \<and> use s1 + 1 < 2)"
    by (auto simp: cmd_iffs s_on_iff not_le split: if_splits)
  have 1: "strong_inv l s1" using triple_value [OF strong_clock assms(1) s1] .
  then have u: "use s1 < 2" by (simp add: strong_inv_def)
  have 2: "strong_inv l s2 \<and> use s2 = use s1 \<and> (stop \<longrightarrow> ends s2 (use s1) = 0)"
  proof (cases "ends s1 (use s1) = 0")
    case True
    with s2 1 show ?thesis by simp
  next
    case False
    with s2 strong_tune_ended [OF u 1 False] show ?thesis by simp
  qed
  then have "strong_inv l (s2\<lparr>s_obj := x, use := 0\<rparr>)" for x
    using strong_use [of 0 l "s2\<lparr>s_obj := x\<rparr>"] by simp
  with s' 2 strong_use [of "use s1 + 1" l s2] show ?thesis by (cases stop) auto
qed

lemma strong_try_channel:
  assumes "strong_inv l s" and "try_channel beyond meanwhile n tv s = Some (Inr u, s')"
  shows "strong_inv (l @ [tv]) s'"
proof -
  from assms(2) obtain s1 x where s1: "loopM s_world (find_slot meanwhile n) (s\<lparr>use := 0\<rparr>) = Some (Inr (), s1)"
    and s': "s' = s1\<lparr>ends := (ends s1)(use s1 := cur_ms s1 + 1000), endch := (endch s1)(use s1 := tv), s_obj := x\<rparr>"
    by (auto simp: try_channel_def thenM_Inr_iff bindM_Inr_iff s_on_iff)
  have "triple (strong_inv l) (find_slot meanwhile n)
      (\<lambda>r. case r of None \<Rightarrow> strong_inv l | Some u \<Rightarrow> (\<lambda>s. strong_inv l s \<and> ends s (use s) = 0)) (\<lambda>_. True)"
  proof (rule tripleI)
    fix s r s' assume "strong_inv l s" "find_slot meanwhile n s = Some (Inr r, s')"
    from strong_find_slot [OF this]
    show "(case r of None \<Rightarrow> strong_inv l | Some u \<Rightarrow> (\<lambda>s. strong_inv l s \<and> ends s (use s) = 0)) s'"
      by (cases r) simp_all
  qed simp
  moreover have "strong_inv l (s\<lparr>use := 0\<rparr>)" using assms(1) by (simp add: strong_inv_def)
  ultimately have "strong_inv l s1 \<and> ends s1 (use s1) = 0"
    using triple_value [OF triple_loop] s1 by fastforce
  then have i: "mset (strongch s1) + busy s1 \<subseteq># mset l" "use s1 < 2" "ends s1 (use s1) = 0"
    by (simp_all add: strong_inv_def)
  let ?s = "s1\<lparr>ends := (ends s1)(use s1 := cur_ms s1 + 1000), endch := (endch s1)(use s1 := tv)\<rparr>"
  have "mset (strongch s1) + busy ?s \<subseteq># mset (strongch s1) + add_mset tv (busy s1)"
    by (rule subset_mset.add_left_mono) (rule busy_start [OF i(2,3)])
  also have "\<dots> \<subseteq># add_mset tv (mset l)" using i(1) by simp
  finally have "mset (strongch s1) + busy ?s \<subseteq># add_mset tv (mset l)" .
  with i(2) show ?thesis by (simp add: s' strong_inv_def)
qed

lemma strong_try_channels:
  "strong_inv l s \<Longrightarrow> try_channels beyond meanwhile n tvs s = Some (Inr u, s') \<Longrightarrow> strong_inv (l @ tvs) s'"
proof (induction tvs arbitrary: l s)
  case (Cons tv tvs)
  from Cons.prems(2) obtain v s1 where "try_channel beyond meanwhile n tv s = Some (Inr v, s1)"
    "try_channels beyond meanwhile n tvs s1 = Some (Inr u, s')" by (auto simp: thenM_Inr_iff)
  with Cons.IH [OF strong_try_channel [OF Cons.prems(1)]] show ?case by simp
qed simp

lemma strong_drain: "triple (strong_inv l) (drain meanwhile n) (\<lambda>_. strong_inv l) (\<lambda>_. True)"
proof -
  have "strong_inv l s'" if "strong_inv l s" "still_running n ch s = Some (Inr b, s')" "ch < 2" for s s' ch b
  proof -
    from that(2) obtain s1 where s1: "look_at_clock s = Some (Inr (), s1)"
      and k: "s' = s1 \<or> (\<exists>stop. ends s1 ch \<noteq> 0 \<and> tune_ended n ch s1 = Some (Inr stop, s'))"
      by (auto simp: still_running_def cmd_iffs split: if_splits)
    with triple_value [OF strong_clock that(1) s1] strong_tune_ended [OF that(3)] show ?thesis by blast
  qed
  then have s: "triple (strong_inv l) (still_running n ch) (\<lambda>_. strong_inv l) (\<lambda>_. True)" if "ch < 2" for ch
    using that by (auto intro!: tripleI)
  show ?thesis unfolding drain_def
    by (rule triple_bind [OF s], simp, rule triple_bind [OF s], simp) (auto intro!: triple_intros strong_on)
qed

text \<open>C17: Only channels that the scan found are reported as strong, and no channel more often than it is in
  the list: the array of strong channels, which has an entry for each, is never overrun.\<close>

theorem strong_channels_bounded:
  assumes "strong_channels beyond meanwhile chlist s = Some (Inr l, s')"
  shows "mset l \<subseteq># mset chlist \<and> length l \<le> length chlist"
proof -
  from assms obtain t0 x s1 s2 where 1: "try_channels beyond meanwhile (length chlist) chlist
      \<lparr>s_obj = x, t_start = t0, ends = (\<lambda>_. 0), endch = (\<lambda>_. 0), strongch = [], use = 0, cur_ms = 0\<rparr> = Some (Inr (), s1)"
    and 2: "loopM s_world (drain meanwhile (length chlist)) s1 = Some (Inr (), s2)" and l: "l = strongch s2"
    by (auto simp: strong_channels_def cmd_iffs split: option.splits)
  have "strong_inv chlist s1" using strong_try_channels [OF _ 1, of "[]"] by (simp add: strong_inv_def busy_def)
  moreover have "triple (strong_inv chlist) (loopM s_world (drain meanwhile (length chlist)))
      (\<lambda>_. strong_inv chlist) (\<lambda>_. True)"
    by (rule triple_loop, rule triple_post [OF strong_drain]) (auto split: option.splits)
  ultimately have "strong_inv chlist s2" using triple_value 2 by fastforce
  then have "mset l \<subseteq># mset chlist"
    unfolding l strong_inv_def by (metis mset_subset_eq_add_left subset_mset.order_trans)
  then show ?thesis by (metis size_mset size_mset_mono)
qed

subsection \<open>A run on one channel\<close>

lemma runs_get_mse:
  assumes "ch \<le> 2" and "lock AND 0x80 \<noteq> 0" and "length m = 8"
  shows "runs (\<lambda>w. case get_mse ch (t\<lparr>net := w\<rparr>) of None \<Rightarrow> None | Some (r, t') \<Rightarrow> Some (r, net t'))
    (answered (read_request ch 0x11d 1) [lock] @ answered (read_request ch 3 1) [st] @ answered (read_request ch 0x413 8) m)
    (mse_status st, u24 (m ! 4) (m ! 5) (m ! 6), u24 (m ! 0) (m ! 1) (m ! 2))"
proof -
  have ok: "\<not> bad_address ch a" if "a AND NOT 0xffff = 0" for a
    using that assms(1) by (simp add: bad_address_def not_less)
  let ?m = "bindM (get_demod8 ch 0x11d) (\<lambda>lock.
    if lock AND 0x80 = 0 then ret (0, 0xfffff, 0xfffff)
    else
      bindM (get_demod8 ch 3) (\<lambda>lock.
      bindM (get_demodN ch 0x413 8) (\<lambda>m.
      ret (mse_status lock, u24 (m ! 4) (m ! 5) (m ! 6), u24 (m ! 0) (m ! 1) (m ! 2)))))"
  have "(\<lambda>w. case get_mse ch (t\<lparr>net := w\<rparr>) of None \<Rightarrow> None | Some (r, t') \<Rightarrow> Some (r, net t')) = ?m"
    by (rule ext) (simp add: get_mse_def sock_def split: option.splits prod.splits)
  moreover have "runs ?m (answered (read_request ch 0x11d 1) [lock] @ answered (read_request ch 3 1) [st] @
      answered (read_request ch 0x413 8) m @ [])
    (mse_status st, u24 (m ! 4) (m ! 5) (m ! 6), u24 (m ! 0) (m ! 1) (m ! 2))"
    by (rule runs_bind [OF runs_get_demod8], rule ok, simp, simp only: assms(2) if_False,
        rule runs_bind [OF runs_get_demod8], rule ok, simp,
        rule runs_bind [OF runs_get_demodN], rule ok, simp_all add: assms(3) runs_ret)
  ultimately show ?thesis by simp
qed

text \<open>The events of tuning to channel 5 on the coaxial antenna.\<close>

definition tune5_answers :: "os_event list" where
  "tune5_answers = (let f = ch_freq_at (\<lambda>_. 695) 5 in answered (pll_request 0 f (fst (the (band_of f)))) []) @
     reset_answers 0 1"

lemma set_freq_5:
  assumes "active_ant t = coax" and "ch_i (ch_state t 0) = external" and "script (net t) = tune5_answers @ es"
  shows "\<exists>tr. set_freq (\<lambda>_. 695) 0 5 20 t = Some (Inr (), (t\<lparr>net := (net t)\<lparr>script := es, trace := trace (net t) @ tr\<rparr>\<rparr>)
    \<lparr>ch_state := (ch_state t)(0 := (ch_state t 0)\<lparr>ch_tvch := 5\<rparr>)\<rparr>)"
proof -
  let ?f = "ch_freq_at (\<lambda>_. 695) 5"
  obtain bs tai where b: "band_of ?f = Some (bs, tai)" using tv_bands [of 3] by auto
  have nz: "ch_freq_at (\<lambda>_. 695) 3 \<noteq> 0" by code_simp
  have s: "script (net t) = answered (pll_request 0 ?f bs) [] @ reset_answers 0 1 @ es"
    using assms(3) b by (simp add: tune5_answers_def Let_def)
  have w: "write_then_read (unframed (pll_request 0 ?f bs)) 8 (net t) =
    Some (Inr (frame_head 0x0d []), (net t)\<lparr>script := reset_answers 0 1 @ es, blocks := blocks (net t) + 1,
      trace := trace (net t) @ [Sent (frame 0x0c (pll_request 0 ?f bs))]\<rparr>)"
    using write_then_read_eval [OF s, of 8] by (simp add: overrun_if_def)
  obtain tr where r: "reset_demod 0 20 ((net t)\<lparr>script := reset_answers 0 1 @ es,
      trace := trace (net t) @ [Sent (frame 0x0c (pll_request 0 ?f bs))]\<rparr>) = Some (Inr (), (net t)\<lparr>script := es,
      trace := (trace (net t) @ [Sent (frame 0x0c (pll_request 0 ?f bs))]) @ tr\<rparr>)"
    using runsE [OF runs_reset_demod [of 0 20 1], of "(net t)\<lparr>script := reset_answers 0 1 @ es,
      trace := trace (net t) @ [Sent (frame 0x0c (pll_request 0 ?f bs))]\<rparr>" es] by auto
  have amp: "set_amp 0 external t = Some (Inr (), t)"
    using assms(2) by (simp add: set_amp_def io_simps)
  show ?thesis
    using nz b assms(1) amp w r
    by (intro exI [of _ "Sent (frame 0x0c (pll_request 0 ?f bs)) # tr"])
      (simp add: set_freq_def Let_def thenM_def io_simps sock_def free_block_def)
qed

definition strong_example :: mpgts where
  "strong_example = (new_mpgts 0 \<lparr>script = [Ev_clock 0, Ev_clock 0] @ tune5_answers @ [Ev_clock 0] @
     answered (read_request 0 0x11d 1) [0x80] @ answered (read_request 0 3 1) [7] @
     answered (read_request 0 0x413 8) (replicate 8 0) @ [Ev_clock 0], trace = [], blocks = 0\<rparr>)
     \<lparr>tun := coax_tuner\<rparr>"

lemmas s_runs = thenM_def io_simps s_on_def s_see_def s_put_def on_sys_def gettimeofday_def look_at_clock_def

lemma find_slot_free:
  assumes "ends s (use s) = 0" and "script (s_world s) = Ev_clock t # es"
  shows "loopM s_world (find_slot meanwhile n) s = Some (Inr (), s\<lparr>cur_ms := ms_between (t_start s) t,
    s_obj := (s_obj s)\<lparr>sys := (sys (s_obj s))\<lparr>script := es\<rparr>\<rparr>\<rparr>)"
  using assms by (intro loopM_eval(2)) (simp add: find_slot_def s_runs s_world_def)

lemma strong_example_run:
  "\<exists>l s'. strong_channels (\<lambda>_. 695) id [5] strong_example = Some (Inr l, s') \<and> l = [5]"
proof -
  let ?mse = "answered (read_request 0 0x11d 1) [0x80] @ answered (read_request 0 3 1) [7] @
     answered (read_request 0 0x413 8) (replicate 8 0)"
  let ?e = strong_example
  let ?w = "\<lambda>es tr. \<lparr>script = es, trace = tr, blocks = 0\<rparr>"
  let ?init = "\<lparr>s_obj = ?e\<lparr>sys := ?w ([Ev_clock 0] @ tune5_answers @ [Ev_clock 0] @ ?mse @ [Ev_clock 0]) []\<rparr>,
    t_start = 0, ends = (\<lambda>_. 0), endch = (\<lambda>_. 0), strongch = [], use = 0, cur_ms = 0\<rparr>"
  let ?sone = "\<lambda>es tr. ?init\<lparr>s_obj := ?e\<lparr>sys := ?w es tr\<rparr>, cur_ms := 0, ends := (\<lambda>_. 0)(0 := 1000), endch := (\<lambda>_. 0)(0 := 5)\<rparr>"
  have ms: "ms_between 0 0 = 0" by (simp add: ms_between_def)
  have tun: "tun ?e = coax_tuner" by (simp add: strong_example_def)
  have f: "loopM s_world (find_slot id 1) ?init = Some (Inr (), ?init\<lparr>cur_ms := 0,
      s_obj := ?e\<lparr>sys := ?w (tune5_answers @ [Ev_clock 0] @ ?mse @ [Ev_clock 0]) []\<rparr>\<rparr>)"
    using find_slot_free [of ?init 0 "tune5_answers @ [Ev_clock 0] @ ?mse @ [Ev_clock 0]" id 1] ms
    by (simp add: s_world_def)
  let ?rest = "[Ev_clock 0] @ ?mse @ [Ev_clock 0]"
  let ?tn = "coax_tuner\<lparr>net := ?w (tune5_answers @ ?rest) []\<rparr>"
  obtain t1 tr where t1: "set_freq (\<lambda>_. 695) 0 5 20 ?tn = Some (Inr (), t1)" and n1: "net t1 = ?w ?rest tr"
    using set_freq_5 [of ?tn ?rest] by (auto simp: coax_tuner_def)
  let ?x = "\<lambda>es. ?e\<lparr>tun := t1, sys := ?w es (tr @ [Slept 100000])\<rparr>"
  let ?s = "\<lambda>x. ?init\<lparr>s_obj := x, ends := (\<lambda>_. 0)(0 := 1000), endch := (\<lambda>_. 0)(0 := 5)\<rparr>"
  have 1: "try_channels (\<lambda>_. 695) id 1 [5] ?init = Some (Inr (), ?s (?x ?rest))"
    using f t1 n1 tun
    by (simp add: try_channel_def s_runs on_tun_def sleep_ts_def usleep_def upd_def emit_def)
  have bit: "(0x80 :: u8) AND 0x80 \<noteq> 0" "mse_status 7 > 3" by code_simp+
  obtain tra where "(case get_mse 0 (t1\<lparr>net := ?w (?mse @ [Ev_clock 0]) (tr @ [Slept 100000])\<rparr>) of
      None \<Rightarrow> None | Some (r, t') \<Rightarrow> Some (r, net t')) =
      Some (Inr (mse_status 7, 0, 0), ?w [Ev_clock 0] tra)"
    using runsE [OF runs_get_mse [OF _ bit(1), of 0 "replicate 8 0" t1 7], of
      "?w (?mse @ [Ev_clock 0]) (tr @ [Slept 100000])" "[Ev_clock 0]"]
    by (auto simp: u24_def)
  then obtain t2 w2 where t2: "get_mse 0 (t1\<lparr>net := ?w (?mse @ [Ev_clock 0]) (tr @ [Slept 100000])\<rparr>) =
      Some (Inr (mse_status 7, 0, 0), t2)" and n2: "net t2 = w2" and w2: "script w2 = [Ev_clock 0]"
    by (auto split: option.splits)
  have d: "still_running 1 0 (?s (?x ?rest)) = Some (Inr False, (?s (?e\<lparr>tun := t2, sys := w2\<rparr>))
      \<lparr>strongch := [5], ends := (\<lambda>_. 0)(0 := 0)\<rparr>)"
    using t2 n2 bit(2) ms
    by (simp add: still_running_def s_runs bindM_def tryM_def on_tun_def tune_ended_def add_strong_def free_slot_def
        note_store_def)
  have d1: "still_running 1 1 ((?s (?e\<lparr>tun := t2, sys := w2\<rparr>))\<lparr>strongch := [5], ends := (\<lambda>_. 0)(0 := 0)\<rparr>) =
      Some (Inr False, (?s (?e\<lparr>tun := t2, sys := w2\<lparr>script := []\<rparr>\<rparr>))\<lparr>strongch := [5], ends := (\<lambda>_. 0)(0 := 0)\<rparr>)"
    using w2 ms by (simp add: still_running_def s_runs)
  have "loopM s_world (drain id 1) (?s (?x ?rest)) =
      Some (Inr (), (?s (?e\<lparr>tun := t2, sys := w2\<lparr>script := []\<rparr>\<rparr>))\<lparr>strongch := [5], ends := (\<lambda>_. 0)(0 := 0)\<rparr>)"
    by (rule loopM_eval(2))
      (simp only: drain_def bindM_def tryM_def d d1 option.case prod.case sum.case not_False_eq_True simp_thms if_True ret_def)
  note drained = this
  have clock: "on_sys gettimeofday ?e = Some (Inr 0,
      ?e\<lparr>sys := ?w ([Ev_clock 0] @ tune5_answers @ ?rest) []\<rparr>)"
    by (simp add: on_sys_def gettimeofday_def strong_example_def new_mpgts_def)
  have n: "length [5 :: u32] = 1" by simp
  have "strong_channels (\<lambda>_. 695) id [5] strong_example =
      Some (Inr [5], ?e\<lparr>tun := t2, sys := w2\<lparr>script := []\<rparr>\<rparr>)"
    unfolding strong_channels_def n thenM_def bindM_def tryM_def
    by (simp only: clock option.case prod.case sum.case)
      (simp only: 1 drained option.case prod.case sum.case s_see_def, simp)
  then show ?thesis by blast
qed

theorem strong_channels_bounded_witness:
  "\<exists>l s'. strong_channels (\<lambda>_. 695) id [5] strong_example = Some (Inr l, s') \<and> l \<noteq> [] \<and> length l \<le> 1"
proof -
  obtain l s' where run: "strong_channels (\<lambda>_. 695) id [5] strong_example = Some (Inr l, s')" and "l \<noteq> []"
    using strong_example_run by blast
  with strong_channels_bounded [OF run] show ?thesis by auto
qed

end
