(* ===== verification/Sez_Client.thy ===== *)
theory Sez_Client
  imports Sez_Traffic Sez_Probe
begin

text \<open>
  The thread that runs while the command line works, and what both keep: a locale asks a relation of
  \<^verbatim>\<open>mpgts\<close> objects for what single calls and single steps of the thread keep, and gives it for the command line's
  work on a tuner.
\<close>

subsection \<open>What the thread does meanwhile\<close>

text \<open>Any steps of the thread, from any point of its loop.\<close>

inductive thread_run :: "(u32 list \<Rightarrow> bool \<times> string) \<Rightarrow> (nat \<Rightarrow> u8) \<Rightarrow> thr_pc \<Rightarrow> mpgts \<Rightarrow> thr_pc \<Rightarrow> mpgts \<Rightarrow> bool"
  for iconv fresh where
  stay: "thread_run iconv fresh pc s pc s"
| go_on: "thr_step iconv fresh pc s = Some (Inr pc1, s1) \<Longrightarrow> thread_run iconv fresh pc1 s1 pc2 s2 \<Longrightarrow>
    thread_run iconv fresh pc s pc2 s2"

definition thread_does :: "(u32 list \<Rightarrow> bool \<times> string) \<Rightarrow> (nat \<Rightarrow> u8) \<Rightarrow> (mpgts \<Rightarrow> mpgts) \<Rightarrow> bool" where
  "thread_does iconv fresh meanwhile \<longleftrightarrow> (\<forall>s. \<exists>pc pc'. thread_run iconv fresh pc s pc' (meanwhile s))"

lemma thread_does_id: "thread_does iconv fresh id"
  by (auto simp: thread_does_def intro: stay)

subsection \<open>The command line's work\<close>

definition s_lift :: "(mpgts \<Rightarrow> mpgts \<Rightarrow> bool) \<Rightarrow> strong \<Rightarrow> strong \<Rightarrow> bool" where
  "s_lift Q s s' \<longleftrightarrow> Q (s_obj s) (s_obj s')"

locale client = state_order Q for Q :: "mpgts \<Rightarrow> mpgts \<Rightarrow> bool" +
  fixes iconv :: "u32 list \<Rightarrow> bool \<times> string" and fresh :: "nat \<Rightarrow> u8"
  assumes calls: "keeps Q (on_sys gettimeofday)" "keeps Q (on_sys (usleep us))" "keeps Q (on_sys (note_store c n))"
      "keeps Q (on_sys malloc)" "keeps Q (on_sys free_block)" "keeps Q (on_sys realloc)" "keeps Q (on_sys rawgetch)"
    and tuner: "keeps Q (on_tun (get_mse ch))" "keeps Q (on_tun (set_freq beyond ch tv 20))" "keeps Q (on_tun (stop_ts ch))"
      "keeps Q (on_tun (set_antenna beyond a))" "keeps Q (on_tun (scan beyond cb cr))"
    and dumping: "keeps Q (on_atsc i (open_dump name))"
    and starting: "keeps Q (request_ts ch)" "keeps Q (main_step pc)"
    and thread: "keeps Q (thr_step iconv fresh th)"

sublocale client \<subseteq> strongs: state_order "s_lift Q"
  by unfold_locales (auto simp: s_lift_def intro: refl trans)

context client begin

lemma none: "keeps P (\<lambda>_. None :: ((err + 'b) \<times> 's) option)"
  by (simp add: keeps_def)

lemma looking: "keeps Q (see f)"
  by (simp add: keeps_def refl)

lemma meantime:
  assumes "thread_does iconv fresh meanwhile"
  shows "keeps Q (upd meanwhile)"
proof -
  have "Q s s'" if "thread_run iconv fresh pc s pc' s'" for pc pc' s s'
    using that by (induction rule: thread_run.induct) (blast intro: refl trans keepsD [OF thread])+
  with assms show ?thesis unfolding thread_does_def keeps_def by simp blast
qed

lemma start:
  assumes "thread_does iconv fresh meanwhile"
  shows "keeps Q (mpgts_start_ts meanwhile ch)"
proof -
  have go: "keeps Q (bindM (main_step pc) (\<lambda>pc'. thenM (upd meanwhile) (k pc')))"
    if "\<And>pc'. keeps Q (k pc')" for pc and k :: "main_pc \<Rightarrow> unit ts_cmd"
    by (intro bindI thenI meantime assms that starting)
  have "keeps Q (start_rounds meanwhile n pc)" for n pc
  proof (induction n arbitrary: pc)
    case (Suc n)
    show ?case by (cases pc) (auto intro: ret fail go Suc simp del: main_step.simps)
  qed (simp add: none)
  then show ?thesis unfolding mpgts_start_ts_def by (intro bindI thenI meantime assms starting)
qed

lemma sleep: "thread_does iconv fresh meanwhile \<Longrightarrow> keeps Q (sleep_ts meanwhile us)"
  unfolding sleep_ts_def by (auto intro!: keeps_intros meantime calls)

lemma on_strong:
  "keeps Q m \<Longrightarrow> keeps (s_lift Q) (s_on m)" "keeps (s_lift Q) (s_see g)"
  "(\<And>s. s_obj (f s) = s_obj s) \<Longrightarrow> keeps (s_lift Q) (s_put f)"
  by (auto simp: keeps_def s_lift_def s_on_iff refl)

lemma strong:
  assumes "thread_does iconv fresh meanwhile"
  shows "keeps Q (strong_channels beyond meanwhile l)"
proof -
  note steps = strongs.keeps_intros on_strong sleep [OF assms] calls tuner
  have ended: "keeps (s_lift Q) (tune_ended n ch)" for n ch
    unfolding tune_ended_def add_strong_def free_slot_def by (auto intro!: steps split: prod.splits)
  have clock: "keeps (s_lift Q) look_at_clock" unfolding look_at_clock_def by (auto intro!: steps)
  have "keeps (s_lift Q) (find_slot meanwhile n)" for n
    unfolding find_slot_def by (auto intro!: steps ended clock)
  then have "keeps (s_lift Q) (try_channels beyond meanwhile n tvs)" for n tvs
    by (induction tvs) (auto simp: try_channel_def intro!: steps strongs.loopI)
  moreover have "keeps (s_lift Q) (drain meanwhile n)" for n
    unfolding drain_def still_running_def by (auto intro!: steps ended clock)
  ultimately have "keeps (s_lift Q) (thenM (try_channels beyond meanwhile n l)
    (thenM (loopM s_world (drain meanwhile n)) (s_see strongch)))" for n by (auto intro!: steps strongs.loopI)
  from keepsD [OF this] show ?thesis
    unfolding strong_channels_def
    by (intro bindI calls) (force simp: keeps_def s_lift_def split: option.splits)
qed

end

text \<open>Everything \<open>traffic\<close> gives is such a relation.\<close>

sublocale traffic \<subseteq> user: client "sys_lift R" iconv fresh for iconv fresh
proof
  have "keeps R rawgetch" unfolding rawgetch_def by (auto intro!: keeps_intros calls)
  then show "keeps (sys_lift R) (on_sys rawgetch)" by (rule parts)
qed (auto intro: parts calls streaming freq antenna scanning dump requested caller thread)

end
