(* ===== verification/Sez_Ident.thy ===== *)
theory Sez_Ident
  imports Sez_Client
begin

text \<open>
  The channel tables of the strong channels (\<^verbatim>\<open>get_ch_id\<close> of \<^verbatim>\<open>main.cpp\<close>): both tuner channels are tuned to the
  first channels left on the list, given up to 100 rounds to lock and to broadcast a table, and those that
  did are taken from the list. The thread runs \<open>meanwhile\<close>; theorems are about any steps it may take. The
  text of a table is shared with it and read twice when it is taken, once to measure it and once to
  copy it: \<open>race\<close> is what the thread does between the two.
\<close>

subsection \<open>The code\<close>

text \<open>
  The locals of \<^verbatim>\<open>get_ch_id\<close>: \<open>chs\<close> is \<^verbatim>\<open>chlist\<close> up to \<^verbatim>\<open>n_ch\<close>, \<open>vct_all\<close> the text in the buffer of
  \<open>vct_max\<close> bytes, \<open>vct_null\<close> whether the pointer to it is null. \<^verbatim>\<open>scan\<close> is 0 throughout.
\<close>

record ident =
  i_obj :: mpgts
  chs :: "u32 list"
  status :: "u8 \<Rightarrow> u8"
  vct_all :: string
  vct_max :: nat
  vct_null :: bool
  go :: bool

type_synonym 'a ident_cmd = "(ident, 'a) cmd"

definition i_on :: "'a ts_cmd \<Rightarrow> 'a ident_cmd" where
  "i_on m s = (case m (i_obj s) of None \<Rightarrow> None | Some (r, x) \<Rightarrow> Some (r, s\<lparr>i_obj := x\<rparr>))"

definition i_see :: "(ident \<Rightarrow> 'a) \<Rightarrow> 'a ident_cmd" where
  "i_see f s = Some (Inr (f s), s)"

definition i_put :: "(ident \<Rightarrow> ident) \<Rightarrow> unit ident_cmd" where
  "i_put f s = Some (Inr (), f s)"

definition set_status :: "u8 \<Rightarrow> u8 \<Rightarrow> unit ident_cmd" where
  "set_status ch v = i_put (\<lambda>s. s\<lparr>status := (status s)(ch := v)\<rparr>)"

text \<open>The tuner channels in use: as many as there are entries left, two at most.\<close>

definition slots :: "u32 list \<Rightarrow> (u8 \<times> u32) list" where
  "slots l = zip [0, 1] l"

fun tune_slots :: "(nat \<Rightarrow> u32) \<Rightarrow> (u8 \<times> u32) list \<Rightarrow> unit ts_cmd" where
  "tune_slots beyond [] = ret ()"
| "tune_slots beyond ((ch, tv) # l) =
    bindM (see (\<lambda>s. get_freq (tun s) ch)) (\<lambda>f.
    thenM (if f \<noteq> tv then on_tun (set_freq beyond ch tv 20) else ret ()) (tune_slots beyond l))"

text \<open>What a round does with one tuner channel: wait for lock, then for the channel table, then done.\<close>

definition watch :: "(mpgts \<Rightarrow> mpgts) \<Rightarrow> u8 \<Rightarrow> unit ident_cmd" where
  "watch meanwhile ch =
    bindM (i_see (\<lambda>s. status s ch)) (\<lambda>st.
    if st AND 0xf \<noteq> 0xf then
      bindM (i_on (on_tun (get_mse ch))) (\<lambda>(v, ptmse, eqmse). set_status ch v)
    else if st AND 0x40 \<noteq> 0 then thenM (i_on (on_tun (get_mse ch))) (ret ())
    else
      thenM (if st AND 0x20 = 0
             then thenM (i_on (mpgts_start_ts meanwhile ch)) (set_status ch (st OR 0x20)) else ret ())
      (bindM (i_on (see (\<lambda>x. vctstr (atsc x ch)))) (\<lambda>v.
       if v = None then ret ()
       else thenM (i_on (on_tun (stop_ts ch)))
         (bindM (i_see (\<lambda>s. status s ch)) (\<lambda>st. set_status ch (st OR 0x40))))))"

fun watch_all :: "(mpgts \<Rightarrow> mpgts) \<Rightarrow> (u8 \<times> u32) list \<Rightarrow> unit ident_cmd" where
  "watch_all meanwhile [] = ret ()"
| "watch_all meanwhile ((ch, tv) # l) = thenM (watch meanwhile ch) (watch_all meanwhile l)"

definition watch_slots :: "(mpgts \<Rightarrow> mpgts) \<Rightarrow> unit ident_cmd" where
  "watch_slots meanwhile = bindM (i_see chs) (\<lambda>l. watch_all meanwhile (slots l))"

text \<open>Whether all of the tuner's channels, not just those in use, are done.\<close>

definition all_done :: "ident \<Rightarrow> bool" where
  "all_done s \<longleftrightarrow> status s 0 AND 0x40 \<noteq> 0 \<and> status s 1 AND 0x40 \<noteq> 0"

text \<open>The loop over \<^verbatim>\<open>j\<close>; the number is how many rounds are left, 100 at the start.\<close>

fun wait_rounds :: "(mpgts \<Rightarrow> mpgts) \<Rightarrow> nat \<Rightarrow> unit ident_cmd" where
  "wait_rounds meanwhile 0 = ret ()"
| "wait_rounds meanwhile (Suc left) =
    bindM (i_see all_done) (\<lambda>done.
    if done then watch_slots meanwhile
    else
      bindM (if left < 99 then i_on (on_sys rawgetch) else ret 0) (\<lambda>key.
      if key = -1 then fail Sys_Error
      else if key \<noteq> 0 then i_put (\<lambda>s. s\<lparr>go := False\<rparr>)
      else thenM (i_on (sleep_ts meanwhile 160000)) (thenM (watch_slots meanwhile) (wait_rounds meanwhile left))))"

text \<open>\<^verbatim>\<open>strlen\<close>, the growing of the buffer, and \<^verbatim>\<open>strcat\<close>, which stores up to the terminating zero of the
  text as it is by then.\<close>

definition append_vct :: "(mpgts \<Rightarrow> mpgts) \<Rightarrow> u8 \<Rightarrow> unit ident_cmd" where
  "append_vct race ch =
    bindM (i_on (see (\<lambda>x. vctstr (atsc x ch)))) (\<lambda>v.
    case v of
      None \<Rightarrow> (\<lambda>_. None)
    | Some text \<Rightarrow>
        bindM (i_see (\<lambda>s. length (vct_all s) + length text + 1)) (\<lambda>len.
        bindM (i_see vct_max) (\<lambda>m.
        thenM
          (if len > m then
             thenM (i_put (\<lambda>s. s\<lparr>vct_max := m * 2\<rparr>))
             (bindM (i_on (on_sys realloc)) (\<lambda>ok.
              if ok then ret () else thenM (i_put (\<lambda>s. s\<lparr>vct_null := True\<rparr>)) (fail No_Memory)))
           else ret ())
        (thenM (i_on (upd race))
        (bindM (i_on (see (\<lambda>x. vctstr (atsc x ch)))) (\<lambda>v.
        case v of
          None \<Rightarrow> (\<lambda>_. None)
        | Some text \<Rightarrow>
            bindM (i_see (\<lambda>s. (vct_max s, length (vct_all s) + length text + 1))) (\<lambda>(m, len).
            thenM (i_on (on_sys (note_store m len)))
              (i_put (\<lambda>s. s\<lparr>vct_all := vct_all s @ text\<rparr>)))))))))"

text \<open>Take the text of every channel that is done, and the channel from the list; \<open>i\<close> is its place there.\<close>

fun gather :: "(mpgts \<Rightarrow> mpgts) \<Rightarrow> u8 list \<Rightarrow> nat \<Rightarrow> unit ident_cmd" where
  "gather race [] i = ret ()"
| "gather race (ch # rest) i =
    bindM (i_see (\<lambda>s. status s ch)) (\<lambda>st.
    if st AND 0x40 = 0 then gather race rest (i + 1)
    else
      bindM (i_see (\<lambda>s. i \<ge> length (chs s))) (\<lambda>beyond_end.
      if beyond_end then ret ()
      else
        thenM (append_vct race ch)
        (thenM (i_put (\<lambda>s. s\<lparr>chs := take i (chs s) @ drop (i + 1) (chs s)\<rparr>))
          (gather race rest i))))"

definition ident_round :: "(nat \<Rightarrow> u32) \<Rightarrow> (mpgts \<Rightarrow> mpgts) \<Rightarrow> (mpgts \<Rightarrow> mpgts) \<Rightarrow> unit option ident_cmd" where
  "ident_round beyond meanwhile race =
    bindM (i_see (\<lambda>s. go s \<and> chs s \<noteq> [])) (\<lambda>more.
    if \<not> more then ret (Some ())
    else
      bindM (i_see chs) (\<lambda>l.
      thenM (i_on (tune_slots beyond (slots l)))
      (thenM (i_put (\<lambda>s. s\<lparr>status := (\<lambda>_. 0)\<rparr>))
      (thenM (wait_rounds meanwhile 100)
      (thenM (gather race [0, 1] 0) (ret None))))))"

definition i_world :: "ident \<Rightarrow> world" where
  "i_world s = sys (i_obj s)"

definition new_ident :: "u32 list \<Rightarrow> mpgts \<Rightarrow> ident" where
  "new_ident l x = \<lparr>i_obj = x, chs = l, status = (\<lambda>_. 0), vct_all = [], vct_max = 65536, vct_null = False, go = True\<rparr>"

text \<open>The value is the text that is printed. On the way out the buffer is freed, unless the pointer is null.\<close>

definition get_ch_id :: "(nat \<Rightarrow> u32) \<Rightarrow> (mpgts \<Rightarrow> mpgts) \<Rightarrow> (mpgts \<Rightarrow> mpgts) \<Rightarrow> u32 list \<Rightarrow> string ts_cmd" where
  "get_ch_id beyond meanwhile race l =
    bindM (on_sys malloc) (\<lambda>ok.
    if \<not> ok then fail No_Memory
    else
      (\<lambda>x. case tryM (loopM i_world (ident_round beyond meanwhile race)) (\<lambda>r.
              bindM (i_see vct_null) (\<lambda>null.
              thenM (if null then ret () else i_on (on_sys free_block))
              (case r of Inl e \<Rightarrow> fail e | Inr _ \<Rightarrow> i_see vct_all))) (new_ident l x)
            of None \<Rightarrow> None | Some (r, s) \<Rightarrow> Some (r, i_obj s)))"

subsection \<open>What the work keeps\<close>

lemma i_see_iff [simp]: "i_see f s = Some (r, s') \<longleftrightarrow> r = Inr (f s) \<and> s' = s"
  by (auto simp: i_see_def)

lemma i_put_iff [simp]: "i_put f s = Some (r, s') \<longleftrightarrow> r = Inr () \<and> s' = f s"
  by (auto simp: i_put_def)

lemma i_on_iff: "i_on m s = Some (r, s') \<longleftrightarrow> (\<exists>x. m (i_obj s) = Some (r, x) \<and> s' = s\<lparr>i_obj := x\<rparr>)"
  by (auto simp: i_on_def split: option.splits)

definition i_lift :: "(mpgts \<Rightarrow> mpgts \<Rightarrow> bool) \<Rightarrow> ident \<Rightarrow> ident \<Rightarrow> bool" where
  "i_lift Q s s' \<longleftrightarrow> Q (i_obj s) (i_obj s')"

sublocale client \<subseteq> idents: state_order "i_lift Q"
  by unfold_locales (auto simp: i_lift_def intro: refl trans)

context client begin

lemma on_ident:
  "keeps Q m \<Longrightarrow> keeps (i_lift Q) (i_on m)" "keeps (i_lift Q) (i_see g)"
  "(\<And>s. i_obj (f s) = i_obj s) \<Longrightarrow> keeps (i_lift Q) (i_put f)"
  by (auto simp: keeps_def i_lift_def i_on_iff refl)

lemma watching:
  assumes "thread_does iconv fresh meanwhile"
  shows "keeps (i_lift Q) (watch meanwhile ch)" "keeps (i_lift Q) (watch_slots meanwhile)"
    "keeps (i_lift Q) (wait_rounds meanwhile n)"
proof -
  note steps = idents.keeps_intros on_ident sleep [OF assms] start [OF assms] looking calls tuner
  show watch: "keeps (i_lift Q) (watch meanwhile ch)" for ch
    unfolding watch_def set_status_def by (auto intro!: steps split: prod.splits)
  have "keeps (i_lift Q) (watch_all meanwhile l)" for l
  proof (induction l)
    case (Cons p l)
    then show ?case by (cases p) (auto intro!: idents.thenI watch)
  qed (simp add: idents.ret)
  then show slots: "keeps (i_lift Q) (watch_slots meanwhile)"
    unfolding watch_slots_def by (auto intro!: steps)
  show "keeps (i_lift Q) (wait_rounds meanwhile n)"
    by (induction n) (auto intro!: steps slots)
qed

lemma tuning: "keeps Q (tune_slots beyond l)"
  by (induction beyond l rule: tune_slots.induct) (auto intro!: keeps_intros looking tuner)

lemma identified:
  assumes "thread_does iconv fresh meanwhile" and "thread_does iconv fresh race"
  shows "keeps Q (get_ch_id beyond meanwhile race l)"
proof -
  note steps = idents.keeps_intros on_ident looking calls tuning meantime [OF assms(2)]
  have append: "keeps (i_lift Q) (append_vct race ch)" for ch
    unfolding append_vct_def by (auto intro!: steps none split: option.splits prod.splits)
  have gather: "keeps (i_lift Q) (gather race chs i)" for chs i
    by (induction chs arbitrary: i) (auto intro!: steps append)
  have "keeps (i_lift Q) (ident_round beyond meanwhile race)"
    unfolding ident_round_def by (auto intro!: steps watching [OF assms(1)] gather)
  then have "keeps (i_lift Q) (tryM (loopM i_world (ident_round beyond meanwhile race)) (\<lambda>r.
              bindM (i_see vct_null) (\<lambda>null.
              thenM (if null then ret () else i_on (on_sys free_block))
              (case r of Inl e \<Rightarrow> fail e | Inr _ \<Rightarrow> i_see vct_all))))"
    by (auto intro!: steps idents.tryI idents.loopI split: sum.splits)
  from keepsD [OF this] show ?thesis
    unfolding get_ch_id_def
    by (intro bindI calls ifI fail) (force simp: keeps_def i_lift_def new_ident_def split: option.splits)
qed

end

subsection \<open>Descriptors and ports stay\<close>

definition same_sockets :: "mpgts \<Rightarrow> mpgts \<Rightarrow> bool" where
  "same_sockets s s' \<longleftrightarrow> tcp_sock s' = tcp_sock s \<and> udp_sock s' = udp_sock s \<and> tsth s' = tsth s"

interpretation sockets: state_order same_sockets
  by unfold_locales (auto simp: same_sockets_def)

lemma sockets_parts [simp]:
  "keeps same_sockets (on_sys m)" "keeps same_sockets (on_tun t)" "keeps same_sockets (on_atsc i a)"
  "keeps same_sockets (see f)"
  by (auto simp: keeps_def same_sockets_def part_iffs)

lemma sockets_upd:
  "(\<And>s. same_sockets s (f s)) \<Longrightarrow> keeps same_sockets (upd f)"
  by (simp add: keeps_def)

lemma sockets_thr_step: "keeps same_sockets (thr_step iconv fresh pc)"
proof -
  have "keeps same_sockets (receive iconv fresh i)" for i
    unfolding receive_def by (auto intro!: sockets.keeps_intros split: option.splits)
  moreover have "keeps same_sockets (\<lambda>_. None :: ((err + thr_pc) \<times> mpgts) option)" by (simp add: keeps_def)
  moreover have "keeps same_sockets (upd (\<lambda>s. s\<lparr>want_reset := f s\<rparr>))" for f
    by (rule sockets_upd) (simp add: same_sockets_def)
  ultimately show ?thesis by (cases pc) (auto intro!: sockets.keeps_intros)
qed

interpretation ports: client same_sockets iconv fresh for iconv fresh
proof
  show "keeps same_sockets (main_step pc)" for pc
  proof -
    have "keeps same_sockets (upd (\<lambda>s. s\<lparr>atsc := f s\<rparr>))" for f
      by (rule sockets_upd) (simp add: same_sockets_def)
    moreover have "keeps same_sockets (upd (\<lambda>s. s\<lparr>want_reset := f s\<rparr>))" for f
      by (rule sockets_upd) (simp add: same_sockets_def)
    moreover have "keeps same_sockets (\<lambda>_. None :: ((err + main_pc) \<times> mpgts) option)" by (simp add: keeps_def)
    ultimately show ?thesis by (cases pc) (auto intro!: sockets.keeps_intros sockets.tryI)
  qed
  show "keeps same_sockets (request_ts ch)" for ch
    unfolding request_ts_def by (auto intro!: sockets.keeps_intros)
qed (auto intro: sockets_thr_step)

subsection \<open>The buffer of channel tables\<close>

text \<open>The text of a channel table always fits its buffer.\<close>

definition text_fits :: "mpgatsc \<Rightarrow> bool" where
  "text_fits a \<longleftrightarrow> (\<forall>v. vctstr a = Some v \<longrightarrow> length v < 65536)"

definition text_kept :: "mpgatsc \<Rightarrow> mpgatsc \<Rightarrow> bool" where
  "text_kept a a' \<longleftrightarrow> (text_fits a \<longrightarrow> text_fits a')"

interpretation texts: state_order text_kept
  by unfold_locales (simp_all add: text_kept_def)

lemma text_quiet [simp]:
  "keeps text_kept (look g)" "keeps text_kept (need v)" "keeps text_kept (call m)"
  "keeps text_kept (set_pktlen pid n)" "keeps text_kept (store pid i xs)"
  by (auto simp: keeps_def text_kept_def text_fits_def call_def set_pktlen_def store_iff split: option.splits)

lemma text_put:
  assumes "\<And>s. vctstr (f s) = vctstr s \<or> vctstr (f s) = None"
  shows "keeps text_kept (put f)"
proof -
  have "text_fits (f s)" if "text_fits s" for s
    using assms [of s] that by (auto simp: text_fits_def)
  then show ?thesis by (simp add: keeps_def text_kept_def)
qed

lemma text_parse_vct: "keeps text_kept (parse_vct iconv pkt len pos snl)"
  by (auto simp: keeps_def text_kept_def text_fits_def dest!: vct_text_bound)

lemma text_parse_tbl: "keeps text_kept (parse_tbl iconv pkt len pid)"
  unfolding parse_tbl_def parse_pat_def parse_psip_mgt_def parse_psip_vct_def parse_pmt_def pat_apply_def pat_room_def
  by (auto intro!: texts.keeps_intros text_put text_parse_vct split: prod.splits)

lemma text_thread_demux: "keeps text_kept (thread_demux iconv fresh pkt)"
  unfolding thread_demux_def dump_packet_def unit_start_def unit_continue_def start_at_def buf_room_def deliver_def
    close_dump_def Let_def
  by (auto intro!: texts.keeps_intros text_put text_parse_tbl split: option.splits)

lemma text_init: "keeps text_kept atsc_init"
  unfolding atsc_init_def open_iconv_def free_vct_def restart_dump_def close_dump_def
  by (auto intro!: texts.keeps_intros text_put)

lemma text_fits_fields: "text_fits (a\<lparr>env := w\<rparr>) = text_fits a" "text_fits (a\<lparr>tv_ch := c\<rparr>) = text_fits a"
  by (simp_all add: text_fits_def)

lemma text_fits_init: "text_fits a \<Longrightarrow> atsc_init a = Some (r, a') \<Longrightarrow> text_fits a'"
  using keepsD [OF text_init] by (auto simp: text_kept_def)

lemma text_fits_packet:
  "text_fits a \<Longrightarrow> length p = 188 \<Longrightarrow> thread_demux iconv fresh p a = Some (r, a') \<Longrightarrow> text_fits a'"
  using keepsD [OF text_thread_demux] by (auto simp: text_kept_def)

interpretation shown: demultiplexer text_fits iconv fresh for iconv fresh
  by (rule demultiplexer.intro [OF text_fits_fields text_fits_init text_fits_packet])

definition texts_ok :: "mpgts \<Rightarrow> bool" where
  "texts_ok s \<longleftrightarrow> (\<forall>i. text_fits (atsc s i))"

definition texts_kept :: "mpgts \<Rightarrow> mpgts \<Rightarrow> bool" where
  "texts_kept s s' \<longleftrightarrow> (texts_ok s \<longrightarrow> texts_ok s')"

interpretation tk: state_order texts_kept
  by unfold_locales (simp_all add: texts_kept_def)

lemma texts_kept_parts [simp]:
  "keeps texts_kept (on_sys m)" "keeps texts_kept (on_tun t)" "keeps texts_kept (see f)"
  by (auto simp: keeps_def texts_kept_def texts_ok_def part_iffs)

lemma texts_kept_upd: "(\<And>s. texts_kept s (f s)) \<Longrightarrow> keeps texts_kept (upd f)"
  by (simp add: keeps_def)

interpretation tables: client texts_kept iconv fresh for iconv fresh
proof
  have want: "keeps texts_kept (upd (\<lambda>s. s\<lparr>want_reset := f s\<rparr>))" for f
    by (rule texts_kept_upd) (simp add: texts_kept_def texts_ok_def)
  show "keeps texts_kept (request_ts ch)" for ch
    unfolding request_ts_def by (auto intro!: tk.keeps_intros want)
  show "keeps texts_kept (main_step pc)" for pc
  proof -
    have tv: "keeps texts_kept (upd (\<lambda>s. s\<lparr>atsc := (atsc s)(c := (atsc s c)\<lparr>tv_ch := f s\<rparr>)\<rparr>))" for c f
      by (rule texts_kept_upd) (simp add: texts_kept_def texts_ok_def text_fits_fields)
    have none: "keeps texts_kept (\<lambda>_. None :: ((err + main_pc) \<times> mpgts) option)" by (simp add: keeps_def)
    show ?thesis by (cases pc) (auto intro!: tk.keeps_intros tk.tryI want tv none)
  qed
  show "keeps texts_kept (thr_step iconv fresh th)" for iconv fresh th
    using shown.thr_step_both unfolding keeps_def texts_kept_def texts_ok_def shown.both_def by blast
  show "keeps texts_kept (on_atsc i (open_dump name))" for i name
    by (auto simp: keeps_def texts_kept_def texts_ok_def on_atsc_iff open_dump_def call_iffs cmd_iffs text_fits_def
        split: if_splits)
qed auto

definition ident_inv :: "ident \<Rightarrow> bool" where
  "ident_inv s \<longleftrightarrow> texts_ok (i_obj s) \<and> length (vct_all s) < vct_max s \<and> 65536 \<le> vct_max s"

definition ident_kept :: "ident \<Rightarrow> ident \<Rightarrow> bool" where
  "ident_kept s s' \<longleftrightarrow> (ident_inv s \<longrightarrow> ident_inv s')"

interpretation ik: state_order ident_kept
  by unfold_locales (simp_all add: ident_kept_def)

lemma ident_on: "keeps texts_kept m \<Longrightarrow> keeps ident_kept (i_on m)"
  by (auto simp: keeps_def i_on_iff ident_kept_def ident_inv_def texts_kept_def)

lemma ident_put:
  "(\<And>s. i_obj (f s) = i_obj s \<and> vct_all (f s) = vct_all s \<and> vct_max (f s) = vct_max s) \<Longrightarrow> keeps ident_kept (i_put f)"
  by (simp add: keeps_def ident_kept_def ident_inv_def)

lemma ident_see: "keeps ident_kept (i_see f)"
  by (simp add: keeps_def ident_kept_def)

text \<open>The thread may drop a text between the two reads, or replace it by one that is not longer.\<close>

definition no_longer :: "(mpgts \<Rightarrow> mpgts) \<Rightarrow> bool" where
  "no_longer race \<longleftrightarrow> (\<forall>x ch v. vctstr (atsc (race x) ch) = Some v \<longrightarrow>
     (\<exists>u. vctstr (atsc x ch) = Some u \<and> length v \<le> length u))"

lemma ident_append:
  assumes "thread_does iconv fresh race" and "no_longer race"
  shows "keeps ident_kept (append_vct race ch)"
  unfolding keeps_def ident_kept_def
proof (intro allI impI)
  fix s r s' assume run: "append_vct race ch s = Some (r, s')" and i: "ident_inv s"
  have race: "texts_ok (race x)" if "texts_ok x" for x
    using keepsD [OF tables.meantime [OF assms(1)], of x "Inr ()" "race x"] that by (simp add: texts_kept_def)
  have shorter: "length v \<le> length u"
    if "vctstr (atsc (race x) ch) = Some v" "vctstr (atsc x ch) = Some u" for x v u
    using assms(2) that unfolding no_longer_def by fastforce
  from run obtain str where v: "vctstr (atsc (i_obj s) ch) = Some str"
    by (cases "vctstr (atsc (i_obj s) ch)") (auto simp: append_vct_def cmd_iffs i_on_iff)
  then have "length str < 65536" using i by (auto simp: ident_inv_def texts_ok_def text_fits_def)
  with run v i race shorter show "ident_inv s'"
    by (fastforce simp: append_vct_def cmd_iffs i_on_iff on_sys_iff realloc_def note_store_def ident_inv_def texts_ok_def
        split: if_splits option.splits prod.splits)
qed

lemma ident_gather:
  "thread_does iconv fresh race \<Longrightarrow> no_longer race \<Longrightarrow> keeps ident_kept (gather race l i)"
  by (induction l arbitrary: i) (auto intro!: ik.keeps_intros ident_put ident_see ident_append)

lemma ident_wait:
  assumes "thread_does iconv fresh meanwhile"
  shows "keeps ident_kept (wait_rounds meanwhile n)"
proof -
  have watch: "keeps ident_kept (watch meanwhile ch)" for ch
    unfolding watch_def set_status_def
    by (auto intro!: ik.keeps_intros ident_put ident_see ident_on tables.start [OF assms] split: prod.splits)
  have "keeps ident_kept (watch_all meanwhile l)" for l
  proof (induction l)
    case (Cons p l)
    then show ?case by (cases p) (auto intro!: ik.thenI watch)
  qed (simp add: ik.ret)
  then have "keeps ident_kept (watch_slots meanwhile)"
    unfolding watch_slots_def by (auto intro!: ik.keeps_intros ident_see)
  moreover have "keeps ident_kept (i_on (sleep_ts meanwhile us))" for us
    by (rule ident_on [OF tables.sleep [OF assms]])
  moreover have "keeps ident_kept (i_on (on_sys rawgetch))" by (auto intro!: ident_on)
  ultimately show ?thesis
    by (induction n) (auto intro!: ik.keeps_intros ident_see ident_put)
qed

lemma ident_round_kept:
  assumes "thread_does iconv fresh meanwhile" and "thread_does iconv' fresh' race" and "no_longer race"
  shows "keeps ident_kept (ident_round beyond meanwhile race)"
  unfolding ident_round_def
  by (auto intro!: ik.keeps_intros ident_see ident_put ident_on ident_wait [OF assms(1)] ident_gather [OF assms(2,3)] tables.tuning)

text \<open>C16: The text of all channel tables, with its terminator, fits the buffer, which grows at most once per table:
  a table is never longer than what doubling the buffer adds. The thread may receive anything while
  the program waits; between the two reads of a text it may drop it or replace it by one that is not longer.\<close>

theorem vct_buffer_fits:
  assumes "loopM i_world (ident_round beyond meanwhile race) (new_ident l x) = Some (r, s')"
    and "thread_does iconv fresh meanwhile" and "thread_does iconv fresh race" and "no_longer race"
    and "\<forall>i. text_fits (atsc x i)"
  shows "length (vct_all s') + 1 \<le> vct_max s'"
proof -
  have "keeps ident_kept (loopM i_world (ident_round beyond meanwhile race))"
    by (intro ik.loopI ident_round_kept [OF assms(2,3,4)])
  from keepsD [OF this assms(1)] assms(5) show ?thesis
    by (simp add: ident_kept_def ident_inv_def new_ident_def texts_ok_def)
qed

text \<open>A text that is replaced by a longer one between the two reads is stored past the end of the buffer.\<close>

lemma vct_race_overruns:
  assumes "vctstr (atsc (i_obj s) ch) = Some u" and "vctstr (atsc (race (i_obj s)) ch) = Some v"
    and "length (vct_all s) + length u + 1 \<le> vct_max s" and "vct_max s < length (vct_all s) + length v + 1"
  shows "\<exists>s'. append_vct race ch s = Some (Inr (), s') \<and> vct_all s' = vct_all s @ v \<and>
    Overrun (vct_max s) (length (vct_all s) + length v + 1) \<in> set (trace (i_world s'))"
  using assms
  by (simp add: append_vct_def i_see_def i_on_def see_def upd_def thenM_def bindM_def tryM_def ret_def i_put_def on_sys_def
      note_store_def i_world_def)

lemma get_mse_unlocked:
  assumes "script (net t) = answered (read_request 0 0x11d 1) [0] @ es"
  shows "\<exists>tr. get_mse 0 t = Some (Inr (0, 0xfffff, 0xfffff), t\<lparr>net := (net t)\<lparr>script := es, trace := tr\<rparr>\<rparr>)"
proof -
  have "\<not> bad_address 0 0x11d" by (simp add: bad_address_def)
  from get_demod8_eval [OF assms this] show ?thesis
    by (simp add: get_mse_def sock_def bindM_def tryM_def ret_def) blast
qed

text \<open>A run in which a channel table is appended: the tuner locks, the thread takes the request of
  \<^verbatim>\<open>start_ts\<close>, the text is there, and a key ends the wait.\<close>

definition clears :: "mpgts \<Rightarrow> mpgts" where
  "clears s = s\<lparr>want_reset := (want_reset s)(0 := 0)\<rparr>"

lemma thread_does_clears: "thread_does iconv fresh clears"
  unfolding thread_does_def clears_def
  by (intro allI exI, rule go_on [of _ _ "Clearing 0 0" _ "Resetting 0 0"])
    (auto simp: thenM_def bindM_def tryM_def upd_def ret_def intro: stay)

lemma no_longer_id: "no_longer id"
  by (simp add: no_longer_def)

definition vct_example :: string where
  "vct_example = ''5.1 KQED''"

text \<open>The list, the state of the first channel and the received text in the course of it.\<close>

definition at_work :: "u8 \<Rightarrow> ident \<Rightarrow> bool" where
  "at_work v s \<longleftrightarrow> chs s = [5] \<and> status s = (\<lambda>_. 0)(0 := v) \<and> vct_all s = [] \<and> vct_max s = 65536 \<and> go s \<and>
     vctstr (atsc (i_obj s) 0) = Some vct_example \<and> get_freq (tun (i_obj s)) 0 = 5 \<and> myip (tun (i_obj s)) = 0 \<and> want_reset (i_obj s) 0 = 0"

definition lock_answers :: "os_event list" where
  "lock_answers = answered (read_request 0 0x11d 1) [0x80] @ answered (read_request 0 3 1) [7] @
     answered (read_request 0 0x413 8) (replicate 8 0)"

definition stream_answers :: "os_event list" where
  "stream_answers = answered [0x0f, 0xf2, 3, 0, 0, 0, 0, 0, 0, 0] []"

lemma get_freq_net: "get_freq (t\<lparr>net := w\<rparr>) ch = get_freq t ch"
  by (simp add: get_freq_def)

lemma work_nap:
  assumes "at_work v s" and "script (i_world s) = es"
  shows "finishes i_world (i_on (sleep_ts clears 160000)) s () (at_work v) es"
  using assms
  by (auto simp: finishes_def i_on_iff sleep_ts_def thenM_Inr_iff on_sys_iff usleep_def at_work_def i_world_def clears_def)

lemma work_key:
  assumes "at_work v s" and "script (i_world s) = Ev_ok True # Ev_ok True # Ev_num k # Ev_ok True # es'"
    and "if k = -1 then es' = Ev_num 0 # es \<and> key = 0 else es' = es \<and> key = k"
  shows "finishes i_world (i_on (on_sys rawgetch)) s key (at_work v) es"
  using assms
  by (auto simp: finishes_def i_on_iff on_sys_iff rawgetch_def ask_ok_def ask_num_def bindM_def tryM_def ret_def at_work_def
      i_world_def split: if_splits)

lemma work_lock:
  assumes "at_work 0 s" and "script (i_world s) = lock_answers @ es"
  shows "finishes i_world (watch_slots clears) s () (at_work 31) es"
proof -
  let ?x = "i_obj s"
  let ?t = "(tun ?x)\<lparr>net := sys ?x\<rparr>"
  have bit: "(0x80 :: u8) AND 0x80 \<noteq> 0" "mse_status 7 = 31" by code_simp+
  have "script (net ?t) = lock_answers @ es" using assms(2) by (simp add: i_world_def)
  then have "script (net ?t) = (answered (read_request 0 0x11d 1) [0x80] @ answered (read_request 0 3 1) [7] @
    answered (read_request 0 0x413 8) (replicate 8 0)) @ es" by (simp add: lock_answers_def)
  then obtain tr where "(\<lambda>w. case get_mse 0 (?t\<lparr>net := w\<rparr>) of None \<Rightarrow> None | Some (r, t') \<Rightarrow> Some (r, net t')) (net ?t) =
    Some (Inr (mse_status 7, u24 0 0 0, u24 0 0 0), (net ?t)\<lparr>script := es, trace := tr\<rparr>)"
    using runsE [OF runs_get_mse [OF _ bit(1), of 0 "replicate 8 0" ?t 7], of "net ?t" es] by auto
  then obtain t where t: "get_mse 0 ?t = Some (Inr (31, u24 0 0 0, u24 0 0 0), t)" and n: "script (net t) = es" by (auto simp: bit split: option.splits)
  from t obtain w where w: "t = ?t\<lparr>net := w\<rparr>" by (auto simp: get_mse_def sock_Some_iff)
  show ?thesis
    using assms(1) t n w
    by (auto simp: finishes_def watch_slots_def slots_def watch_def set_status_def thenM_def bindM_def tryM_def i_see_def
        i_put_def i_on_def on_tun_def ret_def at_work_def i_world_def get_freq_net fun_upd_idem)
qed


lemma work_start:
  assumes "at_work 31 s" and "script (i_world s) = stream_answers @ es"
  shows "finishes sys (mpgts_start_ts clears 0) (i_obj s) () (\<lambda>x. at_work 31 (s\<lparr>i_obj := x\<rparr>)) es"
proof -
  let ?Q = "\<lambda>x. at_work 31 (s\<lparr>i_obj := x\<rparr>)"
  let ?P = "\<lambda>x. ?Q (clears x)"
  have upd: "finishes sys (upd clears) x () ?Q us" if "?P x" "script (sys x) = us" for x us
    using that by (simp add: finishes_def clears_def at_work_def)
  have go: "finishes sys (start_rounds clears (Suc n) pc) x () ?Q us'"
    if "\<And>b. pc \<noteq> Returned b" "?Q x" "finishes sys (main_step pc) x pc' ?P us"
      "\<And>y. ?Q y \<Longrightarrow> script (sys y) = us \<Longrightarrow> finishes sys (start_rounds clears n pc') y () ?Q us'" for n pc pc' x us us'
  proof -
    have "finishes sys (bindM (main_step pc) (\<lambda>pc'. thenM (upd clears) (start_rounds clears n pc'))) x () ?Q us'"
      by (rule finishes_bind [OF that(3)], rule finishes_then [OF upd]) (use that(4) in auto)
    with that(1) show ?thesis by (cases pc) (auto simp del: main_step.simps)
  qed
  have tuned: "finishes sys (main_step (Tuning 0)) x (Returned False) ?P es"
    if "?Q x" "script (sys x) = stream_answers @ es" for x
  proof -
    have "ntohl 0 = 0" by code_simp
    moreover have "bus_request [0x0f, 0xf2, 3, 0, 0, 0, 0, 0, a, b] (sys x) = Some (Inr (), (sys x)\<lparr>script := es,
      trace := trace (sys x) @ [Sent (frame 0x0c [0x0f, 0xf2, 3, 0, 0, 0, 0, 0, a, b])]\<rparr>)" for a b
      by (rule bus_request_eval) (use that(2) in \<open>simp add: stream_answers_def answered_def frame_def\<close>)
    ultimately show ?thesis using that(1)
      by (auto simp: finishes_def thenM_def bindM_def tryM_def upd_def see_def on_tun_def start_ts_def sock_def ret_def
          at_work_def get_freq_net clears_def)
  qed
  have 2: "finishes sys (start_rounds clears (Suc (Suc n)) (Tuning 0)) x () ?Q es"
    if "?Q x" "script (sys x) = stream_answers @ es" for x n
    by (rule go [OF _ that(1) tuned [OF that]]) (auto intro: finishes_ret)
  have 3: "finishes sys (start_rounds clears (Suc (Suc (Suc n))) (Waiting 0 0)) x () ?Q es"
    if "?Q x" "script (sys x) = stream_answers @ es" for x n
    by (rule go [OF _ that(1) finishesI 2])
      (use that in \<open>auto simp: bindM_def tryM_def see_def ret_def at_work_def clears_def\<close>)
  have 4: "finishes sys (start_rounds clears 7 (Requesting 0 0)) x () ?Q es"
    if "?Q x" "script (sys x) = stream_answers @ es" for x
  proof -
    have n: "(7 :: nat) = Suc (Suc (Suc (Suc 3)))" by simp
    show ?thesis unfolding n
      by (rule go [OF _ that(1) finishesI [where s' = "x\<lparr>want_reset := (want_reset x)(0 := 1)\<rparr>"] 3])
        (use that in \<open>auto simp: thenM_def bindM_def tryM_def upd_def ret_def at_work_def clears_def int_max_def\<close>)
  qed
  have 1: "finishes sys (request_ts 0) (i_obj s) (Requesting 0 0) ?Q (stream_answers @ es)"
    using assms by (simp add: finishes_def request_ts_def bindM_def tryM_def see_def ret_def at_work_def i_world_def)
  show ?thesis
    unfolding mpgts_start_ts_def
    by (rule finishes_bind [OF 1], rule finishes_then [OF upd 4]) (auto simp: at_work_def clears_def)
qed

lemma work_stream:
  assumes "at_work 31 s" and "script (i_world s) = stream_answers @ stream_answers @ es"
  shows "finishes i_world (watch_slots clears) s () (at_work 127) es"
proof -
  from work_start [OF assms] obtain x where x: "mpgts_start_ts clears 0 (i_obj s) = Some (Inr (), x)"
    and w: "at_work 31 (s\<lparr>i_obj := x\<rparr>)" and u: "script (sys x) = stream_answers @ es" by (auto simp: finishes_def)
  have "script (net ((tun x)\<lparr>net := sys x\<rparr>)) = answered [0x0f, 0xf2, 3, 0, 0, 0, 0, 0, 0, 0] [] @ es"
    using u by (simp add: stream_answers_def)
  from bus_request_eval [OF this] obtain n where st: "stop_ts 0 ((tun x)\<lparr>net := sys x\<rparr>) = Some (Inr (), (tun x)\<lparr>net := n\<rparr>)"
    and n: "script n = es" by (simp add: stop_ts_def sock_def)
  have b: "(31 :: u8) AND 15 = 15" "(31 :: u8) AND 64 = 0" "(31 :: u8) AND 32 = 0" "(31 :: u8) OR 32 = 63" "(63 :: u8) OR 64 = 127"
    by code_simp+
  show ?thesis
    using assms(1) w x st n
    by (auto simp: finishes_def watch_slots_def slots_def watch_def set_status_def thenM_def bindM_def tryM_def i_see_def
        i_put_def i_on_def on_tun_def see_def ret_def at_work_def i_world_def get_freq_net fun_upd_idem b)
qed

definition ident_answers :: "os_event list" where
  "ident_answers = lock_answers @ [Ev_ok True, Ev_ok True, Ev_num (-1), Ev_ok True, Ev_num 0] @
     stream_answers @ stream_answers @ [Ev_ok True, Ev_ok True, Ev_num 113, Ev_ok True]"

lemma work_wait:
  assumes "at_work 0 s" and "script (i_world s) = ident_answers"
  shows "finishes i_world (wait_rounds clears 100) s () (\<lambda>s'. at_work 127 (s'\<lparr>go := True\<rparr>) \<and> \<not> go s') []"
proof -
  have n: "(98 :: nat) = Suc 97" "(99 :: nat) = Suc 98" "(100 :: nat) = Suc 99" by simp_all
  let ?three = "[Ev_ok True, Ev_ok True, Ev_num 113, Ev_ok True]"
  let ?two = "[Ev_ok True, Ev_ok True, Ev_num (-1), Ev_ok True, Ev_num 0] @ stream_answers @ stream_answers @ ?three"
  have seen: "finishes i_world (i_see all_done) t False (at_work v) (script (i_world t))" if "at_work v t" for v t
    using that by (simp add: finishes_def all_done_def at_work_def)
  have c: "finishes i_world (wait_rounds clears 98) t () (\<lambda>s'. at_work 127 (s'\<lparr>go := True\<rparr>) \<and> \<not> go s') []"
    if "at_work 127 t" "script (i_world t) = ?three" for t
    unfolding n(1) wait_rounds.simps(2)
    by (rule finishes_bind [OF seen [OF that(1)]], simp, rule finishes_bind [OF work_key [where key = 113]])
      (use that in \<open>auto simp: finishes_def i_put_def at_work_def i_world_def\<close>)
  have b: "finishes i_world (wait_rounds clears 99) t () (\<lambda>s'. at_work 127 (s'\<lparr>go := True\<rparr>) \<and> \<not> go s') []"
    if "at_work 31 t" "script (i_world t) = ?two" for t
    unfolding n(2) wait_rounds.simps(2)
    by (rule finishes_bind [OF seen [OF that(1)]], simp del: wait_rounds.simps, rule finishes_bind [OF work_key [where key = 0]])
      (use that in \<open>auto simp del: wait_rounds.simps intro!: finishes_then [OF work_nap] finishes_then [OF work_stream] c\<close>)
  have "finishes i_world (wait_rounds clears 100) s () (\<lambda>s'. at_work 127 (s'\<lparr>go := True\<rparr>) \<and> \<not> go s') []"
    unfolding n(3) wait_rounds.simps(2)
    by (rule finishes_bind [OF seen [OF assms(1)]], simp del: wait_rounds.simps, rule finishes_bind [OF finishes_ret])
      (use assms in \<open>auto simp: ident_answers_def simp del: wait_rounds.simps
        intro!: finishes_then [OF work_nap] finishes_then [OF work_lock] b\<close>)
  then show ?thesis .
qed

definition ident_example :: mpgts where
  "ident_example = (new_mpgts 0 \<lparr>script = ident_answers, trace = [], blocks = 0\<rparr>)
     \<lparr>tun := coax_tuner\<lparr>myip := 0, ch_state := (\<lambda>_. \<lparr>ch_i = external, ch_tvch = 5\<rparr>)\<rparr>,
      atsc := (\<lambda>_. (new_mpgatsc \<lparr>script = [], trace = [], blocks = 0\<rparr>)\<lparr>vctstr := Some vct_example\<rparr>)\<rparr>"

lemma ident_example_run:
  "\<exists>s'. loopM i_world (ident_round (\<lambda>_. 695) clears id) (new_ident [5] ident_example) = Some (Inr (), s') \<and>
     vct_all s' = vct_example \<and> chs s' = [] \<and> vct_max s' = 65536"
proof -
  let ?i = "new_ident [5] ident_example"
  have at: "at_work 0 ?i" by (simp add: at_work_def new_ident_def ident_example_def get_freq_def new_mpgts_def fun_upd_idem)
  have u: "script (i_world ?i) = ident_answers"
    by (simp add: i_world_def new_ident_def ident_example_def new_mpgts_def)
  have tune: "i_on (tune_slots (\<lambda>_. 695) (slots [5])) ?i = Some (Inr (), ?i)"
    using at by (simp add: slots_def i_on_def thenM_def bindM_def tryM_def see_def ret_def at_work_def)
  have z: "?i\<lparr>status := (\<lambda>_. 0)\<rparr> = ?i" by (simp add: new_ident_def)
  from work_wait [OF at u] obtain t where t: "wait_rounds clears 100 ?i = Some (Inr (), t)" "at_work 127 (t\<lparr>go := True\<rparr>)"
    "\<not> go t" "script (i_world t) = []" by (auto simp: finishes_def)
  have b: "(127 :: u8) AND 64 \<noteq> 0" by code_simp
  have g: "gather id [0, 1] 0 t = Some (Inr (), t\<lparr>vct_all := vct_example, chs := []\<rparr>)"
    using t(2) b by (simp add: at_work_def append_vct_def i_see_def i_on_def i_put_def see_def upd_def thenM_def bindM_def
        tryM_def ret_def on_sys_def note_store_def vct_example_def)
  let ?f = "t\<lparr>vct_all := vct_example, chs := []\<rparr>"
  have more: "go ?i \<and> chs ?i \<noteq> []" "chs ?i = [5]" by (simp_all add: new_ident_def)
  have 1: "ident_round (\<lambda>_. 695) clears id ?i = Some (Inr None, ?f)"
    unfolding ident_round_def thenM_def bindM_def tryM_def i_see_def i_put_def
    by (simp add: more tune z t(1) g ret_def del: gather.simps wait_rounds.simps)
  have 2: "ident_round (\<lambda>_. 695) clears id ?f = Some (Inr (Some ()), ?f)"
    by (simp add: ident_round_def bindM_def tryM_def i_see_def ret_def)
  have "length (script (i_world ?f)) < length (script (i_world ?i))"
    using t(4) u by (simp add: i_world_def ident_answers_def)
  then have "loopM i_world (ident_round (\<lambda>_. 695) clears id) ?i = Some (Inr (), ?f)"
    by (subst loopM.simps) (simp add: 1 loopM.simps [of _ _ ?f] 2)
  then show ?thesis using t(2) by (simp add: at_work_def)
qed

theorem vct_buffer_fits_witness:
  "\<exists>s'. loopM i_world (ident_round (\<lambda>_. 695) clears id) (new_ident [5] ident_example) = Some (Inr (), s') \<and>
     vct_all s' = ''5.1 KQED'' \<and> length (vct_all s') + 1 \<le> 65536"
proof -
  obtain s' where run: "loopM i_world (ident_round (\<lambda>_. 695) clears id) (new_ident [5] ident_example) = Some (Inr (), s')"
    and m: "vct_all s' = vct_example" "vct_max s' = 65536" using ident_example_run by blast
  have "\<forall>i. text_fits (atsc ident_example i)" by (simp add: ident_example_def text_fits_def vct_example_def)
  from vct_buffer_fits [OF run thread_does_clears thread_does_id no_longer_id this] run m show ?thesis
    by (auto simp: vct_example_def)
qed

subsection \<open>A single channel\<close>

text \<open>How often the wait of 160 ms was made.\<close>

definition naps :: "world \<Rightarrow> nat" where
  "naps w = length (filter (\<lambda>a. a = Slept 160000) (trace w))"

lemma naps_mono: "extends w w' \<Longrightarrow> naps w \<le> naps w'"
  by (auto simp: naps_def extends_def)

text \<open>What watching the first channel leaves alone.\<close>

definition second_kept :: "ident \<Rightarrow> ident \<Rightarrow> bool" where
  "second_kept s s' \<longleftrightarrow> chs s' = chs s \<and> status s' 1 = status s 1 \<and> go s' = go s \<and> extends (i_world s) (i_world s')"

interpretation sk: state_order second_kept
  by unfold_locales (auto simp: second_kept_def intro: extends_refl extends_trans)

lemma second_on: "keeps (sys_lift extends) m \<Longrightarrow> keeps second_kept (i_on m)"
  by (auto simp: keeps_def i_on_iff second_kept_def i_world_def sys_lift_def)

lemma second_quiet: "keeps second_kept (i_see f)" "keeps second_kept (set_status 0 v)"
  by (auto simp: keeps_def second_kept_def set_status_def i_world_def extends_refl)

lemma second_watch:
  assumes "thread_does iconv fresh meanwhile"
  shows "keeps second_kept (watch meanwhile 0)"
  unfolding watch_def
  by (auto intro!: sk.keeps_intros second_on second_quiet growth.user.tuner growth.user.looking growth.user.start [OF assms]
      split: prod.splits)

lemma single_round:
  assumes "chs s = [tv]" and "thread_does iconv fresh meanwhile" and "watch_slots meanwhile s = Some (r, s')"
  shows "second_kept s s'"
proof -
  have "keeps second_kept (watch_all meanwhile (slots [tv]))"
    by (auto simp: slots_def intro!: sk.keeps_intros second_watch [OF assms(2)])
  moreover have "watch_all meanwhile (slots [tv]) s = Some (r, s')"
    using assms(1,3) by (auto simp: watch_slots_def cmd_iffs)
  ultimately show ?thesis by (rule keepsD)
qed

lemma single_waits:
  assumes m: "thread_does iconv fresh meanwhile"
  shows "wait_rounds meanwhile n s = Some (Inr (), s') \<Longrightarrow> chs s = [tv] \<Longrightarrow> status s 1 AND 0x40 = 0 \<Longrightarrow>
    go s' \<Longrightarrow> naps (i_world s) + n \<le> naps (i_world s')"
proof (induction n arbitrary: s)
  case (Suc n)
  have nd: "\<not> all_done s" using Suc.prems(3) by (simp add: all_done_def)
  from Suc.prems(1) nd obtain key s1 where
    key: "(if n < 99 then i_on (on_sys rawgetch) else ret 0) s = Some (Inr key, s1)"
    and k: "(if key = -1 then fail Sys_Error
      else if key \<noteq> 0 then i_put (\<lambda>s. s\<lparr>go := False\<rparr>)
      else thenM (i_on (sleep_ts meanwhile 160000)) (thenM (watch_slots meanwhile) (wait_rounds meanwhile n))) s1 = Some (Inr (), s')"
    by (auto simp: bindM_Inr_iff)
  have sk1: "second_kept s s1" using key
    by (auto simp: sk.refl split: if_splits dest: keepsD [OF second_on [OF growth.user.calls(7)]])
  from k Suc.prems(4) obtain s2 s3 where s2: "i_on (sleep_ts meanwhile 160000) s1 = Some (Inr (), s2)"
    and s3: "watch_slots meanwhile s2 = Some (Inr (), s3)" and rest: "wait_rounds meanwhile n s3 = Some (Inr (), s')"
    by (auto simp: thenM_Inr_iff split: if_splits)
  from s2 have "s2 = s1\<lparr>i_obj := meanwhile ((i_obj s1)\<lparr>sys := emit (Slept 160000) (sys (i_obj s1))\<rparr>)\<rparr>"
    by (auto simp: sleep_ts_def i_on_iff thenM_Inr_iff on_sys_iff usleep_def)
  moreover have "sys_lift extends x (meanwhile x)" for x
    using growth.user.meantime [OF m] by (auto dest: keepsD)
  from this [of "(i_obj s1)\<lparr>sys := emit (Slept 160000) (sys (i_obj s1))\<rparr>"]
  have "extends (emit (Slept 160000) (i_world s1)) (sys (meanwhile ((i_obj s1)\<lparr>sys := emit (Slept 160000) (sys (i_obj s1))\<rparr>)))"
    by (simp add: sys_lift_def i_world_def)
  ultimately have 2: "chs s2 = chs s1" "status s2 = status s1" "extends (emit (Slept 160000) (i_world s1)) (i_world s2)"
    by (simp_all add: i_world_def)
  have c: "chs s2 = [tv]" using 2(1) sk1 Suc.prems(2) by (simp add: second_kept_def)
  have sk3: "second_kept s2 s3" using single_round [OF c m s3] .
  have "naps (i_world s) \<le> naps (i_world s1)" using sk1 naps_mono by (simp add: second_kept_def)
  moreover have "naps (i_world s1) + 1 \<le> naps (i_world s2)"
    using naps_mono [OF 2(3)] by (simp add: naps_def)
  moreover have "naps (i_world s2) \<le> naps (i_world s3)" using sk3 naps_mono by (simp add: second_kept_def)
  moreover have "naps (i_world s3) + n \<le> naps (i_world s')"
    by (rule Suc.IH [OF rest]) (use sk1 sk3 c 2 Suc.prems in \<open>simp_all add: second_kept_def\<close>)
  ultimately show ?case by simp
qed simp

text \<open>C35: With one channel left, the wait is never ended early: the second tuner channel, which is not in use, is
  never done. Unless a key is pressed all 100 rounds of 160 ms are waited for, also when the channel
  table has long been received.\<close>

theorem single_channel_waits:
  assumes "wait_rounds meanwhile 100 s = Some (Inr (), s')" and "thread_does iconv fresh meanwhile"
    and "chs s = [tv]" and "status s = (\<lambda>_. 0)" and "go s'"
  shows "naps (i_world s) + 100 \<le> naps (i_world s')"
  by (rule single_waits [OF assms(2,1,3)]) (use assms(4,5) in simp_all)

text \<open>A run in which the tuner never locks and no key is pressed.\<close>

fun idle_rounds :: "nat \<Rightarrow> os_event list" where
  "idle_rounds 0 = []"
| "idle_rounds (Suc n) = (if n < 99 then [Ev_ok True, Ev_ok True, Ev_num (-1), Ev_ok True, Ev_num 0] else []) @
    answered (read_request 0 0x11d 1) [0] @ idle_rounds n"

lemma idle_wait:
  assumes "script (i_world s) = idle_rounds n @ es" and "chs s = [5]" and "status s = (\<lambda>_. 0)" and "go s"
  shows "\<exists>s'. wait_rounds id n s = Some (Inr (), s') \<and> go s'"
  using assms
proof (induction n arbitrary: s)
  case (Suc n)
  let ?read = "answered (read_request 0 0x11d 1) [0] @ idle_rounds n @ es"
  have nd: "all_done s = False" using Suc.prems(3) by (simp add: all_done_def)
  obtain x1 where key: "(if n < 99 then i_on (on_sys rawgetch) else ret 0) s = Some (Inr 0, s\<lparr>i_obj := x1\<rparr>)"
    and x1: "script (sys x1) = ?read"
  proof (cases "n < 99")
    case True
    with Suc.prems(1) show thesis
      by (intro that [of "(i_obj s)\<lparr>sys := (sys (i_obj s))\<lparr>script := ?read\<rparr>\<rparr>"])
        (simp_all add: i_on_def on_sys_def rawgetch_def ask_ok_def ask_num_def bindM_def tryM_def ret_def i_world_def)
  next
    case False
    with Suc.prems(1) show thesis by (intro that [of "i_obj s"]) (simp_all add: ret_def i_world_def)
  qed
  define x2 where "x2 = x1\<lparr>sys := emit (Slept 160000) (sys x1)\<rparr>"
  have sleep: "i_on (sleep_ts id 160000) (s\<lparr>i_obj := x1\<rparr>) = Some (Inr (), s\<lparr>i_obj := x2\<rparr>)"
    by (simp add: i_on_def sleep_ts_def thenM_def bindM_def tryM_def on_sys_def usleep_def upd_def x2_def)
  have "script (net ((tun x2)\<lparr>net := sys x2\<rparr>)) = ?read" by (simp add: x2_def x1)
  from get_mse_unlocked [OF this] obtain t2 where t2: "get_mse 0 ((tun x2)\<lparr>net := sys x2\<rparr>) = Some (Inr (0, 0xfffff, 0xfffff), t2)"
    "script (net t2) = idle_rounds n @ es" by auto
  let ?s3 = "s\<lparr>i_obj := x2\<lparr>tun := t2, sys := net t2\<rparr>\<rparr>"
  have watch: "watch_slots id (s\<lparr>i_obj := x2\<rparr>) = Some (Inr (), ?s3)"
    using t2 Suc.prems(2,3)
    by (simp add: watch_slots_def slots_def watch_def set_status_def thenM_def bindM_def tryM_def
        i_see_def i_put_def i_on_def on_tun_def ret_def fun_upd_idem)
  have "\<exists>s'. wait_rounds id n ?s3 = Some (Inr (), s') \<and> go s'"
    by (rule Suc.IH) (use t2 Suc.prems in \<open>simp_all add: i_world_def\<close>)
  moreover have "wait_rounds id (Suc n) s = wait_rounds id n ?s3"
    unfolding wait_rounds.simps(2) thenM_def bindM_def tryM_def i_see_def
    by (simp only: nd option.case prod.case sum.case if_False if_True refl)
      (use key in \<open>simp add: sleep watch split: if_splits\<close>)
  ultimately show ?case by (simp only:)
qed (auto simp: ret_def)

definition idle_example :: ident where
  "idle_example = new_ident [5] (new_mpgts 0 \<lparr>script = idle_rounds 100, trace = [], blocks = 0\<rparr>)"

theorem single_channel_waits_witness:
  "\<exists>s'. wait_rounds id 100 idle_example = Some (Inr (), s') \<and> 100 \<le> naps (i_world s')"
proof -
  have "\<exists>s'. wait_rounds id 100 idle_example = Some (Inr (), s') \<and> go s'"
    by (rule idle_wait [where es = "[]"]) (simp_all add: idle_example_def new_ident_def new_mpgts_def i_world_def)
  then obtain s' where run: "wait_rounds id 100 idle_example = Some (Inr (), s')" and g: "go s'" by blast
  have "chs idle_example = [5]" "status idle_example = (\<lambda>_. 0)" by (simp_all add: idle_example_def new_ident_def)
  from single_channel_waits [OF run thread_does_id this g] run show ?thesis by auto
qed

end
