(* ===== verification/Sez_Silent.thy ===== *)
theory Sez_Silent
  imports Sez_Ident
begin

text \<open>
  A run in which everything works: the answers of a tuner on a cable with no signal, from \<^verbatim>\<open>open\<close> over the scan
  to \<^verbatim>\<open>close\<close>, and that each part of the program returns when it is given them. Nothing of the program is
  defined here. What holds of every run that succeeds is thereby shown to hold of one, for \<^verbatim>\<open>do_item\<close> and for
  \<^verbatim>\<open>main\<close>.
\<close>

subsection \<open>The scan of a tuner that receives nothing\<close>

text \<open>A response to a GPIO write: what is written does not matter.\<close>

definition gpio_answer :: "os_event list" where
  "gpio_answer = answered [0x0f, 0xf2, 4, 0, 0] []"

lemma answered_length: "length req = length req' \<Longrightarrow> answered req b = answered req' b"
  by (simp add: answered_def)

definition inputs_valid :: "tuner \<Rightarrow> bool" where
  "inputs_valid t \<longleftrightarrow> ch_i (ch_state t 0) \<noteq> TUNER_AMP_INPUT_MAX \<and> ch_i (ch_state t 1) \<noteq> TUNER_AMP_INPUT_MAX"

definition amp_to :: "tuner \<Rightarrow> u8 \<Rightarrow> tuner_amp_input \<Rightarrow> tuner \<Rightarrow> bool" where
  "amp_to t ch s t' \<longleftrightarrow> active_ant t' = active_ant t \<and>
     (\<forall>c. ch_i (ch_state t' c) = (if c = ch then s else ch_i (ch_state t c)))"

lemma amp_finishes:
  assumes "ch < 2" and "s \<noteq> TUNER_AMP_INPUT_MAX" and "inputs_valid t"
    and "script (net t) = (if ch_i (ch_state t ch) = s then [] else gpio_answer) @ es"
  shows "finishes net (set_amp ch s) t () (amp_to t ch s) es"
proof (cases "ch_i (ch_state t ch) = s")
  case True
  with assms(1,4) show ?thesis
    by (intro finishesI [of _ _ _ t]) (auto simp: set_amp_def amp_to_def ret_def not_le)
next
  case False
  let ?u = "(\<lambda>i. ch_i (ch_state t i))(ch := s)"
  have "?u 0 \<noteq> TUNER_AMP_INPUT_MAX" "?u 1 \<noteq> TUNER_AMP_INPUT_MAX" using assms(2,3) by (simp_all add: inputs_valid_def)
  from amp_lines_defined [OF this] obtain b where b: "amp_lines 0 (?u 0) (?u 1) = Some b" ..
  then obtain v where v: "amp_lines (cur_gpio t) (?u 0) (?u 1) = Some v"
    unfolding amp_lines_split [of "cur_gpio t"] by auto
  then have h: "v AND NOT 0xffff = 0" by (rule amp_lines_Some)
  have "script (net t) = answered [0x0f, 0xf2, 4, ucast (drop_bit 8 v), ucast v] [] @ es"
    using assms(4) False by (simp add: gpio_answer_def answered_length)
  from set_gpio_eval [OF this h] obtain w where g: "set_gpio v (net t) = Some (Inr (), w)" and w: "script w = es" by auto
  let ?t = "t\<lparr>cur_gpio := v, net := w, ch_state := (ch_state t)(ch := (ch_state t ch)\<lparr>ch_i := s\<rparr>)\<rparr>"
  have "set_amp ch s t = Some (Inr (), ?t)"
    using assms(1) False v g by (simp add: set_amp_def Let_def thenM_def io_simps sock_def not_le) 
  then show ?thesis by (rule finishesI) (use w in \<open>auto simp: amp_to_def\<close>)
qed

definition pll_answer :: "os_event list" where
  "pll_answer = answered [0, 0, 0, 0, 0, 0, 0] []"

definition reset_answer :: "os_event list" where
  "reset_answer = reset_answers 0 1"

lemma reset_answer: "reset_answers ch 1 = reset_answer"
proof -
  have "answered (read_request ch a n) b = answered (read_request 0 a n) b" for a n b
    by (rule answered_length) (simp add: read_request_def)
  moreover have "answered (write_request ch a v) b = answered (write_request 0 a v) b" for a v b
    by (rule answered_length) (simp add: write_request_def)
  ultimately show ?thesis by (simp only: reset_answer_def reset_answers_def)
qed

lemma freq_finishes:
  assumes "k < 50" and "ch < 2" and "active_ant t = coax" and "inputs_valid t"
    and "script (net t) = (if ch_i (ch_state t ch) = external then [] else gpio_answer) @ pll_answer @
      (if ms = 0 then [] else reset_answer) @ es"
  shows "finishes net (set_freq (\<lambda>_. 695) ch (tvch_of k) ms) t () (amp_to t ch external) es"
proof -
  let ?f = "ch_freq_at (\<lambda>_. 695) (k + 2)"
  let ?rest = "(if ms = 0 then [] else reset_answer) @ es"
  from tv_bands [OF assms(1)] obtain bs tai where b: "band_of ?f = Some (bs, tai)" by blast
  have u: "unat (tvch_of k) = k + 2" "unat (tvch_of k - 2) = k"
    using unat_tvch_of [OF assms(1)] tvch_of_range [OF assms(1)] by (simp_all add: unat_sub)
  have nz: "ch_freq_at (\<lambda>_. 695) k \<noteq> 0"
    using assms(1) ch_freq_nonzero [OF assms(1)] by (simp add: ch_freq_at_def)
  have r: "\<not> (2 \<le> ch \<or> ((tvch_of k < 2 \<or> 51 < tvch_of k) \<and> tvch_of k \<noteq> -1))" "tvch_of k \<noteq> -1"
    using tvch_of_range [OF assms(1)] assms(2) by auto
  have amp: "finishes net (set_amp ch external) t () (amp_to t ch external) (pll_answer @ ?rest)"
    by (rule amp_finishes [OF assms(2) _ assms(4)]) (use assms(5) in simp_all)
  let ?k = "bindM (sock (write_then_read (unframed (pll_request ch ?f bs)) 8)) (\<lambda>rx.
              if length rx \<noteq> 4
              then tryM (set_amp ch off) (\<lambda>_. fail Write_Fault)
              else
                thenM (sock free_block)
                (thenM (if ms \<noteq> 0 then sock (reset_demod ch ms) else ret ())
                (modify (\<lambda>t. t\<lparr>ch_state := (ch_state t)(ch := (ch_state t ch)\<lparr>ch_tvch := tvch_of k\<rparr>)\<rparr>))))"
  have pll: "finishes net ?k t1 () (amp_to t ch external) es"
    if t1: "amp_to t ch external t1" and "script (net t1) = pll_answer @ ?rest" for t1
  proof -
    have "script (net t1) = answered (pll_request ch ?f bs) [] @ ?rest"
      using that(2) by (simp add: pll_answer_def pll_request_def answered_length)
    from write_then_read_eval [OF this, of 8] obtain w where
      w: "write_then_read (unframed (pll_request ch ?f bs)) 8 (net t1) = Some (Inr (frame_head 0x0d []), w)" "script w = ?rest"
      by auto
    let ?t2 = "t1\<lparr>net := w\<lparr>blocks := blocks w - 1\<rparr>\<rparr>"
    obtain w2 where w2: "(if ms \<noteq> 0 then sock (reset_demod ch ms) else ret ()) ?t2 = Some (Inr (), ?t2\<lparr>net := w2\<rparr>)" "script w2 = es"
    proof (cases "ms = 0")
      case True
      with w(2) show thesis by (intro that [of "net ?t2"]) (simp_all add: ret_def)
    next
      case False
      have "ch \<le> 2" using assms(2) by simp
      from runsE [OF runs_reset_demod [OF this, of ms 1], of "net ?t2" es] w(2) False
      obtain tr where "reset_demod ch ms (net ?t2) = Some (Inr (), (net ?t2)\<lparr>script := es, trace := trace (net ?t2) @ tr\<rparr>)"
        by (auto simp: reset_answer)
      with False show thesis
        by (intro that [of "(net ?t2)\<lparr>script := es, trace := trace (net ?t2) @ tr\<rparr>"]) (simp_all add: sock_def)
    qed
    show ?thesis
      by (rule finishesI [where s' = "(?t2\<lparr>net := w2\<rparr>)\<lparr>ch_state := (ch_state t1)(ch := (ch_state t1 ch)\<lparr>ch_tvch := tvch_of k\<rparr>)\<rparr>"])
        (use w w2 t1 in \<open>simp_all add: io_simps thenM_def sock_def free_block_def amp_to_def\<close>)
  qed
  have "set_freq (\<lambda>_. 695) ch (tvch_of k) ms t = thenM (set_amp ch external) ?k t"
    using r nz b assms(3) by (simp add: set_freq_def u Let_def)
  with finishes_then [OF amp pll] show ?thesis by (simp add: finishes_def)
qed

definition no_lock :: "os_event list" where
  "no_lock = answered (read_request 0 0x11d 1) [0]"

definition air_script :: "bool \<Rightarrow> u32 \<Rightarrow> nat \<Rightarrow> os_event list" where
  "air_script first ms k = (if k < 50 then (if first then gpio_answer else []) @ pll_answer @
     (if ms = 0 then [] else reset_answer) else [])"

definition step_script :: "bool \<Rightarrow> u32 \<Rightarrow> nat \<Rightarrow> os_event list" where
  "step_script first ms i = air_script first ms i @ air_script first ms (i + 2) @
     (if i < 50 then no_lock else []) @ (if i + 2 < 50 then no_lock else [])"

text \<open>Both inputs before the first tuning are off, later on the coaxial socket.\<close>

definition aired :: "bool \<Rightarrow> tuner \<Rightarrow> bool" where
  "aired first t \<longleftrightarrow> active_ant t = coax \<and> (\<forall>c < 2. ch_i (ch_state t c) = (if first then off else external))"

lemma aired_net: "aired first (t\<lparr>net := w\<rparr>) = aired first t"
  by (simp add: aired_def)

lemma tune_finishes:
  assumes "j < 2" and "active_ant t = coax" and "inputs_valid t"
    and "ch_i (ch_state t (of_nat j)) = (if first then off else external)" and "ms = (if cr \<le> 20 then cr else 0)"
    and "script (net t) = air_script first ms (i + j * 2) @ es"
  shows "finishes net (scan_tune (\<lambda>_. 695) cr i j) t () (\<lambda>t'. if i + j * 2 < 50 then amp_to t (of_nat j) external t' else t' = t) es"
proof (cases "i + j * 2 < 50")
  case False
  with assms(6) show ?thesis
    by (intro finishesI [of _ _ _ t]) (simp_all add: scan_tune_def air_script_def ret_def)
next
  case True
  from assms(1) have "j = 0 \<or> j = 1" by auto
  then have ch: "(of_nat j :: u8) < 2" by auto
  have "finishes net (set_freq (\<lambda>_. 695) (of_nat j) (tvch_of (i + j * 2)) ms) t () (amp_to t (of_nat j) external) es"
    by (rule freq_finishes [OF True ch assms(2,3)]) (use assms(4,6) True in \<open>simp add: air_script_def\<close>)
  moreover have tv: "of_nat (i + j * 2) + 2 = tvch_of (i + j * 2)" by (simp add: tvch_of_def)
  have "scan_tune (\<lambda>_. 695) cr i j t = set_freq (\<lambda>_. 695) (of_nat j) (tvch_of (i + j * 2)) ms t"
    using True ch_freq_nonzero [OF True] unfolding scan_tune_def tv assms(5) by simp
  ultimately show ?thesis using True by (simp add: finishes_def)
qed

lemma check_finishes:
  assumes "j < 2" and "script (net t) = (if i + j * 2 < 50 then no_lock else []) @ es"
  shows "finishes net (scan_check i j acc) t acc (\<lambda>t'. \<exists>w. t' = t\<lparr>net := w\<rparr>) es"
proof (cases "i + j * 2 < 50")
  case False
  with assms show ?thesis
    by (intro finishesI [of _ _ _ t]) (simp_all add: scan_check_def ret_def exI [of _ "net t"])
next
  case True
  from assms(1) have "j = 0 \<or> j = 1" by auto
  then have ok: "\<not> bad_address (of_nat j) 0x11d" by (auto simp: bad_address_def)
  have "script (net t) = answered (read_request (of_nat j) 0x11d 1) [0] @ es"
    using assms(2) True by (simp add: no_lock_def read_request_def answered_length)
  from get_demod8_eval [OF this ok] obtain w where "get_demod8 (of_nat j) 0x11d (net t) = Some (Inr 0, w)" "script w = es"
    by auto
  with True show ?thesis
    by (intro finishesI [of _ _ _ "t\<lparr>net := w\<rparr>"]) (auto simp: scan_check_def io_simps sock_def)
qed

lemma step_finishes:
  assumes "aired first t" and "i < 50" and "first \<longrightarrow> i + 2 < 50" and ms: "ms = (if cr \<le> 20 then cr else 0)"
    and "script (net t) = step_script first ms i @ es"
  shows "finishes net (scan_step (\<lambda>_. 695) cb True cr i acc) t acc (aired False) es"
proof -
  let ?c = "(if i + 2 < 50 then no_lock else []) @ es"
  have v: "inputs_valid t" "active_ant t = coax" "ch_i (ch_state t 0) = (if first then off else external)"
    "ch_i (ch_state t 1) = (if first then off else external)" using assms(1) by (simp_all add: aired_def inputs_valid_def)
  have cb: "finishes net (call_cb cb (of_nat i + 1) True acc) t () (\<lambda>t'. \<exists>w. t' = t\<lparr>net := w\<rparr>)
    (air_script first ms i @ air_script first ms (i + 2) @ no_lock @ ?c)"
    using assms(2,5)
    by (cases cb) (auto simp: finishes_def call_cb_def step_script_def ret_def sock_def split: prod.split intro: exI [of _ "net t"])
  have t0: "finishes net (scan_tune (\<lambda>_. 695) cr i 0) t1 () (\<lambda>t'. amp_to t1 0 external t')
      (air_script first ms (i + 2) @ no_lock @ ?c)"
    if "\<exists>w. t1 = t\<lparr>net := w\<rparr>" "script (net t1) = air_script first ms i @ air_script first ms (i + 2) @ no_lock @ ?c" for t1
    using tune_finishes [of 0 t1 first ms cr i] that v assms(2) ms by (auto simp: inputs_valid_def)
  have t1: "finishes net (scan_tune (\<lambda>_. 695) cr i 1) t2 () (aired False) (no_lock @ ?c)"
    if "\<exists>w. t1 = t\<lparr>net := w\<rparr>" "amp_to t1 0 external t2" "script (net t2) = air_script first ms (i + 2) @ no_lock @ ?c" for t1 t2
  proof (rule finishes_post [OF tune_finishes [of 1 t2 first ms cr i, unfolded mult_1_left of_nat_1]])
    show "aired False t'" if "if i + 2 < 50 then amp_to t2 1 external t' else t' = t2" for t'
      using that \<open>amp_to t1 0 external t2\<close> \<open>\<exists>w. t1 = _\<close> v assms(3)
      by (auto simp: aired_def amp_to_def split: if_splits dest!: two_channels)
  qed (use that v ms in \<open>auto simp: amp_to_def inputs_valid_def\<close>)
  have sl: "finishes net (if cr > 20 then sock (usleep n) else ret ()) t3 () (aired False) (no_lock @ ?c)"
    if "aired False t3" "script (net t3) = no_lock @ ?c" for t3 n
    using that by (auto simp: finishes_def sock_def usleep_def ret_def aired_def)
  have c0: "finishes net (scan_check i 0 acc) t4 acc (aired False) ?c"
    if "aired False t4" "script (net t4) = no_lock @ ?c" for t4
    by (rule finishes_post [OF check_finishes [of 0]]) (use that assms(2) aired_net in auto)
  have c1: "finishes net (scan_check i 1 acc) t5 acc (aired False) es"
    if "aired False t5" "script (net t5) = ?c" for t5
    by (rule finishes_post [OF check_finishes [of 1]]) (use that aired_net in auto)
  show ?thesis unfolding scan_step_def
    by (rule finishes_then [OF cb], rule finishes_then [OF t0], assumption, assumption, rule finishes_then [OF t1],
        assumption, assumption, assumption, rule finishes_then [OF sl], assumption, assumption,
        rule finishes_bind [OF c0], assumption, assumption, rule c1)
qed

lemma pass_finishes:
  assumes "ms = (if cr \<le> 20 then cr else 0)"
  shows "aired False t \<Longrightarrow> \<forall>i \<in> set is. i < 50 \<Longrightarrow> script (net t) = concat (map (step_script False ms) is) @ es \<Longrightarrow>
    finishes net (scan_pass (\<lambda>_. 695) cb True cr is acc) t acc (aired False) es"
proof (induction "is" arbitrary: t)
  case (Cons i "is")
  have s: "script (net t) = step_script False ms i @ concat (map (step_script False ms) is) @ es"
    using Cons.prems(3) by simp
  have "finishes net (scan_step (\<lambda>_. 695) cb True cr i acc) t acc (aired False) (concat (map (step_script False ms) is) @ es)"
    by (rule step_finishes [OF Cons.prems(1) _ _ assms s]) (use Cons.prems(2) in simp_all)
  then show ?case unfolding scan_pass.simps
    by (rule finishes_bind) (rule Cons.IH, use Cons.prems(2) in auto)
qed (auto intro: finishes_ret)

definition old_fm :: "os_event list" where
  "old_fm = answered (read_request 0 0x12a 1) [0] @ answered (write_request 0 0x12a [0]) []"

definition sweep_script :: "bool \<Rightarrow> u32 \<Rightarrow> os_event list" where
  "sweep_script first ms = Ev_malloc True # old_fm @ old_fm @ step_script first ms 0 @
     concat (map (step_script False ms) (tl (schedule 0))) @
     answered (write_request 0 0x12a [0]) [] @ answered (write_request 0 0x12a [0]) []"

lemma fm_finishes:
  assumes "j < 2" and "script (net t) = old_fm @ es"
  shows "finishes net (or_free (quiet_fm j)) t 0 (\<lambda>t'. \<exists>w. t' = t\<lparr>net := w\<rparr>) es"
proof -
  have "answered (read_request 0 a n) b = answered (read_request j a n) b" for a n b
    by (rule answered_length) (simp add: read_request_def)
  moreover have "answered (write_request 0 a v) b = answered (write_request j a v) b" for a v b
    by (rule answered_length) (simp add: write_request_def)
  ultimately have "script (net t) = answered (read_request j 0x12a 1) [0] @
    answered (write_request j 0x12a [0 AND NOT 0x20]) [] @ es" using assms(2) by (simp add: old_fm_def)
  from quiet_fm_run [OF assms(1) this] show ?thesis
    unfolding finishes_def or_free_Inr by auto
qed

lemma scan_finishes:
  assumes "aired first t" and "script (net t) = sweep_script first ms @ es" and "ms = (if cr \<le> 20 then cr else 0)"
  shows "finishes net (scan (\<lambda>_. 695) cb cr) t [] (aired False) es"
proof -
  let ?r = "answered (write_request 0 0x12a [0]) [] @ answered (write_request 0 0x12a [0]) [] @ es"
  let ?p = "step_script first ms 0 @ concat (map (step_script False ms) (tl (schedule 0))) @ ?r"
  have m: "finishes net (sock malloc) t True (aired first) (old_fm @ old_fm @ ?p)"
    using assms(1,2) by (simp add: finishes_def sock_def malloc_def sweep_script_def aired_net)
  have cb0: "finishes net (call_cb cb 0 True []) t1 () (aired first) (old_fm @ old_fm @ ?p)"
    if "aired first t1" "script (net t1) = old_fm @ old_fm @ ?p" for t1
    using that by (cases cb) (auto simp: finishes_def call_cb_def ret_def sock_def aired_net split: prod.split)
  have fm: "finishes net (or_free (quiet_fm j)) t1 0 (aired first) es1"
    if "j < 2" "aired first t1" "script (net t1) = old_fm @ es1" for j t1 es1
    by (rule finishes_post [OF fm_finishes]) (use that aired_net in auto)
  have s0: "schedule 0 = 0 # tl (schedule 0)" "\<forall>i \<in> set (tl (schedule 0)). i < 50" by (simp_all add: schedule_0)
  have pass: "finishes net (scan_pass (\<lambda>_. 695) cb True cr (schedule 0) []) t1 [] (aired False) ?r"
    if "aired first t1" "script (net t1) = ?p" for t1
    by (subst s0(1), unfold scan_pass.simps, rule finishes_bind [OF step_finishes [OF that(1) _ _ assms(3) that(2)]])
      (use pass_finishes [OF assms(3) _ s0(2)] in auto)
  have rounds: "finishes net (scan_rounds 3 (\<lambda>_. 695) cb True cr 0 0 []) t1 [] (aired False) ?r"
    if "aired first t1" "script (net t1) = ?p" for t1
  proof -
    from pass [OF that] obtain t2 where t2: "scan_pass (\<lambda>_. 695) cb True cr (schedule 0) [] t1 = Some (Inr [], t2)"
      "aired False t2" "script (net t2) = ?r" by (auto simp: finishes_def)
    then have "scan_rounds 3 (\<lambda>_. 695) cb True cr 0 0 [] t1 = Some (Inr [], t2)"
      using or_restore_Inr [of 0 0 "scan_pass (\<lambda>_. 695) cb True cr (schedule 0) []"]
      by (simp add: numeral_3_eq_3 io_simps)
    with t2 show ?thesis by (auto simp: finishes_def)
  qed
  have restore: "finishes net (or_free (sock (thenM (set_demod8 0 0x12a 0) (set_demod8 1 0x12a 0)))) t1 () (aired False) es"
    if "aired False t1" "script (net t1) = ?r" for t1
  proof -
    have ok: "\<not> bad_address 0 0x12a" "\<not> bad_address 1 0x12a" by (simp_all add: bad_address_def)
    have "answered (write_request 0 0x12a [0]) [] = answered (write_request 1 0x12a [0]) []"
      by (rule answered_length) (simp add: write_request_def)
    with that(2) have "script (net t1) = (answered (write_request 0 0x12a [0]) [] @ answered (write_request 1 0x12a [0]) []) @ es"
      by simp
    from runsE [OF runs_then [OF runs_set_demod8 [OF ok(1), of 0] runs_set_demod8 [OF ok(2), of 0]] this]
    obtain tr where "thenM (set_demod8 0 0x12a 0) (set_demod8 1 0x12a 0) (net t1) =
      Some (Inr (), (net t1)\<lparr>script := es, trace := trace (net t1) @ tr\<rparr>)" .
    then show ?thesis unfolding finishes_def or_free_Inr using that(1) by (auto simp: aired_net)
  qed
  have l1: "finishes net (thenM (or_free (sock (thenM (set_demod8 0 0x12a 0) (set_demod8 1 0x12a 0)))) (ret (qsort_found [])))
      t1 [] (aired False) es" if "aired False t1" "script (net t1) = ?r" for t1
    by (rule finishes_then [OF restore [OF that]]) (auto simp: finishes_def qsort_found_def ret_def)
  have l2: "finishes net (bindM (scan_rounds 3 (\<lambda>_. 695) cb True cr 0 0 []) (\<lambda>acc.
      thenM (or_free (sock (thenM (set_demod8 0 0x12a 0) (set_demod8 1 0x12a 0)))) (ret (qsort_found acc)))) t1 [] (aired False) es"
    if "aired first t1" "script (net t1) = ?p" for t1
    by (rule finishes_bind [OF rounds [OF that]]) (rule l1)
  have l3: "finishes net (bindM (or_free (quiet_fm 1)) (\<lambda>old1. bindM (scan_rounds 3 (\<lambda>_. 695) cb True cr 0 old1 []) (\<lambda>acc.
      thenM (or_free (sock (thenM (set_demod8 0 0x12a 0) (set_demod8 1 0x12a old1)))) (ret (qsort_found acc))))) t1 []
      (aired False) es" if "aired first t1" "script (net t1) = old_fm @ ?p" for t1
    by (rule finishes_bind [OF fm [OF _ that]]) (simp, rule l2)
  have l4: "finishes net (bindM (or_free (quiet_fm 0)) (\<lambda>old0. bindM (or_free (quiet_fm 1)) (\<lambda>old1.
      bindM (scan_rounds 3 (\<lambda>_. 695) cb True cr old0 old1 []) (\<lambda>acc.
      thenM (or_free (sock (thenM (set_demod8 0 0x12a old0) (set_demod8 1 0x12a old1)))) (ret (qsort_found acc)))))) t1 []
      (aired False) es" if "aired first t1" "script (net t1) = old_fm @ old_fm @ ?p" for t1
    by (rule finishes_bind [OF fm [OF _ that]]) (simp, rule l3)
  have "finishes net (scan_from (\<lambda>_. 695) cb True cr) t [] (aired False) es"
    unfolding scan_from_def
  proof (rule finishes_bind [OF m], simp only: not_True_eq_False if_False)
    fix t1 assume "aired first t1" "script (net t1) = old_fm @ old_fm @ ?p"
    from finishes_then [OF cb0 [OF this] l4] show "finishes net (thenM (call_cb cb 0 True [])
      (bindM (or_free (quiet_fm 0)) (\<lambda>old0. bindM (or_free (quiet_fm 1)) (\<lambda>old1.
      bindM (scan_rounds 3 (\<lambda>_. 695) cb True cr old0 old1 []) (\<lambda>acc.
      thenM (or_free (sock (thenM (set_demod8 0 0x12a old0) (set_demod8 1 0x12a old1)))) (ret (qsort_found acc))))))) t1 []
      (aired False) es" .
  qed
  moreover have "active_ant t = coax" using assms(1) by (simp add: aired_def)
  ultimately show ?thesis by (simp add: scan_def finishes_def)
qed

subsection \<open>open\<close>

lemma init_atsc_fresh:
  assumes "script (sys s) = Ev_ok True # es" and "atsc s i = new_mpgatsc w"
  shows "\<exists>a. init_atsc i s = Some (Inr (), s\<lparr>atsc := (atsc s)(i := a), sys := (sys s)\<lparr>script := es\<rparr>\<rparr>)"
  using assms
  by (intro exI [of _ "(new_mpgatsc ((sys s)\<lparr>script := es\<rparr>))\<lparr>iconv_hnd := 1\<rparr>"])
    (simp add: init_atsc_def on_atsc_def atsc_init_def open_iconv_def free_vct_def restart_dump_def thenM_def bindM_def
      tryM_def look_def put_def call_def ask_ok_def ret_def check_def new_mpgatsc_def)

definition open_answers :: "os_event list" where
  "open_answers = [Ev_socket 3, Ev_connect True] @ init_answers @ [Ev_ok True, Ev_ok True, Ev_socket 4, Ev_ok True,
     Ev_num 5000, Ev_socket 5, Ev_ok True, Ev_num 5001, Ev_ok True]"

lemma open_run:
  assumes "script w = open_answers @ es"
  shows "\<exists>s1. mpgts_open (new_mpgts my w) = Some (Inr (), s1) \<and> script (sys s1) = es \<and> active_ant (tun s1) = nc \<and>
    ch_i (ch_state (tun s1) 0) = off \<and> ch_i (ch_state (tun s1) 1) = off"
proof -
  let ?rest = "[Ev_ok True, Ev_ok True, Ev_socket 4, Ev_ok True, Ev_num 5000, Ev_socket 5, Ev_ok True, Ev_num 5001,
      Ev_ok True] @ es"
  let ?s = "new_mpgts my w"
  obtain sa where a: "open_tun ?s = Some (Inr (), sa)" and ta: "(tun sa)\<lparr>net := sys sa\<rparr> = new_tuner my (sys sa)"
    and ua: "script (sys sa) = init_answers @ ?rest" and at: "atsc sa = (\<lambda>_. new_mpgatsc w)"
    using assms by (simp add: open_tun_def open_answers_def new_mpgts_def on_sys_def socket_open_def ask_socket_def
        thenM_def bindM_def tryM_def ret_def upd_def new_tuner_def)
  obtain tb where tb: "tuner_init ((tun sa)\<lparr>net := sys sa\<rparr>) = Some (Inr (), tb)" and ub: "script (net tb) = ?rest"
    using init_run [of my ?rest "trace (sys sa)" "blocks (sys sa)"] ua unfolding ta by (cases "sys sa") auto
  have nc: "active_ant tb = nc" "ch_i (ch_state tb 0) = off" "ch_i (ch_state tb 1) = off"
    using tuner_init_ok [OF tb] unfolding ta by (simp_all add: new_tuner_def)
  let ?sc = "sa\<lparr>tun := tb, sys := net tb\<rparr>"
  obtain a0 where d: "init_atsc 0 ?sc = Some (Inr (), ?sc\<lparr>atsc := (atsc ?sc)(0 := a0), sys := (sys ?sc)\<lparr>script := tl ?rest\<rparr>\<rparr>)"
    using init_atsc_fresh [of ?sc "tl ?rest" 0] ub at by auto
  let ?sd = "?sc\<lparr>atsc := (atsc ?sc)(0 := a0), sys := (sys ?sc)\<lparr>script := tl ?rest\<rparr>\<rparr>"
  obtain a1 where e: "init_atsc 1 ?sd = Some (Inr (), ?sd\<lparr>atsc := (atsc ?sd)(1 := a1), sys := (sys ?sd)\<lparr>script := tl (tl ?rest)\<rparr>\<rparr>)"
    using init_atsc_fresh [of ?sd "tl (tl ?rest)" 1] at by auto
  let ?se = "?sd\<lparr>atsc := (atsc ?sd)(1 := a1), sys := (sys ?sd)\<lparr>script := tl (tl ?rest)\<rparr>\<rparr>"
  have "\<exists>s1. thenM (open_udp 0) (thenM (open_udp 1) start_thread) ?se = Some (Inr (), s1) \<and> script (sys s1) = es \<and> tun s1 = tb"
    by (simp add: open_udp_def start_thread_def thenM_def on_sys_def ask_socket_def ask_ok_def ask_num_def bindM_def tryM_def
        ret_def upd_def check_def)
  with nc show ?thesis
    by (simp only: mpgts_open_def thenM_def bindM_def tryM_def a on_tun_def tb d e option.case prod.case sum.case) blast
qed

subsection \<open>Channels and tables of an empty list, and close\<close>

lemma finishes_on_tun:
  assumes "finishes net m ((tun s)\<lparr>net := sys s\<rparr>) x P es"
  shows "finishes sys (on_tun m) s x (\<lambda>s'. P (tun s') \<and> tsth s' = tsth s) es"
  using assms by (auto simp: finishes_def on_tun_iff)

lemma finishes_on_sys:
  assumes "finishes id m (sys s) x P es"
  shows "finishes sys (on_sys m) s x (\<lambda>s'. tun s' = tun s \<and> tsth s' = tsth s) es"
  using assms by (auto simp: finishes_def on_sys_iff)

text \<open>The tuner between the steps of \<^verbatim>\<open>do_item\<close>.\<close>

definition on_air :: "bool \<Rightarrow> mpgts \<Rightarrow> bool" where
  "on_air first s \<longleftrightarrow> aired first (tun s) \<and> tsth s"

lemma item_scan:
  assumes "on_air first s" and "script (sys s) = sweep_script first ms @ es" and "ms = (if cr \<le> 20 then cr else 0)"
  shows "finishes sys (on_tun (scan (\<lambda>_. 695) cb cr)) s [] (on_air False) es"
proof -
  have "finishes net (scan (\<lambda>_. 695) cb cr) ((tun s)\<lparr>net := sys s\<rparr>) [] (aired False) es"
    by (rule scan_finishes [OF _ _ assms(3)]) (use assms(1,2) in \<open>simp_all add: on_air_def aired_net\<close>)
  from finishes_on_tun [OF this] assms(1) show ?thesis by (auto simp: finishes_def on_air_def)
qed

lemma item_free:
  assumes "on_air False s" and "script (sys s) = es"
  shows "finishes sys (on_sys free_block) s () (on_air False) es"
  using assms by (auto simp: finishes_def on_sys_iff free_block_def on_air_def)

lemma item_strong:
  assumes "on_air False s" and "script (sys s) = [Ev_clock t, Ev_clock t, Ev_clock t] @ es"
  shows "finishes sys (strong_channels (\<lambda>_. 695) id []) s [] (on_air False) es"
proof -
  have c: "on_sys gettimeofday s1 = Some (Inr t, s1\<lparr>sys := (sys s1)\<lparr>script := es1\<rparr>\<rparr>)"
    if "script (sys s1) = Ev_clock t # es1" for s1 es1
    using that by (simp add: on_sys_def gettimeofday_def)
  let ?s = "s\<lparr>sys := (sys s)\<lparr>script := es\<rparr>\<rparr>"
  have "strong_channels (\<lambda>_. 695) id [] s = Some (Inr [], ?s)" using assms(2)
    by (simp add: strong_channels_def drain_def still_running_def look_at_clock_def bindM_def thenM_def tryM_def ret_def
        c s_on_def s_see_def s_put_def loopM.simps [of s_world])
  then show ?thesis by (rule finishesI) (use assms(1) in \<open>simp_all add: on_air_def\<close>)
qed

lemma item_ident:
  assumes "on_air False s" and "script (sys s) = Ev_malloc True # es"
  shows "finishes sys (get_ch_id (\<lambda>_. 695) id id []) s [] (on_air False) es"
  using assms
  by (intro finishesI [where s' = "s\<lparr>sys := (sys s)\<lparr>script := es\<rparr>\<rparr>"])
    (simp_all add: get_ch_id_def on_sys_def malloc_def bindM_def tryM_def thenM_def ret_def i_see_def i_on_def ident_round_def
      new_ident_def loopM.simps [of i_world] free_block_def on_air_def)

lemma item_close:
  assumes "on_air False s" and "script (sys s) = gpio_answer @ gpio_answer @ [Ev_ok True, Ev_ok True] @ es"
  shows "finishes sys (mpgts_close (\<lambda>_. 695)) s () (\<lambda>_. True) es"
proof -
  let ?t = "(tun s)\<lparr>net := sys s\<rparr>"
  let ?e = "[Ev_ok True, Ev_ok True] @ es"
  have amp: "finishes net (set_amp ch off) t () (amp_to t ch off) es1"
    if "ch < 2" "ch_i (ch_state t ch) = external" "inputs_valid t" "script (net t) = gpio_answer @ es1" for ch t es1
    by (rule amp_finishes [OF that(1) _ that(3)]) (use that in simp_all)
  have a: "finishes net (apply_antenna (\<lambda>_. 695) nc ch) t () (amp_to t ch off) es1"
    if "ch < 2" "ch_i (ch_state t ch) = external" "inputs_valid t" "script (net t) = gpio_answer @ es1" for ch t es1
    using amp [OF that] that(2) by (simp add: apply_antenna_def finishes_def io_simps)
  let ?t1 = "?t\<lparr>active_ant := nc\<rparr>"
  have v: "ch_i (ch_state ?t1 0) = external" "ch_i (ch_state ?t1 1) = external" "inputs_valid ?t1"
    using assms(1) by (simp_all add: on_air_def aired_def inputs_valid_def)
  have "finishes net (thenM (apply_antenna (\<lambda>_. 695) nc 0) (apply_antenna (\<lambda>_. 695) nc 1)) ?t1 () (\<lambda>_. True) ?e"
    by (rule finishes_then [OF a [OF _ v(1,3)]], simp, use assms(2) in simp, rule finishes_post [OF a])
      (use v in \<open>auto simp: amp_to_def inputs_valid_def\<close>)
  moreover have "set_antenna (\<lambda>_. 695) nc ?t = thenM (apply_antenna (\<lambda>_. 695) nc 0) (apply_antenna (\<lambda>_. 695) nc 1) ?t1"
    by (simp add: set_antenna_def thenM_def [of "modify f" for f] bindM_def tryM_def modify_def)
  ultimately have "finishes net (set_antenna (\<lambda>_. 695) nc) ?t () (\<lambda>_. True) ?e" by (simp add: finishes_def)
  then have "finishes net (tuner_close (\<lambda>_. 695) (tcp_sock s)) ?t (-1) (\<lambda>_. True) ?e"
    unfolding tuner_close_def by (rule finishes_try) (simp add: finishes_def socket_close_def sock_def)
  from finishes_on_tun [OF this] assms(1) show ?thesis
    by (auto simp: finishes_def mpgts_close_def on_air_def stop_thread_def close_udp_def bindM_def thenM_def tryM_def see_def
        upd_def ret_def on_sys_def ask_ok_def act_def)
qed

end
