(* ===== verification/Sez_Main.thy ===== *)
theory Sez_Main
  imports Sez_Silent
begin

text \<open>
  \<^verbatim>\<open>main\<close>: the arguments, discovery, and \<^verbatim>\<open>do_item\<close> or \<^verbatim>\<open>do_record\<close> on the tuners found. An error stands for
  the return value 1.
\<close>

subsection \<open>Arguments\<close>

text \<open>An argument is its bytes without the terminating zero. \<^verbatim>\<open>sscanf("%u")\<close> converts to 64 bits and keeps 32.\<close>

definition scan_u :: "u8 list \<Rightarrow> u32 option" where
  "scan_u str = map_option of_nat (scan_lu str)"

datatype argument = Antenna tuner_antennas | Record u32

definition parse_arg :: "u8 list \<Rightarrow> argument option" where
  "parse_arg arg =
    (if take 2 arg = [45, 97] \<and> length arg = 3 \<and> arg ! 2 \<ge> 49 \<and> arg ! 2 \<le> 51 then
       Some (Antenna (if arg ! 2 = 49 then ant1 else if arg ! 2 = 50 then ant2 else coax))
     else if take 2 arg = [45, 99] then
       (case scan_u (drop 2 arg) of
          None \<Rightarrow> None
        | Some v \<Rightarrow> if TVCH_MIN \<le> v \<and> v \<le> TVCH_MAX then Some (Record v) else None)
     else None)"

text \<open>\<^verbatim>\<open>selected_antenna\<close> and \<^verbatim>\<open>record_ch\<close> after all arguments, unless one of them is bad.\<close>

fun parse_args :: "u8 list list \<Rightarrow> tuner_antennas \<times> u32 \<Rightarrow> (tuner_antennas \<times> u32) option" where
  "parse_args [] opts = Some opts"
| "parse_args (arg # args) opts =
    (case parse_arg arg of
       None \<Rightarrow> None
     | Some (Antenna a) \<Rightarrow> parse_args args (a, snd opts)
     | Some (Record v) \<Rightarrow> parse_args args (fst opts, v))"

subsection \<open>One tuner\<close>

definition select_antenna :: "(nat \<Rightarrow> u32) \<Rightarrow> tuner_antennas \<Rightarrow> unit ts_cmd" where
  "select_antenna beyond a = (if a \<noteq> nc then on_tun (set_antenna beyond a) else ret ())"

text \<open>
  \<^verbatim>\<open>do_item\<close> up to the channel tables: the strong channels. The second scan is only for what it prints, its
  list is freed at once.
\<close>

definition probe :: "(nat \<Rightarrow> u32) \<Rightarrow> (mpgts \<Rightarrow> mpgts) \<Rightarrow> tuner_antennas \<Rightarrow> u32 list ts_cmd" where
  "probe beyond meanwhile a =
    thenM (select_antenna beyond a)
    (bindM (on_tun (scan beyond False 20)) (\<lambda>chlist.
     thenM (on_tun (scan beyond True 80))
     (thenM (on_sys free_block)
     (bindM (strong_channels beyond meanwhile chlist) (\<lambda>strong.
      thenM (on_sys free_block) (ret strong))))))"

definition do_item :: "(nat \<Rightarrow> u32) \<Rightarrow> (mpgts \<Rightarrow> mpgts) \<Rightarrow> (mpgts \<Rightarrow> mpgts) \<Rightarrow> tuner_antennas \<Rightarrow> string ts_cmd" where
  "do_item beyond meanwhile race a =
    thenM mpgts_open
    (bindM (probe beyond meanwhile a) (\<lambda>strong.
     tryM (get_ch_id beyond meanwhile race strong) (\<lambda>r.
     thenM (mpgts_close beyond) (case r of Inl e \<Rightarrow> fail e | Inr text \<Rightarrow> ret text))))"

text \<open>\<^verbatim>\<open>"%02u.ts"\<close>\<close>

definition ts_file :: "u32 \<Rightarrow> string" where
  "ts_file tv = (if tv < 10 then ''0'' else []) @ dec (unat tv) @ ''.ts''"

definition watch_record :: "(mpgts \<Rightarrow> mpgts) \<Rightarrow> unit option ts_cmd" where
  "watch_record meanwhile =
    thenM (on_tun (get_mse 0))
    (bindM (on_sys rawgetch) (\<lambda>key.
     if key = -1 then fail Sys_Error
     else if key \<noteq> 0 then ret (Some ())
     else thenM (sleep_ts meanwhile 100000) (ret None)))"

definition do_record :: "(nat \<Rightarrow> u32) \<Rightarrow> (mpgts \<Rightarrow> mpgts) \<Rightarrow> u32 \<Rightarrow> tuner_antennas \<Rightarrow> unit ts_cmd" where
  "do_record beyond meanwhile tv a =
    thenM mpgts_open
    (thenM (select_antenna beyond a)
    (thenM (on_tun (scan beyond False 20))
    (bindM (on_atsc 0 (open_dump (ts_file tv))) (\<lambda>failed.
     if failed then fail Sys_Error
     else
       thenM (mpgts_start_ts meanwhile 0)
       (thenM (on_tun (set_freq beyond 0 tv 20))
         (loopM sys (watch_record meanwhile)))))))"

subsection \<open>main\<close>

text \<open>A command on the object of a tuner that was found; the object lives in the array.\<close>

definition on_tuner :: "tuner_at \<Rightarrow> 'a ts_cmd \<Rightarrow> 'a io" where
  "on_tuner t m w = (case m (new_mpgts (at_myip t) w) of None \<Rightarrow> None | Some (r, s) \<Rightarrow> Some (r, sys s))"

fun do_items :: "(nat \<Rightarrow> u32) \<Rightarrow> (mpgts \<Rightarrow> mpgts) \<Rightarrow> (mpgts \<Rightarrow> mpgts) \<Rightarrow> tuner_antennas \<Rightarrow>
  tuner_at list \<Rightarrow> string list io" where
  "do_items beyond meanwhile race a [] = ret []"
| "do_items beyond meanwhile race a (t # ts) =
    bindM (on_tuner t (do_item beyond meanwhile race a)) (\<lambda>text.
    bindM (do_items beyond meanwhile race a ts) (\<lambda>texts. ret (text # texts)))"

text \<open>The value is the exit status.\<close>

definition main_prog ::
  "(nat \<Rightarrow> u32) \<Rightarrow> (mpgts \<Rightarrow> mpgts) \<Rightarrow> (mpgts \<Rightarrow> mpgts) \<Rightarrow> ifaddr list option \<Rightarrow> u8 list list \<Rightarrow> nat io" where
  "main_prog beyond meanwhile race ifs args =
    (case parse_args args (nc, 0) of
       None \<Rightarrow> ret 1
     | Some (a, record_ch) \<Rightarrow>
         bindM (socket_find ifs) (\<lambda>found.
         case found of
           None \<Rightarrow> ret 1
         | Some [] \<Rightarrow> ret 1
         | Some (t # ts) \<Rightarrow>
             tryM (if record_ch \<noteq> 0 then on_tuner t (do_record beyond meanwhile record_ch a)
                   else thenM (do_items beyond meanwhile race a (t # ts)) (ret ())) (\<lambda>r.
             thenM free_block (case r of Inl e \<Rightarrow> ret 1 | Inr _ \<Rightarrow> ret 0))))"

subsection \<open>What is open, and what is left running\<close>

text \<open>The thread was created and has neither been cancelled nor joined: unless it has returned by itself, it runs.
  The three descriptors are open.\<close>

definition still_open :: "mpgts \<Rightarrow> bool" where
  "still_open s \<longleftrightarrow> tsth s \<and> 0 \<le> tcp_sock s \<and> udp_sock s 0 \<noteq> -1 \<and> udp_sock s 1 \<noteq> -1"

definition closed :: "mpgts \<Rightarrow> bool" where
  "closed s \<longleftrightarrow> \<not> tsth s \<and> tcp_sock s = -1 \<and> udp_sock s 0 = -1 \<and> udp_sock s 1 = -1"

text \<open>The descriptors of an object.\<close>

definition fds_of :: "mpgts \<Rightarrow> int multiset" where
  "fds_of s = {#tcp_sock s, udp_sock s 0, udp_sock s 1#}"

text \<open>Of the sockets opened between the two states, \<open>left\<close> are those that were not closed, and nothing else was
  closed.\<close>

definition leaves_sockets :: "int multiset \<Rightarrow> world \<Rightarrow> world \<Rightarrow> bool" where
  "leaves_sockets left w w' \<longleftrightarrow>
    socket_fds w + mset (closed_fds (trace w)) = socket_fds w' + mset (closed_fds (trace w')) + left"

lemma leaves_trans: "leaves_sockets l w w1 \<Longrightarrow> leaves_sockets k w1 w2 \<Longrightarrow> leaves_sockets (l + k) w w2"
  by (simp add: leaves_sockets_def)

lemma leaves_same: "same_fds w w' \<Longrightarrow> leaves_sockets {#} w w'"
  by (simp add: leaves_sockets_def same_fds_def)

lemma still_open_kept: "same_sockets s s' \<Longrightarrow> still_open s \<Longrightarrow> still_open s' \<and> fds_of s' = fds_of s"
  by (simp add: same_sockets_def still_open_def fds_of_def)

lemma open_tun_run:
  assumes "open_tun s = Some (Inr u, s')"
  shows "0 \<le> tcp_sock s' \<and> leaves_sockets {#tcp_sock s'#} (sys s) (sys s')"
proof -
  have ok: "\<exists>es. 0 \<le> fd \<and> script w = Ev_socket fd # Ev_connect True # es \<and> w' = w\<lparr>script := es\<rparr>"
    if "socket_open w = Some (Inr (Inr v, fd), w')" for w fd w' v
    using that by (auto simp: socket_open_def split: list.splits os_event.splits if_splits)
  from assms obtain a fd w where w: "socket_open (sys s) = Some (Inr (a, fd), w)"
    and c: "(case a of Inl e \<Rightarrow> fail e | Inr _ \<Rightarrow> ret ()) (s\<lparr>sys := w, tcp_sock := fd\<rparr>) = Some (Inr u, s')"
    by (auto simp: open_tun_def cmd_iffs on_sys_iff)
  show ?thesis
  proof (cases a)
    case (Inr v)
    with ok w c show ?thesis by (force simp: leaves_sockets_def socket_fds_def)
  qed (use c in simp)
qed

lemma ask_socket_iff:
  "ask_socket w = Some (r, w') \<longleftrightarrow> (\<exists>fd es. script w = Ev_socket fd # es \<and> r = Inr fd \<and> w' = w\<lparr>script := es\<rparr>)"
  by (auto simp: ask_socket_def split: list.splits os_event.splits)

lemma open_udp_run:
  assumes "open_udp i s = Some (Inr u, s')"
  shows "udp_sock s' i \<noteq> -1 \<and> (\<forall>j. j \<noteq> i \<longrightarrow> udp_sock s' j = udp_sock s j) \<and> tcp_sock s' = tcp_sock s \<and>
    leaves_sockets {#udp_sock s' i#} (sys s) (sys s')"
  using assms
  by (auto simp: open_udp_def part_iffs ask_socket_iff ask_ok_iff ask_num_iff leaves_sockets_def socket_fds_def split: if_splits)

lemma open_runs:
  assumes "mpgts_open s = Some (Inr u, s')"
  shows "still_open s'" "leaves_sockets (fds_of s') (sys s) (sys s')"
proof -
  from assms obtain s1 s2 s3 s4 s5 s6 where 1: "open_tun s = Some (Inr (), s1)"
    and 2: "on_tun tuner_init s1 = Some (Inr (), s2)" and 3: "init_atsc 0 s2 = Some (Inr (), s3)"
    and 4: "init_atsc 1 s3 = Some (Inr (), s4)" and 5: "open_udp 0 s4 = Some (Inr (), s5)"
    and 6: "open_udp 1 s5 = Some (Inr (), s6)" and 7: "start_thread s6 = Some (Inr (), s')"
    by (auto simp: mpgts_open_def thenM_Inr_iff)
  have ini: "keeps (sys_lift same_fds) (init_atsc i)" for i
    unfolding init_atsc_def Sez_Mpgts.check_def
    by (auto intro!: descriptors.syss.keeps_intros descriptors.parts descriptors.demux_init)
  have "keeps (sys_lift same_fds) (upd (\<lambda>s. s\<lparr>tsth := b\<rparr>))" for b
    by (rule descriptors.upds) (simp add: sys_lift_def quiet.refl)
  then have st: "keeps (sys_lift same_fds) start_thread"
    unfolding start_thread_def Sez_Mpgts.check_def
    by (auto intro!: descriptors.syss.keeps_intros descriptors.parts descriptors.calls)
  have q: "same_fds (sys s1) (sys s2)" "same_fds (sys s2) (sys s3)" "same_fds (sys s3) (sys s4)" "same_fds (sys s6) (sys s')"
    using keepsD [OF descriptors.parts(2) [OF descriptors.initialized] 2] keepsD [OF ini 3] keepsD [OF ini 4] keepsD [OF st 7]
    by (simp_all add: sys_lift_def)
  note counts = open_tun_run [OF 1] open_udp_run [OF 5] open_udp_run [OF 6]
  have mid: "tcp_sock s4 = tcp_sock s1" using 2 3 4 by (auto simp: init_atsc_def part_iffs)
  have fds: "tsth s' \<and> tcp_sock s' = tcp_sock s6 \<and> udp_sock s' = udp_sock s6"
    using 7 by (auto simp: start_thread_def part_iffs split: if_splits)
  with counts mid show "still_open s'" by (simp add: still_open_def)
  from counts q have "leaves_sockets {#tcp_sock s1, udp_sock s5 0, udp_sock s6 1#} (sys s) (sys s')"
    by (simp add: leaves_sockets_def same_fds_def)
  moreover have "fds_of s' = {#tcp_sock s1, udp_sock s5 0, udp_sock s6 1#}" using fds counts mid by (simp add: fds_of_def)
  ultimately show "leaves_sockets (fds_of s') (sys s) (sys s')" by simp
qed

text \<open>What \<^verbatim>\<open>do_record\<close> does once \<^verbatim>\<open>open\<close> has succeeded.\<close>

definition record_rest :: "(nat \<Rightarrow> u32) \<Rightarrow> (mpgts \<Rightarrow> mpgts) \<Rightarrow> u32 \<Rightarrow> tuner_antennas \<Rightarrow> unit ts_cmd" where
  "record_rest beyond meanwhile tv a =
    thenM (select_antenna beyond a)
    (thenM (on_tun (scan beyond False 20))
    (bindM (on_atsc 0 (open_dump (ts_file tv))) (\<lambda>failed.
     if failed then fail Sys_Error
     else
       thenM (mpgts_start_ts meanwhile 0)
       (thenM (on_tun (set_freq beyond 0 tv 20))
         (loopM sys (watch_record meanwhile))))))"

lemma do_record_split: "do_record beyond meanwhile tv a = thenM mpgts_open (record_rest beyond meanwhile tv a)"
  by (simp only: do_record_def record_rest_def)

context client begin

lemma selecting: "keeps Q (select_antenna beyond a)"
  by (auto simp: select_antenna_def intro: ret tuner)

lemma probing:
  assumes "thread_does iconv fresh meanwhile"
  shows "keeps Q (probe beyond meanwhile a)"
  unfolding probe_def by (intro bindI thenI selecting strong [OF assms] tuner calls ret)

lemma recording:
  assumes "thread_does iconv fresh meanwhile"
  shows "keeps Q (record_rest beyond meanwhile tv a)"
proof -
  have "keeps Q (loopM sys (watch_record meanwhile))"
    unfolding watch_record_def by (auto intro!: loopI keeps_intros tuner calls sleep [OF assms])
  then show ?thesis unfolding record_rest_def
    by (intro thenI bindI ifI fail selecting tuner dumping start [OF assms])
qed

end

lemma record_ends:
  assumes "do_record beyond meanwhile tv a s = Some (r, s')" and "thread_does iconv fresh meanwhile"
  shows "still_open s' \<and> leaves_sockets (fds_of s') (sys s) (sys s') \<or> (\<exists>e. r = Inl e \<and> mpgts_open s = Some (Inl e, s'))"
proof -
  from assms(1) have "thenM mpgts_open (record_rest beyond meanwhile tv a) s = Some (r, s')"
    by (simp only: do_record_split)
  then consider e where "mpgts_open s = Some (Inl e, s')" "r = Inl e"
    | s1 where "mpgts_open s = Some (Inr (), s1)" "record_rest beyond meanwhile tv a s1 = Some (r, s')"
    by (auto simp: thenM_Some_iff)
  then show ?thesis
  proof cases
    case (2 s1)
    have "same_sockets s1 s'" "same_fds (sys s1) (sys s')"
      using keepsD [OF ports.recording [OF assms(2)] 2(2)] keepsD [OF descriptors.user.recording [OF assms(2)] 2(2)]
      by (simp_all add: sys_lift_def)
    with open_runs [OF 2(1)] still_open_kept leaves_trans [of "fds_of s1" _ _ "{#}"] leaves_same show ?thesis by fastforce
  qed blast
qed

text \<open>C11: \<^verbatim>\<open>do_record\<close> neither cancels nor joins the thread and closes no socket: whenever \<^verbatim>\<open>open\<close> succeeded,
  however the recording ends, the three sockets \<^verbatim>\<open>open\<close> has opened are left open, and the thread is left to
  itself. Unless it has returned by then, it goes on with the object, which \<^verbatim>\<open>main\<close> frees.\<close>

theorem do_record_never_joins:
  assumes "do_record beyond meanwhile tv a s = Some (r, s')" and "thread_does iconv fresh meanwhile"
  shows "still_open s' \<and> leaves_sockets (fds_of s') (sys s) (sys s') \<or> (\<exists>e. r = Inl e \<and> mpgts_open s = Some (Inl e, s'))"
  by (rule record_ends [OF assms])

lemma close_balance:
  assumes "mpgts_close beyond s = Some (r, s')" and "still_open s"
  shows "closed s' \<and> r = Inr () \<and> socket_fds (sys s') = socket_fds (sys s) \<and>
    mset (closed_fds (trace (sys s'))) = mset (closed_fds (trace (sys s))) + fds_of s"
proof -
  from assms(2) have fd: "tcp_sock s \<noteq> -1" "0 \<le> tcp_sock s" "udp_sock s 0 \<noteq> -1" "udp_sock s 1 \<noteq> -1"
    by (auto simp: still_open_def)
  from assms(1) obtain x t where 1: "tuner_close beyond (tcp_sock s) ((tun s)\<lparr>net := sys s\<rparr>) = Some (x, t)"
    and k: "\<And>fd. x = Inr fd \<Longrightarrow> thenM stop_thread (thenM (close_udp 0) (close_udp 1))
      (s\<lparr>tun := t, sys := net t, tcp_sock := fd\<rparr>) = Some (r, s')"
    by (auto simp: mpgts_close_def cmd_iffs on_tun_iff)
  from 1 fd(1) obtain q t1 where a: "set_antenna beyond nc ((tun s)\<lparr>net := sys s\<rparr>) = Some (q, t1)"
    and t: "net t = emit (Closed (tcp_sock s)) (net t1)" and x: "x = Inr (-1)"
    by (auto simp: tuner_close_def tryM_Some_iff socket_close_run)
  have t1: "same_fds (sys s) (net t1)" using keepsD [OF descriptors.antenna a] by (simp add: net_lift_def)
  let ?s = "s\<lparr>tun := t, sys := net t, tcp_sock := -1\<rparr>"
  from k [OF x] obtain s2 where 2: "stop_thread ?s = Some (Inr (), s2)" and 3: "thenM (close_udp 0) (close_udp 1) s2 = Some (r, s')"
    by (auto simp: thenM_Some_iff dest: stop_thread_run)
  have "keeps (sys_lift same_fds) (upd (\<lambda>s. s\<lparr>tsth := False\<rparr>))"
    by (rule descriptors.upds) (simp add: sys_lift_def quiet.refl)
  then have "keeps (sys_lift same_fds) stop_thread"
    unfolding stop_thread_def by (auto intro!: descriptors.syss.keeps_intros descriptors.parts descriptors.calls)
  from keepsD [OF this 2] have s2: "same_fds (net t) (sys s2)" by (simp add: sys_lift_def)
  from stop_thread_run [OF 2] have "\<not> tsth s2" "udp_sock s2 = udp_sock s" "tcp_sock s2 = -1" by auto
  with 3 fd have "closed s' \<and> r = Inr () \<and> socket_fds (sys s') = socket_fds (sys s2) \<and>
      mset (closed_fds (trace (sys s'))) = mset (closed_fds (trace (sys s2))) + {#udp_sock s 0, udp_sock s 1#}"
    by (auto simp: thenM_Some_iff close_udp_run closed_def socket_fds_def closed_fds_def)
  moreover have "socket_fds (sys s2) = socket_fds (sys s) \<and>
      mset (closed_fds (trace (sys s2))) = mset (closed_fds (trace (sys s))) + {#tcp_sock s#}"
    using s2 t1 t by (simp add: same_fds_def socket_fds_def)
  ultimately show ?thesis by (simp add: fds_of_def)
qed

lemma item_ends:
  assumes "do_item beyond meanwhile race a s = Some (r, s')" and "thread_does iconv fresh meanwhile"
    and "thread_does iconv fresh race" and "mpgts_open s = Some (Inr u, s1)" and "probe beyond meanwhile a s1 = Some (p, s2)"
  shows "case p of Inl e \<Rightarrow> r = Inl e \<and> still_open s' \<and> leaves_sockets (fds_of s') (sys s) (sys s')
    | Inr strong \<Rightarrow> closed s' \<and> leaves_sockets {#} (sys s) (sys s')"
proof -
  have s2: "still_open s2" "leaves_sockets (fds_of s2) (sys s) (sys s2)"
    using open_runs [OF assms(4)] still_open_kept keepsD [OF ports.probing [OF assms(2)] assms(5)]
      keepsD [OF descriptors.user.probing [OF assms(2)] assms(5)]
    by (auto simp: leaves_sockets_def same_fds_def sys_lift_def)
  show ?thesis
  proof (cases p)
    case (Inl e)
    with assms(1,4,5) s2 show ?thesis by (simp add: do_item_def thenM_def bindM_def tryM_def fail_def)
  next
    case (Inr strong)
    from assms(1,4,5) obtain x s3 q where 1: "get_ch_id beyond meanwhile race strong s2 = Some (x, s3)"
      and 2: "mpgts_close beyond s3 = Some (q, s')"
      unfolding do_item_def Inr by (auto simp: thenM_def bindM_def tryM_def fail_def ret_def split: option.splits sum.splits)
    have "still_open s3 \<and> fds_of s3 = fds_of s2" "same_fds (sys s2) (sys s3)"
      using still_open_kept [OF keepsD [OF ports.identified [OF assms(2,3)] 1] s2(1)]
        keepsD [OF descriptors.user.identified [OF assms(2,3)] 1] by (simp_all add: sys_lift_def)
    with close_balance [OF 2] s2(2) have "closed s'" "leaves_sockets {#} (sys s) (sys s')"
      by (auto simp: leaves_sockets_def same_fds_def)
    with Inr show ?thesis by simp
  qed
qed


text \<open>A run in which \<^verbatim>\<open>open\<close> succeeds and the scan gets no memory. The thread can go on after it.\<close>

definition record_example :: mpgts where
  "record_example = new_mpgts 0 \<lparr>script = open_answers @ [Ev_malloc False, Ev_num 0], trace = [], blocks = 0\<rparr>"

lemma record_opens:
  "\<exists>s1. mpgts_open record_example = Some (Inr (), s1) \<and> script (sys s1) = [Ev_malloc False, Ev_num 0] \<and>
     ch_i (ch_state (tun s1) 0) = off \<and> ch_i (ch_state (tun s1) 1) = off"
  using open_run [of "\<lparr>script = open_answers @ [Ev_malloc False, Ev_num 0], trace = [], blocks = 0\<rparr>"
    "[Ev_malloc False, Ev_num 0]" 0]
  by (auto simp: record_example_def)

lemma scan_no_memory:
  assumes "script (sys s) = Ev_malloc False # es" and "ch_i (ch_state (tun s) 0) = off" and "ch_i (ch_state (tun s) 1) = off"
  shows "\<exists>e s'. on_tun (scan beyond cb cr) s = Some (Inl e, s') \<and> script (sys s') = es"
  using assms
  by (auto simp: on_tun_def scan_def scan_from_def bindM_def tryM_def gets_def fail_def thenM_def set_antenna_def modify_def
      apply_antenna_def Let_def sock_def malloc_def ret_def)

theorem do_record_never_joins_witness:
  "\<exists>r s' s''. do_record (\<lambda>_. 695) id 5 nc record_example = Some (r, s') \<and> still_open s' \<and> size (fds_of s') = 3 \<and>
     leaves_sockets (fds_of s') (sys record_example) (sys s') \<and>
     thr_step (\<lambda>_. (True, [])) (\<lambda>_. 0) Polling s' = Some (Inr (Check 0 0), s'')"
proof -
  obtain s1 where o: "mpgts_open record_example = Some (Inr (), s1)" and u1: "script (sys s1) = [Ev_malloc False, Ev_num 0]"
    "ch_i (ch_state (tun s1) 0) = off" "ch_i (ch_state (tun s1) 1) = off" using record_opens by blast
  from scan_no_memory [OF u1] obtain e s' where sc: "on_tun (scan (\<lambda>_. 695) False 20) s1 = Some (Inl e, s')"
    and u: "script (sys s') = [Ev_num 0]" by blast
  from sc o have run: "do_record (\<lambda>_. 695) id 5 nc record_example = Some (Inl e, s')"
    by (simp add: do_record_def thenM_def bindM_def tryM_def select_antenna_def ret_def fail_def)
  from u obtain s'' where t: "thr_step (\<lambda>_. (True, [])) (\<lambda>_. 0) Polling s' = Some (Inr (Check 0 0), s'')"
    by (auto simp: bindM_def tryM_def on_sys_def ask_num_def ret_def)
  from do_record_never_joins [OF run thread_does_id] o
  have "still_open s' \<and> leaves_sockets (fds_of s') (sys record_example) (sys s')" by auto
  with run t show ?thesis by (auto simp: fds_of_def)
qed

text \<open>All answers a run on a silent cable needs, from \<^verbatim>\<open>open\<close> to \<^verbatim>\<open>close\<close>.\<close>

definition item_answers :: "os_event list" where
  "item_answers = open_answers @ sweep_script True 20 @ sweep_script False 0 @ [Ev_clock 0, Ev_clock 0, Ev_clock 0] @
     [Ev_malloc True] @ gpio_answer @ gpio_answer @ [Ev_ok True, Ev_ok True]"

lemma item_run:
  assumes "script w = item_answers @ es"
  shows "\<exists>s1 s2 s'. mpgts_open (new_mpgts my w) = Some (Inr (), s1) \<and> probe (\<lambda>_. 695) id coax s1 = Some (Inr [], s2) \<and>
    do_item (\<lambda>_. 695) id id coax (new_mpgts my w) = Some (Inr [], s') \<and> script (sys s') = es"
proof -
  let ?close = "gpio_answer @ gpio_answer @ [Ev_ok True, Ev_ok True] @ es"
  let ?id = "Ev_malloc True # ?close"
  let ?clock = "[Ev_clock 0, Ev_clock 0, Ev_clock 0] @ ?id"
  let ?second = "sweep_script False 0 @ ?clock"
  from open_run [of w "sweep_script True 20 @ ?second" my] assms obtain s1 where
    o: "mpgts_open (new_mpgts my w) = Some (Inr (), s1)" and u: "script (sys s1) = sweep_script True 20 @ ?second" and
    nc: "active_ant (tun s1) = nc" "ch_i (ch_state (tun s1) 0) = off" "ch_i (ch_state (tun s1) 1) = off"
    by (auto simp: item_answers_def)
  have "tsth s1" using open_runs(1) [OF o] by (simp add: still_open_def)
  with nc u have sel: "finishes sys (select_antenna (\<lambda>_. 695) coax) s1 () (on_air True) (sweep_script True 20 @ ?second)"
    by (auto simp: finishes_def select_antenna_def on_tun_def set_antenna_def apply_antenna_def thenM_def bindM_def tryM_def
        modify_def gets_def ret_def on_air_def aired_def dest!: two_channels)
  have k5: "finishes sys (thenM (on_sys free_block) (ret ([] :: u32 list))) s [] (on_air False) ?id"
    if "on_air False s" "script (sys s) = ?id" for s
    by (rule finishes_then [OF item_free [OF that]]) (auto intro: finishes_ret)
  have k4: "finishes sys (bindM (strong_channels (\<lambda>_. 695) id []) (\<lambda>l. thenM (on_sys free_block) (ret l))) s [] (on_air False) ?id"
    if "on_air False s" "script (sys s) = ?clock" for s
    by (rule finishes_bind [OF item_strong [OF that]]) (rule k5)
  have k3: "finishes sys (thenM (on_sys free_block) (bindM (strong_channels (\<lambda>_. 695) id []) (\<lambda>l. thenM (on_sys free_block) (ret l))))
      s [] (on_air False) ?id" if "on_air False s" "script (sys s) = ?clock" for s
    by (rule finishes_then [OF item_free [OF that]]) (rule k4)
  have k2: "finishes sys (thenM (on_tun (scan (\<lambda>_. 695) True 80))
      (thenM (on_sys free_block) (bindM (strong_channels (\<lambda>_. 695) id []) (\<lambda>l. thenM (on_sys free_block) (ret l)))))
      s [] (on_air False) ?id" if "on_air False s" "script (sys s) = ?second" for s
    by (rule finishes_then [OF item_scan [OF that]]) (simp, rule k3)
  have k1: "finishes sys (bindM (on_tun (scan (\<lambda>_. 695) False 20)) (\<lambda>chlist. thenM (on_tun (scan (\<lambda>_. 695) True 80))
      (thenM (on_sys free_block) (bindM (strong_channels (\<lambda>_. 695) id chlist) (\<lambda>l. thenM (on_sys free_block) (ret l))))))
      s [] (on_air False) ?id" if "on_air True s" "script (sys s) = sweep_script True 20 @ ?second" for s
    by (rule finishes_bind [OF item_scan [OF that]]) (simp, rule k2)
  have "finishes sys (probe (\<lambda>_. 695) id coax) s1 [] (on_air False) ?id"
    unfolding probe_def by (rule finishes_then [OF sel k1])
  then obtain s2 where p: "probe (\<lambda>_. 695) id coax s1 = Some (Inr [], s2)" "on_air False s2" "script (sys s2) = ?id"
    by (auto simp: finishes_def)
  from item_ident [OF p(2,3)] obtain s3 where i: "get_ch_id (\<lambda>_. 695) id id [] s2 = Some (Inr [], s3)" "on_air False s3"
    "script (sys s3) = ?close" by (auto simp: finishes_def)
  from item_close [OF i(2,3)] obtain s' where c: "mpgts_close (\<lambda>_. 695) s3 = Some (Inr (), s')" "script (sys s') = es"
    by (auto simp: finishes_def)
  have "do_item (\<lambda>_. 695) id id coax (new_mpgts my w) = Some (Inr [], s')"
    using o p(1) i(1) c(1) by (simp add: do_item_def thenM_def bindM_def tryM_def ret_def)
  with o p(1) c(2) show ?thesis by blast
qed


subsection \<open>Arguments\<close>

lemma scan_u_digits:
  assumes "ds \<noteq> []" and "\<forall>d \<in> set ds. is_digit d" and "digits_value ds < 2 ^ 64"
  shows "scan_u ds = Some (of_nat (digits_value ds))"
proof -
  from assms(1) obtain d es where ds: "ds = d # es" by (cases ds) auto
  with assms(2) have d: "is_digit d" by simp
  then have n: "\<not> is_space d" "d \<noteq> 45" "d \<noteq> 43"
    using order_trans [of 48 d 13] by (auto simp: is_digit_def is_space_def)
  have "takeWhile is_digit ds = ds" using assms(2) by (simp add: takeWhile_eq_all_conv)
  with n assms(3) show ?thesis unfolding ds by (simp add: scan_u_def scan_lu_def Let_def)
qed

text \<open>The number after \<^verbatim>\<open>-c\<close> is read modulo two to the 32: it is accepted exactly if what is left of it is a
  channel number from 2 to 51. So 4294967301 is accepted and records channel 5.\<close>

theorem channel_argument:
  assumes "ds \<noteq> []" and "\<forall>d \<in> set ds. is_digit d" and "digits_value ds < 2 ^ 64"
  shows "parse_arg ([45, 99] @ ds) =
    (let v = digits_value ds mod 2 ^ 32 in if 2 \<le> v \<and> v \<le> 51 then Some (Record (of_nat v)) else None)"
proof -
  let ?v = "digits_value ds mod 2 ^ 32"
  have u: "unat (of_nat (digits_value ds) :: u32) = ?v" by (simp add: unat_of_nat)
  then have "(2 :: u32) \<le> of_nat (digits_value ds) \<longleftrightarrow> 2 \<le> ?v" "(of_nat (digits_value ds) :: u32) \<le> 51 \<longleftrightarrow> ?v \<le> 51"
    by (simp_all add: word_le_nat_alt)
  moreover have "(of_nat ?v :: u32) = of_nat (digits_value ds)" using arg_cong [OF u, of "of_nat :: nat \<Rightarrow> u32"] by simp
  ultimately show ?thesis
    by (simp add: parse_arg_def scan_u_digits [OF assms] Let_def)
qed

theorem channel_argument_witness:
  "parse_arg ([45, 99] @ [52, 50, 57, 52, 57, 54, 55, 51, 48, 49]) = Some (Record 5)"
  by (subst channel_argument) (simp_all add: is_digit_def digits_value_def)

lemma parse_arg_range:
  "parse_arg x = Some (Record v) \<Longrightarrow> 2 \<le> v \<and> v \<le> 51"
  "parse_arg x = Some (Antenna a) \<Longrightarrow> a \<noteq> nc"
  by (auto simp: parse_arg_def split: if_splits option.splits)

lemma ts_file_length: "v \<le> 51 \<Longrightarrow> length (ts_file v) = 5"
proof -
  assume "v \<le> 51"
  then have "unat v < 100" by (simp add: word_le_nat_alt)
  then show ?thesis
    by (subst ts_file_def) (auto simp: dec.simps [of "unat v"] dec.simps [of "unat v div 10"] word_less_nat_alt)
qed

definition chosen :: "u8 list list \<Rightarrow> tuner_antennas \<times> u32 \<Rightarrow> tuner_antennas \<times> u32 \<Rightarrow> bool" where
  "chosen args old new \<longleftrightarrow>
    (fst new = fst old \<and> (\<forall>b. Some (Antenna b) \<notin> parse_arg ` set args) \<or> Some (Antenna (fst new)) \<in> parse_arg ` set args) \<and>
    (snd new = snd old \<and> (\<forall>v. Some (Record v) \<notin> parse_arg ` set args) \<or> Some (Record (snd new)) \<in> parse_arg ` set args)"

lemma parse_args_chosen: "parse_args args old = Some new \<Longrightarrow> chosen args old new"
proof (induction args arbitrary: old)
  case (Cons x args)
  then obtain p where x: "parse_arg x = Some p" by (cases "parse_arg x") auto
  show ?case
  proof (cases p)
    case (Antenna a)
    with Cons.IH [of "(a, snd old)"] Cons.prems x show ?thesis by (auto simp: chosen_def)
  next
    case (Record v)
    with Cons.IH [of "(fst old, v)"] Cons.prems x show ?thesis by (auto simp: chosen_def)
  qed
qed (simp add: chosen_def)

text \<open>C37: The arguments that are accepted give an antenna and a channel of the types the rest of the program
  relies on: no antenna only if none is named, and no channel, 0, only if none is named, otherwise one that an
  argument names, from 2 to 51; the name of the file fits the 16 bytes of \<^verbatim>\<open>tsfile\<close>.\<close>

theorem options_valid:
  assumes "parse_args args (nc, 0) = Some (a, v)"
  shows "(a = nc \<longleftrightarrow> (\<forall>b. Some (Antenna b) \<notin> parse_arg ` set args)) \<and>
    (v = 0 \<longleftrightarrow> (\<forall>u. Some (Record u) \<notin> parse_arg ` set args)) \<and>
    (v \<noteq> 0 \<longrightarrow> Some (Record v) \<in> parse_arg ` set args \<and> 2 \<le> v \<and> v \<le> 51) \<and> length (ts_file v) + 1 \<le> 16"
proof -
  have range: "2 \<le> u \<and> u \<le> 51" if "Some (Record u) \<in> parse_arg ` set args" for u
    using that parse_arg_range(1) by (metis imageE)
  have ant: "b \<noteq> nc" if "Some (Antenna b) \<in> parse_arg ` set args" for b
    using that parse_arg_range(2) by (metis imageE)
  have z: "\<not> (2 :: u32) \<le> 0" by simp
  from parse_args_chosen [OF assms] have c: "chosen args (nc, 0) (a, v)" .
  then have v: "v = 0 \<and> (\<forall>u. Some (Record u) \<notin> parse_arg ` set args) \<or> Some (Record v) \<in> parse_arg ` set args"
    and a: "a = nc \<and> (\<forall>b. Some (Antenna b) \<notin> parse_arg ` set args) \<or> Some (Antenna a) \<in> parse_arg ` set args"
    by (simp_all add: chosen_def)
  from v have "v \<le> 51" using range by auto
  then have "length (ts_file v) + 1 \<le> 16" by (simp add: ts_file_length)
  with v a range ant z show ?thesis by blast
qed

theorem options_valid_witness:
  "parse_args [[45, 97, 51], [45, 99, 53]] (nc, 0) = Some (coax, 5) \<and> ts_file 5 = ''05.ts'' \<and> length (ts_file 5) + 1 \<le> 16"
proof -
  have run: "parse_args [[45, 97, 51], [45, 99, 53]] (nc, 0) = Some (coax, 5)"
    by (simp add: parse_arg_def scan_u_def scan_lu_def is_space_def is_digit_def digits_value_def)
  moreover have "ts_file 5 = ''05.ts''" by code_simp
  ultimately show ?thesis using options_valid [OF run] by simp
qed

subsection \<open>A whole run\<close>

lemma item_balance:
  assumes "on_tuner t (do_item beyond meanwhile race a) w = Some (Inr str, w')" and "thread_does iconv fresh meanwhile"
    and "thread_does iconv fresh race"
  shows "leaves_sockets {#} w w'"
proof -
  from assms(1) obtain s' where run: "do_item beyond meanwhile race a (new_mpgts (at_myip t) w) = Some (Inr str, s')" and w': "w' = sys s'"
    by (auto simp: on_tuner_def split: option.splits)
  from run obtain s1 strong s2 where o: "mpgts_open (new_mpgts (at_myip t) w) = Some (Inr (), s1)"
    and p: "probe beyond meanwhile a s1 = Some (Inr strong, s2)"
    by (auto simp: do_item_def thenM_Inr_iff bindM_Inr_iff)
  from item_ends [OF run assms(2,3) o p] show ?thesis by (simp add: w' new_mpgts_def)
qed

lemma items_balance:
  assumes "thread_does iconv fresh meanwhile" and "thread_does iconv fresh race"
  shows "do_items beyond meanwhile race a ts w = Some (Inr strs, w') \<Longrightarrow> leaves_sockets {#} w w'"
proof (induction ts arbitrary: w strs)
  case (Cons t ts)
  then obtain str strs1 w1 where 1: "on_tuner t (do_item beyond meanwhile race a) w = Some (Inr str, w1)"
    and 2: "do_items beyond meanwhile race a ts w1 = Some (Inr strs1, w')"
    by (auto simp: bindM_Inr_iff)
  from leaves_trans [OF item_balance [OF 1 assms] Cons.IH [OF 2]] show ?case by simp
qed (simp add: leaves_sockets_def)

lemma record_balance:
  assumes "on_tuner t (do_record beyond meanwhile tv a) w = Some (Inr u, w')" and "thread_does iconv fresh meanwhile"
  shows "\<exists>left. size left = 3 \<and> leaves_sockets left w w'"
proof -
  from assms(1) obtain s' where run: "do_record beyond meanwhile tv a (new_mpgts (at_myip t) w) = Some (Inr u, s')" and w': "w' = sys s'"
    by (auto simp: on_tuner_def split: option.splits)
  from record_ends [OF run assms(2)] show ?thesis by (auto simp: w' new_mpgts_def fds_of_def intro!: exI [of _ "fds_of s'"])
qed

text \<open>C9: Which sockets a whole run of the program has opened and not closed when it reports success: one for every
  interface with a link-local address, on which discovery has asked, and after a recording also
  the three of the tuner. Every other socket it has opened is closed, once, and no other
  descriptor is. Files and memory are not counted.\<close>

theorem main_leaves_sockets:
  assumes "main_prog beyond meanwhile race (Some ifas) args w = Some (Inr 0, w')"
    and "thread_does iconv fresh meanwhile" and "thread_does iconv fresh race"
    and "parse_args args (nc, 0) = Some (a, ch)"
  shows "\<exists>disc tuners. leaves_sockets (disc + tuners) w w' \<and> size disc = length (filter link_if ifas) \<and>
    size tuners = (if ch = 0 then 0 else 3)"
proof -
  let ?use = "\<lambda>t ts. tryM (if ch \<noteq> 0 then on_tuner t (do_record beyond meanwhile ch a)
        else thenM (do_items beyond meanwhile race a (t # ts)) (ret ())) (\<lambda>r.
        thenM free_block (case r of Inl e \<Rightarrow> ret 1 | Inr _ \<Rightarrow> ret 0))"
  from assms(1,4) obtain found w1 where 0: "socket_find (Some ifas) w = Some (Inr found, w1)"
    and 1: "(case found of None \<Rightarrow> ret 1 | Some [] \<Rightarrow> ret 1 | Some (t # ts) \<Rightarrow> ?use t ts) w1 = Some (Inr (0 :: nat), w')"
    by (auto simp: main_prog_def bindM_Inr_iff simp del: One_nat_def)
  then obtain l where l: "found = Some l" by (cases found) auto
  with 1 obtain t ts where l2: "l = t # ts" by (cases l) auto
  have f: "socket_find (Some ifas) w = Some (Inr (Some (t # ts)), w1)" and run: "?use t ts w1 = Some (Inr (0 :: nat), w')"
    using 0 1 unfolding l l2 by (simp_all only: option.case list.case)
  from found_sockets [OF f] obtain disc where d: "leaves_sockets disc w w1" "size disc = length (filter link_if ifas)"
    by (auto simp: leaves_sockets_def)
  from run obtain q w2 where m: "(if ch \<noteq> 0 then on_tuner t (do_record beyond meanwhile ch a)
        else thenM (do_items beyond meanwhile race a (t # ts)) (ret ())) w1 = Some (q, w2)"
    and e: "thenM free_block (case q of Inl e \<Rightarrow> ret 1 | Inr _ \<Rightarrow> ret 0) w2 = Some (Inr (0 :: nat), w')"
    unfolding tryM_Some_iff by blast
  from e obtain u where q: "q = Inr u" by (cases q) (auto simp: thenM_Inr_iff)
  from e q have w': "leaves_sockets {#} w2 w'" by (auto simp: thenM_Inr_iff leaves_sockets_def socket_fds_def)
  obtain tuners where "leaves_sockets tuners w1 w2" "size tuners = (if ch = 0 then 0 else 3)"
  proof (cases "ch = 0")
    case True
    with m q obtain strs where "do_items beyond meanwhile race a (t # ts) w1 = Some (Inr strs, w2)"
      by (auto simp: thenM_Inr_iff simp del: do_items.simps)
    from items_balance [OF assms(2,3) this] True show thesis by (intro that [of "{#}"]) simp_all
  next
    case False
    with m q have "on_tuner t (do_record beyond meanwhile ch a) w1 = Some (Inr u, w2)" by simp
    from record_balance [OF this assms(2)] False that show thesis by auto
  qed
  with leaves_trans [OF leaves_trans [OF d(1)] w'] d(2) show ?thesis by fastforce
qed

definition main_example :: world where
  "main_example = \<lparr>script = [Ev_malloc True, Ev_socket 3] @ sites_events 0 8 [(replicate 14 0, 5, [example_reply])] @ item_answers,
     trace = [], blocks = 0\<rparr>"

lemma main_finds:
  "\<exists>t w1. socket_find (Some example_ifs) main_example = Some (Inr (Some [t]), w1) \<and> script w1 = item_answers"
proof -
  let ?ss = "[(replicate 14 0, 5, [example_reply])]"
  have "\<exists>w'. socket_find (Some example_ifs) main_example = Some (Inr (Some (tuners example_ifs ?ss)), w') \<and> script w' = item_answers"
    by (rule find_run [where k = 3])
      (simp_all add: example_link, simp_all add: example_ifs_def site_ok_def example_reply_def main_example_def)
  moreover have "length (tuners example_ifs ?ss) = 1"
    using example_link by (simp add: example_ifs_def replies_def example_reply_def split: if_splits)
  ultimately show ?thesis by (auto simp: length_Suc_conv)
qed

lemma main_run: "\<exists>w'. main_prog (\<lambda>_. 695) id id (Some example_ifs) [[45, 97, 51]] main_example = Some (Inr 0, w')"
proof -
  obtain t w1 where f: "socket_find (Some example_ifs) main_example = Some (Inr (Some [t]), w1)" and u: "script w1 = item_answers"
    using main_finds by blast
  obtain s' where i: "do_item (\<lambda>_. 695) id id coax (new_mpgts (at_myip t) w1) = Some (Inr [], s')"
    using item_run [of w1 "[]" "at_myip t"] u by auto
  have "parse_args [[45, 97, 51]] (nc, 0) = Some (coax, 0)" by (simp add: parse_arg_def)
  then show ?thesis
    using i by (simp add: main_prog_def bindM_def thenM_def tryM_def f on_tuner_def ret_def free_block_def fail_def)
qed

theorem main_leaves_sockets_witness:
  "\<exists>w' fd. main_prog (\<lambda>_. 695) id id (Some example_ifs) [[45, 97, 51]] main_example = Some (Inr 0, w') \<and>
     leaves_sockets {#fd#} main_example w'"
proof -
  obtain w' where run: "main_prog (\<lambda>_. 695) id id (Some example_ifs) [[45, 97, 51]] main_example = Some (Inr 0, w')"
    using main_run by blast
  have "parse_args [[45, 97, 51]] (nc, 0) = Some (coax, 0)" by (simp add: parse_arg_def)
  from main_leaves_sockets [OF run thread_does_id thread_does_id this] obtain disc :: "int multiset"
    where "leaves_sockets disc main_example w'" "size disc = 1"
    by (auto simp: example_link)
  then obtain fd where "leaves_sockets {#fd#} main_example w'" by (metis size_1_singleton_mset)
  with run show ?thesis by blast
qed

end
