(* ===== verification/Sez_Ioctl.thy ===== *)
theory Sez_Ioctl
  imports Sez_Discovery
begin

text \<open>
  The variant of \<^verbatim>\<open>foreach_if\<close> that \<^verbatim>\<open>iface.cpp\<close> has for systems without \<^verbatim>\<open>getifaddrs\<close>: it asks the kernel for the list
  of interfaces, and for the flags and addresses of each. Its callback is a command of discovery.
\<close>

subsection \<open>The list of interfaces\<close>

text \<open>The local \<^verbatim>\<open>max\<close> and the fields of \<^verbatim>\<open>ifc\<close>; \<open>ifc_buf\<close> are the bytes the kernel stored, the rest of the buffer is zero.\<close>

record ifconf =
  c_os :: world
  c_max :: nat
  ifc_len :: nat
  ifc_buf :: "u8 list"

definition c_on :: "'a io \<Rightarrow> (ifconf, 'a) cmd" where
  "c_on m c = (case m (c_os c) of None \<Rightarrow> None | Some (r, w) \<Rightarrow> Some (r, c\<lparr>c_os := w\<rparr>))"

definition c_see :: "(ifconf \<Rightarrow> 'a) \<Rightarrow> (ifconf, 'a) cmd" where
  "c_see g c = Some (Inr (g c), c)"

definition c_put :: "(ifconf \<Rightarrow> ifconf) \<Rightarrow> (ifconf, unit) cmd" where
  "c_put g c = Some (Inr (), g c)"

text \<open>\<^verbatim>\<open>ioctl(SIOCGIFCONF)\<close>: what it stores, \<open>None\<close> when it fails. It is given the size of the buffer.\<close>

definition get_ifconf :: "nat \<Rightarrow> u8 list option io" where
  "get_ifconf room w = (case script w of
     Ev_read r # es \<Rightarrow> (case r of
         None \<Rightarrow> Some (Inr None, w\<lparr>script := es\<rparr>)
       | Some bytes \<Rightarrow> if length bytes > room then None else Some (Inr (Some bytes), w\<lparr>script := es\<rparr>))
   | _ \<Rightarrow> None)"

text \<open>One round of the loop. \<^verbatim>\<open>max\<close> grows before it is compared with what was stored.\<close>

definition conf_round :: "(ifconf, unit option) cmd" where
  "conf_round =
    bindM (c_see (\<lambda>c. ifc_len c \<ge> c_max c)) (\<lambda>more.
    if \<not> more then ret (Some ())
    else
      thenM (c_put (\<lambda>c. c\<lparr>ifc_len := c_max c\<rparr>))
      (bindM (c_on realloc) (\<lambda>ok.
       if \<not> ok then fail No_Memory
       else
         bindM (c_see ifc_len) (\<lambda>room.
         bindM (c_on (get_ifconf room)) (\<lambda>r. case r of
           None \<Rightarrow> thenM (c_on free_block) (fail Sys_Error)
         | Some bytes \<Rightarrow>
             thenM (c_put (\<lambda>c. c\<lparr>ifc_len := length bytes, ifc_buf := bytes\<rparr>))
             (thenM (c_put (\<lambda>c. c\<lparr>c_max := c_max c + 4096\<rparr>)) (ret None)))))))"

definition get_conf :: "u8 list io" where
  "get_conf w =
    (case loopM c_os conf_round \<lparr>c_os = w, c_max = 4096, ifc_len = 4096, ifc_buf = []\<rparr> of
       None \<Rightarrow> None
     | Some (r, c) \<Rightarrow> Some (case r of Inl e \<Rightarrow> Inl e | Inr _ \<Rightarrow> Inr (ifc_buf c), c_os c))"

subsection \<open>Every interface\<close>

text \<open>\<^verbatim>\<open>sizeof(struct ifreq)\<close> on a 64-bit Linux.\<close>

definition sizeof_ifreq :: nat where
  "sizeof_ifreq = 40"

fun ifreqs :: "nat \<Rightarrow> u8 list \<Rightarrow> u8 list list" where
  "ifreqs 0 bytes = []"
| "ifreqs (Suc n) bytes = take sizeof_ifreq bytes # ifreqs n (drop sizeof_ifreq bytes)"

definition ifr_name :: "u8 list \<Rightarrow> string" where
  "ifr_name ifr = map (\<lambda>b. char_of (unat b)) (takeWhile (\<lambda>b. b \<noteq> 0) (take 16 ifr))"

text \<open>\<^verbatim>\<open>ioctl\<close> on an entry: the field it stores, negative when it fails; then the buffer is freed.\<close>

definition ask_ioctl :: "(finder, int) cmd" where
  "ask_ioctl = bindM (on_os ask_num) (\<lambda>r. if r < 0 then thenM (on_os free_block) (fail Sys_Error) else ret r)"

definition up_running :: "u16 \<Rightarrow> bool" where
  "up_running flags \<longleftrightarrow> flags AND 1 \<noteq> 0 \<and> flags AND 0x40 \<noteq> 0"

fun each_ifreq :: "u8 list list \<Rightarrow> (string \<Rightarrow> u32 \<Rightarrow> u32 \<Rightarrow> (finder, unit) cmd) \<Rightarrow> (finder, unit) cmd" where
  "each_ifreq [] cb = ret ()"
| "each_ifreq (ifr # ifrs) cb =
    bindM ask_ioctl (\<lambda>flags.
    if \<not> up_running (word_of_int flags) then each_ifreq ifrs cb
    else
      bindM ask_ioctl (\<lambda>ip_addr.
      if (word_of_int ip_addr :: u32) = 0 then each_ifreq ifrs cb
      else
        bindM ask_ioctl (\<lambda>netmask.
        tryM (cb (ifr_name ifr) (word_of_int ip_addr) (word_of_int netmask)) (\<lambda>r. case r of
          Inl e \<Rightarrow> thenM (on_os free_block) (fail e)
        | Inr _ \<Rightarrow> each_ifreq ifrs cb))))"

text \<open>The kernel stores whole entries: a part of one has no result.\<close>

definition foreach_if_ioctl :: "(string \<Rightarrow> u32 \<Rightarrow> u32 \<Rightarrow> (finder, unit) cmd) \<Rightarrow> (finder, unit) cmd" where
  "foreach_if_ioctl cb =
    bindM (on_os malloc) (\<lambda>ok.
    if \<not> ok then fail No_Memory
    else
      bindM (on_os get_conf) (\<lambda>bytes.
      if length bytes mod sizeof_ifreq \<noteq> 0 then (\<lambda>_. None)
      else
        thenM (each_ifreq (ifreqs (length bytes div sizeof_ifreq) bytes) cb)
          (on_os free_block)))"

subsection \<open>The buffer\<close>

lemma c_iffs:
  "c_on m c = Some (r, c') \<longleftrightarrow> (\<exists>w. m (c_os c) = Some (r, w) \<and> c' = c\<lparr>c_os := w\<rparr>)"
  "c_see g c = Some (r2, c') \<longleftrightarrow> r2 = Inr (g c) \<and> c' = c"
  "c_put h c = Some (r3, c') \<longleftrightarrow> r3 = Inr () \<and> c' = h c"
  by (auto simp: c_on_def c_see_def c_put_def split: option.splits)

text \<open>All that can come of the loop: it asks the kernel once, whatever the answer.\<close>

lemma get_conf_run:
  assumes "get_conf w = Some (r, w')"
  obtains (no_memory) es where "script w = Ev_malloc False # es" "r = Inl No_Memory" "w' = w\<lparr>script := es\<rparr>"
  | (refused) es where "script w = Ev_malloc True # Ev_read None # es" "r = Inl Sys_Error"
      "w' = w\<lparr>script := es, blocks := blocks w - 1\<rparr>"
  | (read) bytes es where "script w = Ev_malloc True # Ev_read (Some bytes) # es" "length bytes \<le> 4096" "r = Inr bytes"
      "w' = w\<lparr>script := es\<rparr>"
proof -
  let ?c = "\<lparr>c_os = w, c_max = 4096, ifc_len = 4096, ifc_buf = []\<rparr>"
  from assms obtain q c where l: "loopM c_os conf_round ?c = Some (q, c)"
    and r: "r = (case q of Inl e \<Rightarrow> Inl e | Inr _ \<Rightarrow> Inr (ifc_buf c))" and w': "w' = c_os c"
    by (auto simp: get_conf_def split: option.splits)
  note defs = conf_round_def thenM_def bindM_def tryM_def ret_def fail_def c_see_def c_put_def c_on_def realloc_def
    get_ifconf_def free_block_def
  show thesis
  proof (cases "script w")
    case Nil
    with l show thesis by (simp add: loopM.simps [of c_os] defs)
  next
    case (Cons e es)
    show thesis
    proof (cases "e = Ev_malloc False")
      case True
      with l Cons r w' show thesis by (intro no_memory [of es]) (auto simp: loopM.simps [of c_os] defs)
    next
      case False
      with l Cons obtain es2 b where s: "script w = Ev_malloc True # Ev_read b # es2"
        by (auto simp: loopM.simps [of c_os] defs split: os_event.splits list.splits if_splits)
      show thesis
      proof (cases b)
        case None
        with l s r w' show thesis by (intro refused [of es2]) (auto simp: loopM.simps [of c_os] defs)
      next
        case (Some bytes)
        show thesis
        proof (cases "length bytes \<le> 4096")
          case True
          with Some l s r w' show thesis by (intro read [of bytes es2]) (auto simp: loopM.simps [of c_os] defs)
        next
          case False
          with Some l s show thesis by (simp add: loopM.simps [of c_os] defs)
        qed
      qed
    qed
  qed
qed

lemma get_conf_eval:
  assumes "script w = Ev_malloc True # Ev_read (Some bytes) # es" and "length bytes \<le> 4096"
  shows "get_conf w = Some (Inr bytes, w\<lparr>script := es\<rparr>)"
  using assms
  by (simp add: get_conf_def loopM.simps [of c_os] conf_round_def thenM_def bindM_def tryM_def ret_def c_see_def c_put_def
      c_on_def realloc_def get_ifconf_def)

text \<open>
  The buffer never grows: with \<^verbatim>\<open>max\<close> at 8192 when it is compared, no answer of the first call is long enough for a
  second one, so that at most 102 interfaces are seen.
\<close>

lemma at_most_102:
  assumes "get_conf w = Some (Inr bytes, w')"
  shows "length (ifreqs (length bytes div sizeof_ifreq) bytes) \<le> 102 \<and>
    (\<exists>es. script w = Ev_malloc True # Ev_read (Some bytes) # es \<and> w' = w\<lparr>script := es\<rparr>)"
proof -
  have len: "length (ifreqs n l) = n" for n l by (induction n arbitrary: l) simp_all
  from assms show ?thesis by (cases rule: get_conf_run) (auto simp: len sizeof_ifreq_def)
qed

definition same_heap :: "world \<Rightarrow> world \<Rightarrow> bool" where
  "same_heap w w' \<longleftrightarrow> blocks w' = blocks w"

definition heap_kept :: "finder \<Rightarrow> finder \<Rightarrow> bool" where
  "heap_kept f f' \<longleftrightarrow> same_heap (os f) (os f')"

interpretation heap: state_order same_heap
  by unfold_locales (simp_all add: same_heap_def)

interpretation fheap: state_order heap_kept
  by unfold_locales (simp_all add: heap_kept_def same_heap_def)

lemma heap_calls:
  "keeps same_heap ask_ok" "keeps same_heap ask_num" "keeps same_heap recvfrom" "keeps same_heap pselect"
  "keeps same_heap realloc" "keeps same_heap ask_socket" "keeps same_heap (note_store c n)" "keeps same_heap (act a)"
  "keeps same_heap get_hw_addr" "keeps same_heap (\<lambda>_. None)" "keeps same_heap (expect b e)"
  unfolding ask_ok_def ask_num_def recvfrom_def pselect_def realloc_def ask_socket_def get_hw_addr_def
  by (auto simp: keeps_def same_heap_def note_store_def act_def expect_def cmd_iffs
      split: list.splits os_event.splits option.splits if_splits)

lemma heap_udp:
  "keeps same_heap udp_bind" "keeps same_heap udp_pkt_recv" "keeps same_heap (udp_pkt_sendto a p pkt)"
  unfolding udp_bind_def udp_pkt_recv_def udp_pkt_sendto_def check_datagram_def Let_def
  by (auto intro!: heap.keeps_intros heap_calls split: prod.splits option.splits)

lemma heap_finder:
  "keeps same_heap m \<Longrightarrow> keeps heap_kept (on_os m)" "keeps heap_kept (query g)"
  "(\<And>f. os (c f) = os f) \<Longrightarrow> keeps heap_kept (change c)" "keeps heap_kept (\<lambda>_. None)"
  by (auto simp: keeps_def heap_kept_def on_os_iff query_def change_def heap.refl)

lemma heap_closing: "keeps same_heap m \<Longrightarrow> keeps heap_kept (closing fd m)"
  unfolding closing_def
  by (auto intro!: heap_finder heap.tryI heap.keeps_intros heap_calls split: sum.splits)

lemma heap_tunerfind2: "keeps heap_kept (tunerfind2 name a m)"
proof -
  have "keeps heap_kept (answer fd my)" for fd my
    unfolding answer_def list_room_def list_add_def
    by (auto intro!: fheap.keeps_intros heap_finder heap_closing heap_udp heap_calls split: option.splits prod.splits)
  then have "keeps heap_kept (loopM os (answer fd my))" for fd my
    by (rule fheap.loopI)
  then show ?thesis unfolding tunerfind2_def
    by (auto intro!: fheap.keeps_intros heap_finder heap_closing heap_udp heap_calls split: option.splits)
qed

text \<open>An error in the walk frees the buffer, its end does not.\<close>

definition walk_heap :: "finder \<Rightarrow> err + 'a \<Rightarrow> finder \<Rightarrow> bool" where
  "walk_heap f r f' \<longleftrightarrow> blocks (os f') = (case r of Inl e \<Rightarrow> blocks (os f) - 1 | Inr _ \<Rightarrow> blocks (os f))"

lemma walk_ask: "ask_ioctl f = Some (r, f') \<Longrightarrow> walk_heap f r f'"
  by (auto simp: ask_ioctl_def cmd_iffs on_os_iff ask_num_def free_block_def walk_heap_def
      split: list.splits os_event.splits if_splits)

lemma walk_same: "blocks (os f1) = blocks (os f) \<Longrightarrow> walk_heap f1 r f' = walk_heap f r f'"
  by (cases r) (simp_all add: walk_heap_def)

lemma walk_bind:
  assumes "bindM m k f = Some (r, f')" and "\<And>q f1. m f = Some (q, f1) \<Longrightarrow> walk_heap f q f1"
    and "\<And>x f1. m f = Some (Inr x, f1) \<Longrightarrow> k x f1 = Some (r, f') \<Longrightarrow> walk_heap f1 r f'"
  shows "walk_heap f r f'"
proof -
  from assms(1) consider e where "m f = Some (Inl e, f')" "r = Inl e"
    | x f1 where "m f = Some (Inr x, f1)" "k x f1 = Some (r, f')" by (auto simp: bindM_Some_iff)
  then show ?thesis
  proof cases
    case 1
    with assms(2) [OF 1(1)] show ?thesis by (simp add: walk_heap_def)
  next
    case (2 x f1)
    from assms(2) [OF 2(1)] have "blocks (os f1) = blocks (os f)" by (simp add: walk_heap_def)
    from walk_same [OF this] assms(3) [OF 2] show ?thesis by blast
  qed
qed

lemma walk_each:
  assumes "\<And>name a m. keeps heap_kept (cb name a m)"
  shows "each_ifreq ifrs cb f = Some (r, f') \<Longrightarrow> walk_heap f r f'"
proof (induction ifrs arbitrary: f)
  case (Cons ifr ifrs)
  have cb: "walk_heap f1 r f'"
    if "tryM (cb name a m) (\<lambda>r. case r of Inl e \<Rightarrow> thenM (on_os free_block) (fail e) | Inr _ \<Rightarrow> each_ifreq ifrs cb) f1 = Some (r, f')"
    for name a m f1
  proof -
    from that obtain q f2 where q: "cb name a m f1 = Some (q, f2)"
      and k: "(case q of Inl e \<Rightarrow> thenM (on_os free_block) (fail e) | Inr _ \<Rightarrow> each_ifreq ifrs cb) f2 = Some (r, f')"
      by (auto simp: tryM_Some_iff)
    have same: "blocks (os f2) = blocks (os f1)" using keepsD [OF assms q] by (simp add: heap_kept_def same_heap_def)
    show ?thesis
    proof (cases q)
      case (Inl e)
      with k same show ?thesis by (auto simp: thenM_Some_iff on_os_iff free_block_def walk_heap_def)
    next
      case (Inr u)
      with k have "each_ifreq ifrs cb f2 = Some (r, f')" by simp
      from walk_same [OF same] Cons.IH [OF this] show ?thesis by blast
    qed
  qed
  show ?case
    using Cons.prems unfolding each_ifreq.simps
  proof (rule walk_bind [OF _ walk_ask])
    fix flags f1
    let ?cb = "\<lambda>ip_addr netmask. tryM (cb (ifr_name ifr) (word_of_int ip_addr) (word_of_int netmask)) (\<lambda>r. case r of
      Inl e \<Rightarrow> thenM (on_os free_block) (fail e) | Inr _ \<Rightarrow> each_ifreq ifrs cb)"
    assume a: "(if \<not> up_running (word_of_int flags) then each_ifreq ifrs cb
      else bindM ask_ioctl (\<lambda>ip_addr. if (word_of_int ip_addr :: u32) = 0 then each_ifreq ifrs cb
        else bindM ask_ioctl (?cb ip_addr))) f1 = Some (r, f')"
    have "walk_heap f2 r f'" if "bindM ask_ioctl (?cb ip_addr) f2 = Some (r, f')" for ip_addr f2
      by (rule walk_bind [OF that walk_ask cb])
    then have "walk_heap f2 r f'" if "(if (word_of_int ip_addr :: u32) = 0 then each_ifreq ifrs cb
        else bindM ask_ioctl (?cb ip_addr)) f2 = Some (r, f')" for ip_addr f2
      using that Cons.IH by (simp split: if_splits)
    note inner = this
    have "walk_heap f2 r f'" if "bindM ask_ioctl (\<lambda>ip_addr. if (word_of_int ip_addr :: u32) = 0 then each_ifreq ifrs cb
        else bindM ask_ioctl (?cb ip_addr)) f2 = Some (r, f')" for f2
      by (rule walk_bind [OF that walk_ask inner])
    with a Cons.IH show "walk_heap f1 r f'" by (simp split: if_splits)
  qed
qed (auto simp: walk_heap_def ret_def)

text \<open>
  For every run: the buffer is freed on each way out but one: when \<^verbatim>\<open>realloc\<close> fails, its null pointer has replaced
  the only pointer to it.
\<close>

theorem ioctl_frees:
  assumes "foreach_if_ioctl tunerfind2 f = Some (r, f')"
  shows "blocks (os f') = blocks (os f) \<or>
    r = Inl No_Memory \<and> blocks (os f') = blocks (os f) + 1 \<and>
    script (os f) = [Ev_malloc True, Ev_malloc False] @ script (os f')"
proof -
  from assms obtain ok f1 where m: "on_os malloc f = Some (Inr ok, f1)"
    and k: "(if \<not> ok then fail No_Memory else bindM (on_os get_conf) (\<lambda>bytes.
      if length bytes mod sizeof_ifreq \<noteq> 0 then (\<lambda>_. None)
      else thenM (each_ifreq (ifreqs (length bytes div sizeof_ifreq) bytes) tunerfind2) (on_os free_block))) f1 = Some (r, f')"
    by (auto simp: foreach_if_ioctl_def bindM_Some_iff on_os_iff malloc_def split: list.splits os_event.splits)
  show ?thesis
  proof (cases ok)
    case False
    with m k show ?thesis by (auto simp: on_os_iff malloc_def split: list.splits os_event.splits)
  next
    case True
    from m True have f1: "script (os f) = Ev_malloc True # script (os f1)" "blocks (os f1) = blocks (os f) + 1"
      by (auto simp: on_os_iff malloc_def split: list.splits os_event.splits)
    from k True obtain q w where c: "get_conf (os f1) = Some (q, w)" and rest: "(case q of Inl e \<Rightarrow> fail e
      | Inr bytes \<Rightarrow> if length bytes mod sizeof_ifreq \<noteq> 0 then (\<lambda>_. None) else
          thenM (each_ifreq (ifreqs (length bytes div sizeof_ifreq) bytes) tunerfind2) (on_os free_block)) (f1\<lparr>os := w\<rparr>) = Some (r, f')"
      by (auto simp: bindM_Some_iff on_os_iff)
    from c show ?thesis
    proof (cases rule: get_conf_run)
      case (read bytes es)
      let ?is = "ifreqs (length bytes div sizeof_ifreq) bytes"
      from rest read obtain q2 f2 where e: "each_ifreq ?is tunerfind2 (f1\<lparr>os := w\<rparr>) = Some (q2, f2)"
        and z: "(case q2 of Inl e \<Rightarrow> fail e | Inr _ \<Rightarrow> on_os free_block) f2 = Some (r, f')"
        by (auto simp: thenM_Some_iff split: if_splits)
      from walk_each [OF heap_tunerfind2 e] z f1 read show ?thesis
        by (cases q2) (auto simp: walk_heap_def on_os_iff free_block_def)
    qed (use rest f1 in auto)
  qed
qed

subsection \<open>The two variants find the same tuners\<close>

text \<open>What the kernel knows of an interface: its flags, its address and its netmask. Bit 0 says that it is up, bit 6 that
  it is running.\<close>

type_synonym nic = "u16 \<times> u32 \<times> u32"

definition on_net :: "u16 \<Rightarrow> bool" where
  "on_net flags \<longleftrightarrow> bit flags 0 \<and> bit flags 6"

lemma up_running_bits: "up_running flags \<longleftrightarrow> on_net flags"
  using and_exp_eq_0_iff_not_bit [of flags 0] and_exp_eq_0_iff_not_bit [of flags 6]
  by (simp add: up_running_def on_net_def)

definition nic_events :: "nic \<Rightarrow> os_event list" where
  "nic_events = (\<lambda>(flags, a, m). Ev_num (uint flags) #
    (if \<not> on_net flags then [] else if a = 0 then [Ev_num 0] else [Ev_num (uint a), Ev_num (uint m)]))"

text \<open>Between the answers of the kernel stand those to what discovery does on an interface.\<close>

fun ioctl_events :: "nat \<Rightarrow> nat \<Rightarrow> nic list \<Rightarrow> site list \<Rightarrow> os_event list" where
  "ioctl_events n mx [] ss = []"
| "ioctl_events n mx ((flags, a, m) # nics) ss =
    nic_events (flags, a, m) @
    (if on_net flags \<and> link_local a m then
       (case ss of
          [] \<Rightarrow> []
        | s # ss' \<Rightarrow> site_events n mx s @ ioctl_events (n + length (replies s)) (grown n mx (replies s)) nics ss')
     else ioctl_events n mx nics ss)"

text \<open>The list \<^verbatim>\<open>getifaddrs\<close> gives for the interfaces that are up.\<close>

definition ups :: "nic list \<Rightarrow> ifaddr list" where
  "ups nics = map (\<lambda>(flags, a, m). \<lparr>ifa_name = [], ifa_addr = Some (AF_INET, a), ifa_netmask = Some m\<rparr>)
    (filter (\<lambda>(flags, a, m). on_net flags) nics)"

lemma ask_ioctl_eval:
  assumes "script (os f) = Ev_num n # es" and "0 \<le> n"
  shows "ask_ioctl f = Some (Inr n, f\<lparr>os := (os f)\<lparr>script := es\<rparr>\<rparr>)"
  using assms by (simp add: ask_ioctl_def bindM_def tryM_def on_os_def ask_num_def ret_def)

lemma each_ifreq_run:
  assumes "finder_inv f" and "length ss = length (filter link_if (ups nics))" and "\<forall>s \<in> set ss. site_ok s"
    and "length ifrs = length nics" and "script (os f) = ioctl_events (list_use f) (list_max f) nics ss @ es"
  shows "\<exists>f'. each_ifreq ifrs tunerfind2 f = Some (Inr (), f') \<and> iface_found f' = iface_found f + length ss \<and>
    found f' = found f @ tuners (ups nics) ss \<and> script (os f') = es"
  using assms
proof (induction nics arbitrary: f ss ifrs)
  case Nil
  then show ?case by (simp add: ups_def)
next
  case (Cons nic nics)
  obtain flags a m where nic: "nic = (flags, a, m)" by (cases nic)
  from Cons.prems(4) obtain ifr ifrs' where ifrs: "ifrs = ifr # ifrs'" and len: "length ifrs' = length nics"
    by (cases ifrs) auto
  let ?rest = "\<lambda>f f'. \<lambda>ss. each_ifreq ifrs' tunerfind2 f = Some (Inr (), f') \<and> iface_found f' = iface_found f + length ss \<and>
    found f' = found f @ tuners (ups nics) ss \<and> script (os f') = es"
  have keep: "\<exists>f'. ?rest (f\<lparr>os := (os f)\<lparr>script := es1\<rparr>\<rparr>) f' ss"
    if "es1 = ioctl_events (list_use f) (list_max f) nics ss @ es" "length ss = length (filter link_if (ups nics))" for es1
    by (rule Cons.IH [OF _ that(2) Cons.prems(3) len]) (use Cons.prems(1) that(1) in \<open>simp_all add: finder_inv_def\<close>)
  consider (down) "\<not> on_net flags" | (none) "on_net flags" "a = 0"
    | (other) "on_net flags" "a \<noteq> 0" "\<not> link_local a m" | (link) "on_net flags" "link_local a m"
    using link_local_nonzero by blast
  then show ?case
  proof cases
    case down
    then have s: "script (os f) = Ev_num (uint flags) # ioctl_events (list_use f) (list_max f) nics ss @ es"
      using Cons.prems(5) by (simp add: nic nic_events_def)
    have u: "ups (nic # nics) = ups nics" using down by (simp add: nic ups_def)
    from keep [OF refl] Cons.prems(2) s show ?thesis
      by (simp add: ifrs u bindM_def tryM_def ask_ioctl_eval [OF s] up_running_bits down)
  next
    case none
    then have nl: "\<not> link_local a m" using link_local_nonzero by blast
    have s: "script (os f) = Ev_num (uint flags) # Ev_num 0 # ioctl_events (list_use f) (list_max f) nics ss @ es"
      using Cons.prems(5) none nl by (simp add: nic nic_events_def)
    have u: "tuners (ups (nic # nics)) ss = tuners (ups nics) ss" "filter link_if (ups (nic # nics)) = filter link_if (ups nics)"
      using none nl by (simp_all add: nic ups_def link_if_def)
    from keep [OF refl] Cons.prems(2) show ?thesis unfolding ifrs u
      by (simp add: u bindM_def tryM_def ask_ioctl_eval [OF s] ask_ioctl_eval up_running_bits none)
  next
    case other
    have s: "script (os f) = Ev_num (uint flags) # Ev_num (uint a) # Ev_num (uint m) # ioctl_events (list_use f) (list_max f) nics ss @ es"
      using Cons.prems(5) other by (simp add: nic nic_events_def)
    have u: "tuners (ups (nic # nics)) ss = tuners (ups nics) ss" "filter link_if (ups (nic # nics)) = filter link_if (ups nics)"
      using other by (simp_all add: nic ups_def link_if_def)
    have t: "tunerfind2 name a m g = Some (Inr (), g)" for name g using other by (simp add: tunerfind2_def ret_def)
    from keep [OF refl] Cons.prems(2) other(2) show ?thesis unfolding ifrs u
      by (simp add: u bindM_def tryM_def ask_ioctl_eval [OF s] ask_ioctl_eval up_running_bits other t)
  next
    case link
    then have a: "a \<noteq> 0" using link_local_nonzero by blast
    have u: "filter link_if (ups (nic # nics)) = hd (ups (nic # nics)) # filter link_if (ups nics)"
      "ups (nic # nics) = hd (ups (nic # nics)) # ups nics" "link_if (hd (ups (nic # nics)))"
      using link by (simp_all add: nic ups_def link_if_def)
    from Cons.prems(2) obtain t ss' where ss: "ss = t # ss'" and len2: "length ss' = length (filter link_if (ups nics))"
      unfolding u(1) by (cases ss) auto
    let ?m = "grown (list_use f) (list_max f) (replies t)"
    let ?es = "ioctl_events (list_use f + length (replies t)) ?m nics ss' @ es"
    have s: "script (os f) = Ev_num (uint flags) # Ev_num (uint a) # Ev_num (uint m) # site_events (list_use f) (list_max f) t @ ?es"
      using Cons.prems(5) link a by (simp add: nic nic_events_def ss)
    let ?f = "f\<lparr>os := (os f)\<lparr>script := site_events (list_use f) (list_max f) t @ ?es\<rparr>\<rparr>"
    have ok: "site_ok t" "finder_inv ?f" "script (os ?f) = site_events (list_use ?f) (list_max ?f) t @ ?es"
      using Cons.prems(1,3) ss by (simp_all add: finder_inv_def)
    obtain f1 where f1: "tunerfind2 (ifr_name ifr) a m ?f = Some (Inr (), f1)" "iface_found f1 = iface_found ?f + 1"
        "finder_like f1 (with_tuners ?f (map (tuner_of a) (replies t)) (grown (list_use ?f) (list_max ?f) (replies t)) ?es)"
        "finder_inv f1"
      by (rule tunerfind2_run [OF ok(2) link(2) ok(1,3), of "ifr_name ifr"])
    then have eqs: "list_use f1 = list_use f + length (replies t)" "list_max f1 = ?m"
      "found f1 = found f @ map (tuner_of a) (replies t)" "script (os f1) = ?es"
      by (simp_all add: finder_like_def with_tuners_def)
    have "\<exists>f'. ?rest f1 f' ss'"
      by (rule Cons.IH [OF f1(4) len2 _ len]) (use Cons.prems(3) ss eqs in simp_all)
    moreover have "each_ifreq ifrs tunerfind2 f = each_ifreq ifrs' tunerfind2 f1"
      using a f1(1) by (simp add: ifrs bindM_def tryM_def ask_ioctl_eval [OF s] ask_ioctl_eval up_running_bits link)
    moreover have "tuners (ups (nic # nics)) ss = map (tuner_of a) (replies t) @ tuners (ups nics) ss'"
      using link by (simp add: nic ups_def link_if_def ss)
    ultimately show ?thesis using f1(2) by (simp add: eqs ss)
  qed
qed

text \<open>C33: For up to 102 interfaces, and any replies on those with a link-local address, the variant that asks the kernel itself
  finds the same tuners, in the same order, on as many interfaces as the one that is compiled finds for the list
  of the interfaces that are up; each reads all of its answers.\<close>

theorem ioctl_finds_same:
  assumes "finder_inv f" and "length ss = length (filter link_if (ups nics))" and "\<forall>s \<in> set ss. site_ok s"
    and "length bytes = 40 * length nics" and "length nics \<le> 102"
    and "script (os f) = sites_events (list_use f) (list_max f) ss @ es"
    and "g = f\<lparr>os := (os f)\<lparr>script := [Ev_malloc True, Ev_malloc True, Ev_read (Some bytes)] @
      ioctl_events (list_use f) (list_max f) nics ss @ es\<rparr>\<rparr>"
  shows "\<exists>f' g'. foreach_if (Some (ups nics)) tunerfind2 f = Some (Inr (), f') \<and>
    foreach_if_ioctl tunerfind2 g = Some (Inr (), g') \<and> found g' = found f' \<and> iface_found g' = iface_found f' \<and>
    script (os f') = es \<and> script (os g') = es"
proof -
  have "\<forall>ifa \<in> set (ups nics). ifa_netmask ifa \<noteq> None" by (auto simp: ups_def)
  from foreach_run [OF assms(1-3) this assms(6)] obtain f' where
    f': "foreach_if (Some (ups nics)) tunerfind2 f = Some (Inr (), f')" "iface_found f' = iface_found f + length ss"
      "found f' = found f @ tuners (ups nics) ss" "script (os f') = es"
    by (auto simp: foreach_if_def)
  let ?es = "ioctl_events (list_use f) (list_max f) nics ss @ es"
  let ?w = "(os f)\<lparr>script := Ev_malloc True # Ev_read (Some bytes) # ?es, blocks := blocks (os f) + 1\<rparr>"
  let ?g = "f\<lparr>os := (os f)\<lparr>script := ?es, blocks := blocks (os f) + 1\<rparr>\<rparr>"
  have "get_conf ?w = Some (Inr bytes, ?w\<lparr>script := ?es\<rparr>)"
    by (rule get_conf_eval) (use assms(4,5) in simp_all)
  then have c: "get_conf ?w = Some (Inr bytes, os ?g)" by simp
  have n: "length (ifreqs k l) = k" for k l by (induction k arbitrary: l) simp_all
  obtain g1 where g1: "each_ifreq (ifreqs (length nics) bytes) tunerfind2 ?g = Some (Inr (), g1)"
      "iface_found g1 = iface_found f + length ss" "found g1 = found f @ tuners (ups nics) ss" "script (os g1) = es"
    using each_ifreq_run [of ?g ss nics "ifreqs (length nics) bytes" es] assms(1-3) n by (auto simp: finder_inv_def)
  have "foreach_if_ioctl tunerfind2 g = thenM (each_ifreq (ifreqs (length nics) bytes) tunerfind2) (on_os free_block) ?g"
    using assms(4) c by (simp add: assms(7) foreach_if_ioctl_def bindM_def tryM_def on_os_def malloc_def sizeof_ifreq_def)
  also have "\<dots> = Some (Inr (), g1\<lparr>os := (os g1)\<lparr>blocks := blocks (os g1) - 1\<rparr>\<rparr>)"
    using g1(1) by (simp add: thenM_def bindM_def tryM_def on_os_def free_block_def)
  finally show ?thesis using f' g1(2-4) by auto
qed

text \<open>One interface that is down, the loopback interface, and one with a link-local address, where a tuner
  answers.\<close>

definition example_nics :: "nic list" where
  "example_nics = [(0x1002, 0x0201fea9, 0xffff), (0x49, 0x0100007f, 0xff), (0x1043, 0x0201fea9, 0xffff)]"

theorem ioctl_finds_same_witness:
  "\<exists>f' g'. foreach_if (Some (ups example_nics)) tunerfind2 (new_finder example_world\<lparr>os := example_world\<lparr>script :=
       sites_events 0 8 [(replicate 14 0, 5, [example_reply])]\<rparr>\<rparr>) = Some (Inr (), f') \<and>
     foreach_if_ioctl tunerfind2 (new_finder example_world\<lparr>os := example_world\<lparr>script :=
       [Ev_malloc True, Ev_malloc True, Ev_read (Some (replicate 120 65))] @
       ioctl_events 0 8 example_nics [(replicate 14 0, 5, [example_reply])]\<rparr>\<rparr>) = Some (Inr (), g') \<and>
     found g' = found f'"
proof -
  let ?ss = "[(replicate 14 0, 5, [example_reply])]"
  let ?f = "(new_finder example_world)\<lparr>os := example_world\<lparr>script := sites_events 0 8 ?ss\<rparr>\<rparr>"
  have l: "link_local 0x0201fea9 0xffff" "\<not> link_local 0x0100007f 0xff" by code_simp+
  have up: "\<not> on_net 0x1002" "on_net 0x49" "on_net 0x1043" by code_simp+
  have inv: "finder_inv ?f" by (simp add: finder_inv_def new_finder_def)
  have "length ?ss = length (filter link_if (ups example_nics))"
    using l up by (simp add: example_nics_def ups_def link_if_def)
  moreover have "\<forall>s \<in> set ?ss. site_ok s" by (simp add: site_ok_def example_reply_def)
  moreover have "script (os ?f) = sites_events (list_use ?f) (list_max ?f) ?ss @ []"
    by (simp add: new_finder_def)
  moreover have "length example_nics = 3" by (simp add: example_nics_def)
  ultimately show ?thesis
    using ioctl_finds_same [OF inv, of ?ss example_nics "replicate 120 65" "[]"] by (auto simp: new_finder_def)
qed

end
