(* ===== verification/Spec2Isabelle.thy ===== *)
theory Spec2Isabelle
  imports Sez_Main Sez_Ioctl
begin

text \<open>
  A verification library for seztuner, the driver of a dual ATSC tuner that is reached over the network.

  \<^bold>\<open>The program and its model\<close>

  \<^item> \<^verbatim>\<open>iface.cpp\<close> and \<^verbatim>\<open>socket::find\<close> discover tuners: one broadcast on each link-local interface, and an array
    of the tuners that answer. Model: \<open>Sez_Discovery\<close> (\<open>foreach_if\<close>, \<open>tunerfind2\<close>, \<open>socket_find\<close>). \<open>Sez_Ioctl\<close> has the
    variant of \<^verbatim>\<open>foreach_if\<close> for systems without \<^verbatim>\<open>getifaddrs\<close>, which \<^verbatim>\<open>iface.cpp\<close> does not compile.
  \<^item> \<^verbatim>\<open>socket.cpp\<close> talks to one tuner over TCP in frames with a checksum. \<open>Sez_Socket\<close> has \<open>socket_open\<close>,
    \<open>socket_close\<close>, \<open>socket_write\<close>, \<open>socket_read\<close> and \<open>write_then_read\<close>; \<open>Sez_Registers\<close> the commands built on
    them, for the GPIO and the registers of the demodulators; \<open>Sez_Crc\<close> both checksums of the program.
  \<^item> \<^verbatim>\<open>tuner.cpp\<close> sets the tuner up and tunes it. \<open>Sez_Tuner\<close> has the record \<open>tuner\<close> and its operations
    (\<open>tuner_init\<close>, \<open>set_amp\<close>, \<open>set_antenna\<close>, \<open>set_freq\<close>, \<open>get_mse\<close>, \<open>start_ts\<close>, ...), \<open>Sez_Scan\<close> the channel
    scan. Antennas are an instance of \<open>linorder\<close>, in the order of their codes, because the scan counts
    through them.
  \<^item> \<^verbatim>\<open>mpgatsc.cpp\<close> takes transport packets apart. The record \<open>mpgatsc\<close> and the parsers of the tables are in
    \<open>Sez_Psi\<close>, one packet (\<open>thread_demux\<close>), \<open>init\<close> and the destructor in \<open>Sez_Demux\<close>; \<open>Sez_Tables\<close>,
    \<open>Sez_Reassembly\<close> and \<open>Sez_Lifetime\<close> hold what is proved of them.
  \<^item> \<^verbatim>\<open>mpgts.cpp\<close> joins a tuner, two demultiplexers and a thread that receives UDP. \<open>Sez_Mpgts\<close> has the record
    \<open>mpgts\<close>, \<open>mpgts_open\<close>, \<open>mpgts_close\<close>, the steps \<open>thr_step\<close> of the thread and \<open>main_step\<close> of \<^verbatim>\<open>start_ts\<close>, and
    the relation \<open>step\<close> that interleaves them.
  \<^item> \<^verbatim>\<open>main.cpp\<close> is the command line: \<open>Sez_Probe\<close> finds the strong channels, \<open>Sez_Ident\<close> collects their channel
    tables (\<open>get_ch_id\<close>), \<open>Sez_Main\<close> has the arguments, \<open>do_item\<close>, \<open>do_record\<close> and \<open>main_prog\<close>. \<open>Sez_Silent\<close>
    defines nothing of the program: it is a run in which every call succeeds, for the examples.

  Records have the fields of the classes, machine integers are words of their width (\<^verbatim>\<open>u8\<close>, \<^verbatim>\<open>u16\<close>, \<^verbatim>\<open>u32\<close>),
  and a read outside a buffer has no result. A function of the program is a command: it maps a state to a
  value or an error and a new state, or to \<open>None\<close>. What the operating system and the tuner answer is the
  \<^emph>\<open>script\<close> of \<open>Sez_World\<close>, a list of events that theorems quantify over; the \<^emph>\<open>trace\<close> records what the program
  sent, wrote past a buffer, closed and slept, and \<open>blocks\<close> counts heap blocks. Commands of a component run on
  its own record; \<open>sock\<close>, \<open>call\<close>, \<open>on_sys\<close>, \<open>on_tun\<close>, \<open>on_atsc\<close>, \<open>s_on\<close> and \<open>i_on\<close> lift those of the component
  below, the way the objects are nested.

  \<^bold>\<open>What is shown\<close>

  \<^item> Checksums: both table-driven or unrolled computations equal bit-serial references; a burst of four bytes is
    always detected.
  \<^item> Control channel: a frame that arrives in any pieces is read back; damage is rejected; \<open>write_then_read\<close> keeps
    its contract on heap, trace and buffer, and waits a bounded time; but a connection closed inside a
    frame makes \<open>socket_read\<close> spin.
  \<^item> Tuner: what each return of \<open>set_amp\<close> has sent and recorded, and that the amplifier lines determine the inputs;
    the invariants \<open>tuned\<close> and \<open>coherent\<close> are established by \<open>tuner_init\<close> and kept by all operations and by the
    scan; which frequency is programmed. The tuning requests of a scan are those of every entry of the table, once
    per antenna, in the order of the table; it returns a sorted list, on a fixed antenna exactly the
    channels with a lock, and ends by writing back register 0x12a as it read it.
  \<^item> Tables and demultiplexer: the header of a section is accepted exactly if it should be; parsers stay inside
    their buffers, except for the descriptor that runs away; the program association table becomes the map
    it encodes; a packet refines an abstract reassembly of its PID, and from there sections cut into
    packets in any way arrive whole; every block is freed by the destructor.
  \<^item> Receiver: invariants of both demultiplexers under every interleaving of the thread with \<^verbatim>\<open>start_ts\<close>, the
    handshake between the two, what happens once the thread is dead, and what \<open>mpgts_close\<close> closes.
  \<^item> Discovery: it finds exactly the tuners that answer, whatever their number, and sends nothing but its request; it
    stores two bytes too many for every hardware address it reads; the sockets it leaks. Both variants of \<open>foreach_if\<close> find the same tuners.
  \<^item> Command line: the arguments that are accepted; the array of strong channels is never overrun, nor is the buffer
    of channel tables unless the thread makes a text longer while it is copied; how long a single channel waits;
    which ends of \<open>do_item\<close> and \<open>do_record\<close> close the tuner and join the thread and which leave both. For a whole
    run of \<open>main_prog\<close> that reports success, which sockets it leaves open; files, handles of \<^verbatim>\<open>iconv\<close> and memory are
    not part of that.

  Where the code does not do what it means to, the theorem states what it does.

  \<^bold>\<open>Interfaces\<close>

  The locale \<open>state_order\<close> is a reflexive, transitive relation of states that commands keep; it carries every
  invariant and frame property, with an interpretation for each. \<open>crc_engine\<close> gives both checksums their
  linearity; \<open>exchange_bus\<close> states what the registers rely on in \<open>write_then_read\<close>; \<open>amp_property\<close> and
  \<open>scan_client\<close> lift a property of \<open>set_amp\<close> to all of the tuner and to the scan; \<open>watched_trace\<close> gives the sequence
  of one kind of action that a scan adds to the trace (interpreted as \<open>tunings\<close> and \<open>reports\<close>); \<open>demultiplexer\<close> lifts an
  invariant of one demultiplexer to the receiver (interpreted as \<open>reassembly\<close>, \<open>bounded\<close> and \<open>shown\<close>).
  Two locales carry what holds across components. \<open>traffic\<close> (\<open>Sez_Traffic\<close>) asks of a relation of worlds that
  the single system calls keep it, and gives it for every operation of every component; it is interpreted as
  \<open>growth\<close>, for the trace, and as \<open>descriptors\<close>, for what is open. \<open>client\<close> (\<open>Sez_Client\<close>) asks the same of a relation of
  \<^verbatim>\<open>mpgts\<close> objects for what single calls and single steps of the thread keep, and gives it for the command line's
  loops; every \<open>traffic\<close> gives a \<open>client\<close>, and \<open>ports\<close> and \<open>tables\<close> interpret it on the sockets and on the texts.
  \<open>Sez_Logic\<close> has triples for commands, with rules for loops.

  \<^bold>\<open>Loops\<close>

  Loops over data are structural or have a measure. A loop around system calls recurs on the script, so it needs no
  fuel: every round consumes an event, and a round that did not would have no result. Bounded loops keep the
  program's own bound: the scan has three rounds, one for each antenna, and it is shown that
  more make no difference; \<open>start_ts\<close> looks at the flag three times, and \<open>start_rounds_enough\<close> shows that it ends within the
  seven steps that \<open>start_rounds\<close> has; the rounds of \<open>get_ch_id\<close> are its 100. Sections are at most 0x1002 bytes long, and a datagram
  is 12 bytes and seven packets of 188.

  \<^bold>\<open>Assumptions and what is not modelled\<close>

  \<^item> \<open>iconv\<close> (names of channels), \<open>fresh\<close> (the contents of new memory) and \<open>beyond\<close> (what lies behind the table of
    frequencies) are parameters: theorems hold for all of them. \<open>iconv\<close> is a function of the code units it is
    given alone: what its descriptor may keep from one call to the next, such as the byte order, is not modelled.
  \<^item> Messages on the terminal and \<^verbatim>\<open>ip_printf\<close>, with its exit when \<^verbatim>\<open>inet_ntop\<close> fails, are left out, and with them
    the field \<^verbatim>\<open>ipstr\<close>; of the callback of the scan its arguments are kept. \<^verbatim>\<open>dump_pkt\<close> only prints.
  \<^item> The block of debugging accessors in \<^verbatim>\<open>mpgts.h\<close>, which is not compiled, is not modelled, nor are the accessors of the
    classes that only pass a call on.
  \<^item> The thread and \<^verbatim>\<open>start_ts\<close> interleave at system calls, sleeps, and every load of and store to the shared flag,
    which stays within an \<^verbatim>\<open>int\<close>: a step that would overflow it has no result. For the command line the thread is two
    functions, each any steps of the thread: \<open>meanwhile\<close>, applied where the main thread sleeps or waits, and
    \<open>race\<close>, applied between the two reads of a channel table in \<open>append_vct\<close>. Races within a single read or
    write of memory are not modelled.
  \<^item> Counters that only a failing \<^verbatim>\<open>realloc\<close> could bound, such as the number of tuners, are unbounded.
  \<^item> Terminal attributes: \<open>rawgetch\<close> keeps which of its calls failed and what was read.
\<close>

end
